(* ===== verification/Prelude.thy ===== *)
theory Prelude
  imports Main "HOL-Library.Word"
begin

text \<open>
  Types and facts shared by every component.

  \<^item> Bytes, byte buffers and the structural paths of the wRPC framing. A Rust \<open>usize\<close> is a
    \<open>nat\<close>: the model is of a 64-bit target, and the places where the width of an integer decides a
    branch (\<open>u32::try_from\<close>, \<open>checked_add\<close>, \<open>saturating_add\<close>) write the bound out.
  \<^item> I/O errors. A \<open>std::io::Error\<close> is represented by its \<open>ErrorKind\<close>; the message text is not
    part of the model. A fallible function returns \<open>io_error + 'a\<close> and \<open>and_then\<close> is the \<open>?\<close>
    operator.
  \<^item> The validation of UTF-8 by \<open>String::from_utf8\<close>.
  \<^item> The interface of an incremental decoder, \<open>tokio_util::codec::Decoder\<close>: a locale whose laws say
    that a decoder never looks past the bytes it was given, and what follows from them for a caller
    that receives its input in pieces.
\<close>

section \<open>Bytes, paths and errors\<close>

named_theorems codec_simps \<open>what each encoder writes and each reader gives back\<close>

type_synonym byte = "8 word"
type_synonym bytes = "byte list"
type_synonym path = "nat list"
type_synonym pattern = "nat option list"

datatype error_kind =
    NotFound
  | InvalidInput
  | InvalidData
  | UnexpectedEof
  | BrokenPipe
  | WouldBlock
  | ConnectionAborted
  | Unsupported
  | OutOfMemory
  | Other

type_synonym io_error = error_kind

text \<open>The \<open>?\<close> operator, and \<open>Result::map\<close>.\<close>

definition and_then :: "'e + 'a \<Rightarrow> ('a \<Rightarrow> 'e + 'b) \<Rightarrow> 'e + 'b" where
  "and_then r f = (case r of Inl e \<Rightarrow> Inl e | Inr a \<Rightarrow> f a)"

lemma and_then_Inr [simp]: "and_then (Inr a) f = f a"
  by (simp add: and_then_def)

lemma and_then_Inl [simp]: "and_then (Inl e) f = Inl e"
  by (simp add: and_then_def)

lemma and_then_eq_Inr: "and_then r f = Inr b \<longleftrightarrow> (\<exists>a. r = Inr a \<and> f a = Inr b)"
  by (cases r) auto

lemma and_then_eq_Inl: "and_then r f = Inl e \<longleftrightarrow> r = Inl e \<or> (\<exists>a. r = Inr a \<and> f a = Inl e)"
  by (cases r) auto

lemma and_then_assoc: "and_then (and_then r f) g = and_then r (\<lambda>a. and_then (f a) g)"
  by (cases r) auto

lemma and_then_cong [fundef_cong]:
  "r = r' \<Longrightarrow> (\<And>a. r' = Inr a \<Longrightarrow> f a = g a) \<Longrightarrow> and_then r f = and_then r' g"
  by (cases r') auto

text \<open>\<open>u32::try_from\<close>, with its error turned into \<open>ErrorKind::InvalidInput\<close> as every caller does.\<close>

definition u32_try_from :: "nat \<Rightarrow> io_error + nat" where
  "u32_try_from n = (if n < 2 ^ 32 then Inr n else Inl InvalidInput)"

lemma u32_try_from_eq_Inr [simp]: "u32_try_from n = Inr m \<longleftrightarrow> m = n \<and> n < 2 ^ 32"
  by (auto simp: u32_try_from_def)

lemma u32_try_from_small [simp]: "n < 2 ^ 32 \<Longrightarrow> u32_try_from n = Inr n"
  by (simp add: u32_try_from_def)

text \<open>The cast \<open>as u8\<close>.\<close>

definition as_u8 :: "nat \<Rightarrow> byte" where
  "as_u8 n = of_nat n"

lemma unat_as_u8 [simp]: "unat (as_u8 n) = n mod 256"
  by (simp add: as_u8_def unat_of_nat)

lemma unat_as_u8_small: "n < 256 \<Longrightarrow> unat (as_u8 n) = n"
  by simp

lemma as_u8_unat [simp]: "as_u8 (unat b) = b"
  by (simp add: as_u8_def)

lemma unat_byte_less [simp]: "unat (b :: byte) < 256"
  using unsigned_less [of b] by simp

definition usize_max :: nat where
  "usize_max = 2 ^ 64 - 1"

definition saturating_add :: "nat \<Rightarrow> nat \<Rightarrow> nat" where
  "saturating_add a b = min (a + b) usize_max"

section \<open>UTF-8\<close>

text \<open>
  \<open>std::str::from_utf8\<close> accepts exactly the well-formed byte sequences of the Unicode standard:
  no overlong form, no surrogate, nothing above \<open>U+10FFFF\<close>.
\<close>

definition utf8_cont :: "byte \<Rightarrow> bool" where
  "utf8_cont b \<longleftrightarrow> 128 \<le> unat b \<and> unat b < 192"

fun utf8_valid :: "bytes \<Rightarrow> bool" where
  "utf8_valid [] = True"
| "utf8_valid (b # bs) =
    (let n = unat b in
     if n < 128 then utf8_valid bs
     else if 194 \<le> n \<and> n < 224 then
       (case bs of c # bs' \<Rightarrow> utf8_cont c \<and> utf8_valid bs' | _ \<Rightarrow> False)
     else if 224 \<le> n \<and> n < 240 then
       (case bs of
          c # d # bs' \<Rightarrow>
            utf8_cont c \<and> utf8_cont d \<and> (n = 224 \<longrightarrow> 160 \<le> unat c) \<and> (n = 237 \<longrightarrow> unat c < 160) \<and>
            utf8_valid bs'
        | _ \<Rightarrow> False)
     else if 240 \<le> n \<and> n < 245 then
       (case bs of
          c # d # e # bs' \<Rightarrow>
            utf8_cont c \<and> utf8_cont d \<and> utf8_cont e \<and> (n = 240 \<longrightarrow> 144 \<le> unat c) \<and>
            (n = 244 \<longrightarrow> unat c < 144) \<and> utf8_valid bs'
        | _ \<Rightarrow> False)
     else False)"

definition from_utf8 :: "bytes \<Rightarrow> io_error + bytes" where
  "from_utf8 bs = (if utf8_valid bs then Inr bs else Inl InvalidData)"

lemma from_utf8_eq_Inr [simp]: "from_utf8 bs = Inr s \<longleftrightarrow> s = bs \<and> utf8_valid bs"
  by (auto simp: from_utf8_def)

section \<open>Reading from a byte stream that ends\<close>

text \<open>
  \<open>AsyncReadExt::read_u8\<close> and \<open>read_exact\<close> on a stream of which \<open>bs\<close> are the bytes up to the end:
  they fail with \<open>UnexpectedEof\<close> if the stream ends first.
\<close>

fun read_u8 :: "bytes \<Rightarrow> io_error + byte \<times> bytes" where
  "read_u8 [] = Inl UnexpectedEof"
| "read_u8 (b # bs) = Inr (b, bs)"

definition read_exact :: "nat \<Rightarrow> bytes \<Rightarrow> io_error + bytes \<times> bytes" where
  "read_exact n bs = (if n \<le> length bs then Inr (take n bs, drop n bs) else Inl UnexpectedEof)"

lemma read_exact_append [simp]: "length xs = n \<Longrightarrow> read_exact n (xs @ ys) = Inr (xs, ys)"
  by (simp add: read_exact_def)

lemma read_exact_eq_Inr:
  "read_exact n bs = Inr (xs, ys) \<longleftrightarrow> bs = xs @ ys \<and> length xs = n"
  by (auto simp: read_exact_def)

text \<open>Where a proper prefix of two pieces ends.\<close>

lemma append_prefix_cases:
  assumes "a @ b = p @ q"
  obtains (first) u where "a = p @ u" "q = u @ b" "u \<noteq> []"
  | (second) u where "p = a @ u" "b = u @ q"
proof (cases "length p < length a")
  case True
  then have "a = p @ drop (length p) a" and "q = drop (length p) a @ b"
    using assms by (auto simp: append_eq_append_conv_if) (metis append_eq_conv_conj append_take_drop_id)
  with True first show ?thesis by (metis append_Nil2 less_irrefl)
next
  case False
  with assms second show ?thesis
    by (metis append_eq_append_conv_if append_eq_conv_conj append_take_drop_id not_less)
qed

section \<open>Incremental decoders\<close>

text \<open>
  \<open>tokio_util::codec::Decoder::decode\<close> takes the decoder state and the bytes buffered so far, and
  gives the new state, the bytes it left in the buffer and one of: an error, \<open>None\<close> (more bytes are
  needed) or a decoded item. \<open>ok\<close> is the invariant of the decoder's state between calls.
\<close>

type_synonym ('s, 'a) decode = "'s \<Rightarrow> bytes \<Rightarrow> 's \<times> bytes \<times> (io_error + 'a option)"

text \<open>
  What a caller does with input that arrives in pieces: append each piece to what is left in the
  buffer and call \<open>decode\<close>, until it gives an item or an error.
\<close>

fun feed :: "('s, 'a) decode \<Rightarrow> 's \<Rightarrow> bytes \<Rightarrow> bytes list \<Rightarrow> 's \<times> bytes \<times> (io_error + 'a option)" where
  "feed dec s b [] = (s, b, Inr None)"
| "feed dec s b (c # cs) =
    (case dec s (b @ c) of
       (s', b', Inr None) \<Rightarrow> feed dec s' b' cs
     | (s', b', Inr (Some a)) \<Rightarrow> (s', b' @ concat cs, Inr (Some a))
     | (s', b', Inl e) \<Rightarrow> (s', b', Inl e))"

lemma decode_cases:
  obtains (fail) t d e where "f s b = (t, d, Inl e)"
  | (more) t d where "f s b = (t, d, Inr None)"
  | (item) t d a where "f s b = (t, d, Inr (Some a))"
  by (metis old.sum.exhaust option.exhaust prod_cases3)

locale stream_decoder =
  fixes decode :: "'s \<Rightarrow> bytes \<Rightarrow> 's \<times> bytes \<times> (io_error + 'a option)"
    and ok :: "'s \<Rightarrow> bool"
  assumes item_ext:
      "\<And>s b s' b' a x. ok s \<Longrightarrow> decode s b = (s', b', Inr (Some a)) \<Longrightarrow>
         decode s (b @ x) = (s', b' @ x, Inr (Some a))"
    and more_ext:
      "\<And>s b s' b' x. ok s \<Longrightarrow> decode s b = (s', b', Inr None) \<Longrightarrow>
         decode s (b @ x) = decode s' (b' @ x)"
    and fail_ext:
      "\<And>s b s' b' e x. ok s \<Longrightarrow> decode s b = (s', b', Inl e) \<Longrightarrow>
         snd (snd (decode s (b @ x))) = Inl e"
    and ok_item: "\<And>s b s' b' a. ok s \<Longrightarrow> decode s b = (s', b', Inr (Some a)) \<Longrightarrow> ok s'"
    and ok_more: "\<And>s b s' b'. ok s \<Longrightarrow> decode s b = (s', b', Inr None) \<Longrightarrow> ok s'"
begin

text \<open>
  Decoding does not depend on how the input was cut into pieces: an item found in the whole input is
  found in the pieces, with the same state and the same bytes left over.
\<close>

lemma feed_item:
  assumes "ok s" and "decode s (b @ concat cs) = (s', b', Inr (Some a))" and "cs \<noteq> []"
  shows "feed decode s b cs = (s', b', Inr (Some a))"
  using assms
proof (induction cs arbitrary: s b)
  case Nil
  then show ?case by simp
next
  case (Cons c cs)
  show ?case
  proof (cases rule: decode_cases [of decode s "b @ c"])
    case (fail t d e)
    with fail_ext [OF Cons.prems(1) fail, of "concat cs"] Cons.prems(2) show ?thesis by simp
  next
    case (more t d)
    have "decode t (d @ concat cs) = (s', b', Inr (Some a))"
      using more_ext [OF Cons.prems(1) more, of "concat cs"] Cons.prems(2) by simp
    moreover have "cs \<noteq> []"
      using more Cons.prems(2) by auto
    ultimately show ?thesis
      using Cons.IH [OF ok_more [OF Cons.prems(1) more]] more by simp
  next
    case (item t d a')
    with item_ext [OF Cons.prems(1) item, of "concat cs"] Cons.prems(2) show ?thesis by simp
  qed
qed

text \<open>Input that is not enough as a whole is not enough in pieces, and decoding goes on from there.\<close>

lemma feed_more:
  assumes "ok s" and "decode s (b @ concat cs) = (s', b', Inr None)"
  shows "\<exists>t d. feed decode s b cs = (t, d, Inr None) \<and> ok t \<and>
           (\<forall>x. decode t (d @ x) = decode s (b @ concat cs @ x))"
  using assms
proof (induction cs arbitrary: s b)
  case Nil
  then show ?case by simp
next
  case (Cons c cs)
  show ?case
  proof (cases rule: decode_cases [of decode s "b @ c"])
    case (fail t d e)
    with fail_ext [OF Cons.prems(1) fail, of "concat cs"] Cons.prems(2) show ?thesis by simp
  next
    case (more t d)
    have step: "\<And>x. decode t (d @ x) = decode s (b @ c @ x)"
      using more_ext [OF Cons.prems(1) more] by simp
    from step [of "concat cs"] Cons.prems(2)
    have "decode t (d @ concat cs) = (s', b', Inr None)" by simp
    from Cons.IH [OF ok_more [OF Cons.prems(1) more] this] more step
    show ?thesis by simp
  next
    case (item t d a')
    with item_ext [OF Cons.prems(1) item, of "concat cs"] Cons.prems(2) show ?thesis by simp
  qed
qed

lemma feed_fail:
  assumes "ok s" and "snd (snd (decode s (b @ concat cs))) = Inl e" and "cs \<noteq> []"
  shows "snd (snd (feed decode s b cs)) = Inl e"
  using assms
proof (induction cs arbitrary: s b)
  case Nil
  then show ?case by simp
next
  case (Cons c cs)
  show ?case
  proof (cases rule: decode_cases [of decode s "b @ c"])
    case (fail t d e')
    with fail_ext [OF Cons.prems(1) fail, of "concat cs"] Cons.prems(2) show ?thesis by simp
  next
    case (more t d)
    have "snd (snd (decode t (d @ concat cs))) = Inl e"
      using more_ext [OF Cons.prems(1) more, of "concat cs"] Cons.prems(2) by simp
    moreover have "cs \<noteq> []"
      using more Cons.prems(2) by auto
    ultimately show ?thesis
      using Cons.IH [OF ok_more [OF Cons.prems(1) more]] more by simp
  next
    case (item t d a')
    with item_ext [OF Cons.prems(1) item, of "concat cs"] Cons.prems(2) show ?thesis by simp
  qed
qed

end

end
