(* ===== verification/Wasm_Tokio.thy ===== *)
theory Wasm_Tokio
  imports Prelude
begin

text \<open>
  The primitive encodings wRPC takes from the \<open>wasm-tokio\<close> crate: LEB128 integers, length-prefixed
  names and byte vectors, UTF-8 characters and status bytes. The crate is not part of the repository,
  so its functions are the fields of a record \<open>wasm_tokio\<close>, which every definition that calls them
  takes as an argument, and what wRPC relies on is stated by the locales \<open>leb128\<close> and
  \<open>wasm_tokio_values\<close>. The last section gives the encodings of the WebAssembly specification as one
  record that satisfies the laws, at which the theorems of the development are evaluated.
\<close>

section \<open>The interface\<close>

text \<open>The result of a decoder without state of its own, such as \<open>Leb128DecoderU32\<close>.\<close>

datatype 'a decoded = Done 'a bytes | More | Fail io_error

text \<open>
  \<^item> \<open>leb_enc w n\<close>: the bytes \<open>Leb128Encoder\<close> appends for the unsigned \<open>n\<close> of width \<open>w\<close>;
  \<^item> \<open>leb_dec32\<close>: \<open>Leb128DecoderU32::decode\<close>, which leaves the buffer alone when it needs more;
  \<^item> \<open>leb_read w\<close>: \<open>AsyncReadLeb128::read_u<w>_leb128\<close> on the rest of a stream;
  \<^item> \<open>sleb_enc\<close>, \<open>sleb_read\<close>: the same for signed integers;
  \<^item> \<open>name_enc\<close>, \<open>name_read\<close>: \<open>CoreNameEncoder\<close> and \<open>read_core_name\<close>;
  \<^item> \<open>vec_enc\<close>: \<open>CoreVecEncoderBytes\<close>;
  \<^item> \<open>char_enc\<close>, \<open>char_read\<close>: \<open>Utf8Codec\<close> and \<open>read_char_utf8\<close>, a character as its scalar value;
  \<^item> \<open>read_bool\<close>, \<open>read_option_status\<close>, \<open>read_result_status\<close>: the readers of one status byte.
\<close>

record wasm_tokio =
  leb_enc :: "nat \<Rightarrow> nat \<Rightarrow> bytes"
  leb_dec32 :: "bytes \<Rightarrow> nat decoded"
  leb_read :: "nat \<Rightarrow> bytes \<Rightarrow> io_error + nat \<times> bytes"
  sleb_enc :: "nat \<Rightarrow> int \<Rightarrow> bytes"
  sleb_read :: "nat \<Rightarrow> bytes \<Rightarrow> io_error + int \<times> bytes"
  name_enc :: "bytes \<Rightarrow> io_error + bytes"
  name_read :: "bytes \<Rightarrow> io_error + bytes \<times> bytes"
  vec_enc :: "bytes \<Rightarrow> io_error + bytes"
  char_enc :: "nat \<Rightarrow> bytes"
  char_read :: "bytes \<Rightarrow> io_error + nat \<times> bytes"
  read_bool :: "bytes \<Rightarrow> io_error + bool \<times> bytes"
  read_option_status :: "bytes \<Rightarrow> io_error + bool \<times> bytes"
  read_result_status :: "bytes \<Rightarrow> io_error + bool \<times> bytes"

text \<open>
  What the framing layer relies on: the incremental decoder and the stream reader give back an
  encoded \<open>u32\<close> and the bytes after it, the decoder looks at no byte past the integer, and a name is
  encoded as its length followed by its bytes, an integer below 128 as one byte. A stream that ends inside an integer is an
  \<open>UnexpectedEof\<close>.
\<close>

locale leb128 =
  fixes W :: wasm_tokio
  assumes dec_enc: "\<And>n r. n < 2 ^ 32 \<Longrightarrow> leb_dec32 W (leb_enc W 32 n @ r) = Done n r"
    and dec_nil: "leb_dec32 W [] = More"
    and dec_done_ext: "\<And>b n r x. leb_dec32 W b = Done n r \<Longrightarrow> leb_dec32 W (b @ x) = Done n (r @ x)"
    and dec_fail_ext: "\<And>b e x. leb_dec32 W b = Fail e \<Longrightarrow> leb_dec32 W (b @ x) = Fail e"
    and dec_consumes: "\<And>b n r. leb_dec32 W b = Done n r \<Longrightarrow> \<exists>p. p \<noteq> [] \<and> b = p @ r"
    and dec_bound: "\<And>b n r. leb_dec32 W b = Done n r \<Longrightarrow> n < 2 ^ 32"
    and read32_enc: "\<And>n r. n < 2 ^ 32 \<Longrightarrow> leb_read W 32 (leb_enc W 32 n @ r) = Inr (n, r)"
    and read32_consumes:
      "\<And>b n r. leb_read W 32 b = Inr (n, r) \<Longrightarrow> n < 2 ^ 32 \<and> (\<exists>p. p \<noteq> [] \<and> b = p @ r)"
    and read32_short:
      "\<And>n p q. n < 2 ^ 32 \<Longrightarrow> leb_enc W 32 n = p @ q \<Longrightarrow> q \<noteq> [] \<Longrightarrow>
         leb_read W 32 p = Inl UnexpectedEof"
    and enc_byte: "\<And>n. n < 128 \<Longrightarrow> leb_enc W 32 n = [as_u8 n]"
    and name_enc_small:
      "\<And>s. length s < 2 ^ 32 \<Longrightarrow> name_enc W s = Inr (leb_enc W 32 (length s) @ s)"
    and name_enc_big: "\<And>s. 2 ^ 32 \<le> length s \<Longrightarrow> \<exists>e. name_enc W s = Inl e"
begin

lemma enc_not_Nil [simp]: "n < 2 ^ 32 \<Longrightarrow> leb_enc W 32 n \<noteq> []"
  using dec_enc [of n "[]"] dec_nil by auto

text \<open>A proper prefix of an encoded integer is not an integer yet.\<close>

lemma dec_short:
  assumes "n < 2 ^ 32" and "leb_enc W 32 n = p @ q" and "q \<noteq> []"
  shows "leb_dec32 W p = More"
proof (cases "leb_dec32 W p")
  case (Done m r)
  have "leb_dec32 W (p @ q) = Done n []"
    using dec_enc [OF assms(1), of "[]"] assms(2) by simp
  with dec_done_ext [OF Done, of q] assms(3) show ?thesis by simp
next
  case More
  then show ?thesis .
next
  case (Fail e)
  have "leb_dec32 W (p @ q) = Done n []"
    using dec_enc [OF assms(1), of "[]"] assms(2) by simp
  with dec_fail_ext [OF Fail, of q] show ?thesis by simp
qed

lemma read32_eof: "leb_read W 32 [] = Inl UnexpectedEof"
  using read32_short [of 0 "[]" "leb_enc W 32 0"] enc_not_Nil [of 0] by simp

end

text \<open>
  What the value codecs rely on besides: integers of every width round trip and their encoding does
  not depend on the width, and so do signed integers, names, characters and status bytes; and a reader
  gives only values of its type.
\<close>

locale wasm_tokio_values = leb128 +
  assumes read_enc: "\<And>w n r. w \<in> {8, 16, 32, 64} \<Longrightarrow> n < 2 ^ w \<Longrightarrow>
      leb_read W w (leb_enc W w n @ r) = Inr (n, r)"
    and enc_width: "\<And>v w n. v \<in> {8, 16, 32, 64} \<Longrightarrow> w \<in> {8, 16, 32, 64} \<Longrightarrow>
      n < 2 ^ v \<Longrightarrow> n < 2 ^ w \<Longrightarrow> leb_enc W v n = leb_enc W w n"
    and sread_senc: "\<And>w i r. w \<in> {16, 32, 64} \<Longrightarrow> - (2 ^ (w - 1)) \<le> i \<Longrightarrow> i < 2 ^ (w - 1) \<Longrightarrow>
      sleb_read W w (sleb_enc W w i @ r) = Inr (i, r)"
    and name_read_enc: "\<And>s r. length s < 2 ^ 32 \<Longrightarrow> utf8_valid s \<Longrightarrow>
      name_read W (leb_enc W 32 (length s) @ s @ r) = Inr (s, r)"
    and vec_enc_small:
      "\<And>s. length s < 2 ^ 32 \<Longrightarrow> vec_enc W s = Inr (leb_enc W 32 (length s) @ s)"
    and vec_enc_big: "\<And>s. 2 ^ 32 \<le> length s \<Longrightarrow> \<exists>e. vec_enc W s = Inl e"
    and char_read_enc: "\<And>c r. c < 55296 \<or> 57344 \<le> c \<and> c < 1114112 \<Longrightarrow>
      char_read W (char_enc W c @ r) = Inr (c, r)"
    and bool_bytes: "\<And>r. read_bool W (0 # r) = Inr (False, r)"
      "\<And>r. read_bool W (1 # r) = Inr (True, r)"
    and option_bytes: "\<And>r. read_option_status W (0 # r) = Inr (False, r)"
      "\<And>r. read_option_status W (1 # r) = Inr (True, r)"
    and result_bytes: "\<And>r. read_result_status W (0 # r) = Inr (True, r)"
      "\<And>r. read_result_status W (1 # r) = Inr (False, r)"
    and read_bound: "\<And>w b n r. w \<in> {8, 16, 32, 64} \<Longrightarrow> leb_read W w b = Inr (n, r) \<Longrightarrow> n < 2 ^ w"
    and sread_bound: "\<And>w b i r. w \<in> {16, 32, 64} \<Longrightarrow> sleb_read W w b = Inr (i, r) \<Longrightarrow>
      - (2 ^ (w - 1)) \<le> i \<and> i < 2 ^ (w - 1)"
    and name_read_bound: "\<And>b s r. name_read W b = Inr (s, r) \<Longrightarrow> utf8_valid s \<and> length s < 2 ^ 32"
    and char_read_bound: "\<And>b c r. char_read W b = Inr (c, r) \<Longrightarrow> c < 55296 \<or> 57344 \<le> c \<and> c < 1114112"

section \<open>The encodings of the WebAssembly specification\<close>

lemma pow2_7: "7 < w \<Longrightarrow> (2::'a::comm_semiring_1) ^ w = 128 * 2 ^ (w - 7)"
  using power_add [of "2::'a" 7 "w - 7"] by simp

fun uleb :: "nat \<Rightarrow> bytes" where
  "uleb n = (if n < 128 then [as_u8 n] else as_u8 (128 + n mod 128) # uleb (n div 128))"

declare uleb.simps [simp del]

fun uleb_dec :: "nat \<Rightarrow> bytes \<Rightarrow> nat decoded" where
  "uleb_dec w [] = More"
| "uleb_dec w (b # bs) =
    (if unat b < 128 then (if unat b < 2 ^ w then Done (unat b) bs else Fail InvalidData)
     else if w \<le> 7 then Fail InvalidData
     else (case uleb_dec (w - 7) bs of
             Done n r \<Rightarrow> Done (unat b - 128 + 128 * n) r
           | More \<Rightarrow> More
           | Fail e \<Rightarrow> Fail e))"

function sleb :: "int \<Rightarrow> bytes" where
  "sleb i = (if - 64 \<le> i \<and> i < 64 then [as_u8 (nat (i mod 128))]
             else as_u8 (nat (128 + i mod 128)) # sleb (i div 128))"
  by pat_completeness auto
termination
  by (relation "measure (\<lambda>i. nat (if i < 0 then - i else i))") auto

declare sleb.simps [simp del]

fun sleb_dec :: "nat \<Rightarrow> bytes \<Rightarrow> int decoded" where
  "sleb_dec w [] = More"
| "sleb_dec w (b # bs) =
    (let u = int (unat b) in
     if u < 128 then
       (let i = (if u < 64 then u else u - 128) in
        if - (2 ^ (w - 1)) \<le> i \<and> i < 2 ^ (w - 1) then Done i bs else Fail InvalidData)
     else if w \<le> 7 then Fail InvalidData
     else (case sleb_dec (w - 7) bs of
             Done n r \<Rightarrow> Done (u - 128 + 128 * n) r
           | More \<Rightarrow> More
           | Fail e \<Rightarrow> Fail e))"

definition read_of :: "'a decoded \<Rightarrow> io_error + 'a \<times> bytes" where
  "read_of d = (case d of Done n r \<Rightarrow> Inr (n, r) | More \<Rightarrow> Inl UnexpectedEof | Fail e \<Rightarrow> Inl e)"

definition vec_enc_ref :: "bytes \<Rightarrow> io_error + bytes" where
  "vec_enc_ref s = (if length s < 2 ^ 32 then Inr (uleb (length s) @ s) else Inl InvalidInput)"

definition name_read_ref :: "bytes \<Rightarrow> io_error + bytes \<times> bytes" where
  "name_read_ref b =
    and_then (read_of (uleb_dec 32 b)) (\<lambda>(n, r).
    and_then (read_exact n r) (\<lambda>(s, r).
    and_then (from_utf8 s) (\<lambda>s. Inr (s, r))))"

definition utf8_enc :: "nat \<Rightarrow> bytes" where
  "utf8_enc c =
    (if c < 128 then [as_u8 c]
     else if c < 2048 then [as_u8 (192 + c div 64), as_u8 (128 + c mod 64)]
     else if c < 65536 then
       [as_u8 (224 + c div 4096), as_u8 (128 + c div 64 mod 64), as_u8 (128 + c mod 64)]
     else [as_u8 (240 + c div 262144), as_u8 (128 + c div 4096 mod 64),
           as_u8 (128 + c div 64 mod 64), as_u8 (128 + c mod 64)])"

definition utf8_read :: "bytes \<Rightarrow> io_error + nat \<times> bytes" where
  "utf8_read b =
    and_then (read_u8 b) (\<lambda>(x, r).
      let n = unat x in
      if n < 128 then Inr (n, r)
      else
       (let k = (if n < 224 then 1 else if n < 240 then 2 else 3);
            m = (if n < 224 then n - 192 else if n < 240 then n - 224 else n - 240) in
        and_then (read_exact k r) (\<lambda>(cs, r).
          if utf8_valid (x # cs)
          then Inr (fold (\<lambda>c a. a * 64 + (unat c - 128)) cs m, r)
          else Inl InvalidData)))"

definition status_read :: "bool \<Rightarrow> bytes \<Rightarrow> io_error + bool \<times> bytes" where
  "status_read zero b =
    and_then (read_u8 b) (\<lambda>(x, r).
      if x = 0 then Inr (zero, r) else if x = 1 then Inr (\<not> zero, r) else Inl InvalidData)"

definition wasm_ref :: wasm_tokio where
  "wasm_ref =
    \<lparr>leb_enc = (\<lambda>_. uleb), leb_dec32 = uleb_dec 32, leb_read = (\<lambda>w b. read_of (uleb_dec w b)),
     sleb_enc = (\<lambda>_. sleb), sleb_read = (\<lambda>w b. read_of (sleb_dec w b)),
     name_enc = vec_enc_ref, name_read = name_read_ref, vec_enc = vec_enc_ref,
     char_enc = utf8_enc, char_read = utf8_read,
     read_bool = status_read False, read_option_status = status_read False,
     read_result_status = status_read True\<rparr>"

lemmas wasm_ref_simps [simp] = wasm_ref_def [THEN arg_cong, of leb_enc, simplified]
  wasm_ref_def [THEN arg_cong, of leb_dec32, simplified]
  wasm_ref_def [THEN arg_cong, of leb_read, simplified]
  wasm_ref_def [THEN arg_cong, of sleb_enc, simplified]
  wasm_ref_def [THEN arg_cong, of sleb_read, simplified]
  wasm_ref_def [THEN arg_cong, of name_enc, simplified]
  wasm_ref_def [THEN arg_cong, of name_read, simplified]
  wasm_ref_def [THEN arg_cong, of vec_enc, simplified]
  wasm_ref_def [THEN arg_cong, of char_enc, simplified]
  wasm_ref_def [THEN arg_cong, of char_read, simplified]
  wasm_ref_def [THEN arg_cong, of read_bool, simplified]
  wasm_ref_def [THEN arg_cong, of read_option_status, simplified]
  wasm_ref_def [THEN arg_cong, of read_result_status, simplified]

lemma uleb_dec_uleb: "n < 2 ^ w \<Longrightarrow> uleb_dec w (uleb n @ r) = Done n r"
proof (induction n arbitrary: w rule: uleb.induct)
  case (1 n)
  show ?case
  proof (cases "n < 128")
    case True
    with 1 show ?thesis by (simp add: uleb.simps [of n])
  next
    case False
    have w: "7 < w"
    proof (rule ccontr)
      assume "\<not> 7 < w"
      then have "(2::nat) ^ w \<le> 2 ^ 7" by (intro power_increasing) auto
      with 1 False show False by simp
    qed
    then have "n div 128 < 2 ^ (w - 7)"
      using 1(2) pow2_7 [of w, where 'a = nat] by (simp add: less_mult_imp_div_less)
    with 1 False have "uleb_dec (w - 7) (uleb (n div 128) @ r) = Done (n div 128) r" by blast
    with False w show ?thesis
      by (simp add: uleb.simps [of n] not_less)
  qed
qed

lemma uleb_dec_done:
  "uleb_dec w b = Done n r \<Longrightarrow> uleb_dec w (b @ x) = Done n (r @ x)"
  by (induction w b arbitrary: n r rule: uleb_dec.induct)
     (auto split: if_splits decoded.splits)

lemma uleb_dec_fail: "uleb_dec w b = Fail e \<Longrightarrow> uleb_dec w (b @ x) = Fail e"
proof (induction w b arbitrary: e rule: uleb_dec.induct)
  case (2 w b bs)
  then show ?case by (auto split: if_splits decoded.splits dest: uleb_dec_done)
qed simp

lemma uleb_dec_consumes: "uleb_dec w b = Done n r \<Longrightarrow> \<exists>p. p \<noteq> [] \<and> b = p @ r"
proof (induction w b arbitrary: n r rule: uleb_dec.induct)
  case (2 w b bs)
  then show ?case by (auto split: if_splits decoded.splits)
qed simp

lemma uleb_dec_bound: "uleb_dec w b = Done n r \<Longrightarrow> n < 2 ^ w"
proof (induction w b arbitrary: n r rule: uleb_dec.induct)
  case (2 w b bs)
  show ?case
  proof (cases "unat b < 128 \<or> w \<le> 7")
    case True
    with 2 show ?thesis by (auto split: if_splits)
  next
    case False
    with 2 obtain m where m: "uleb_dec (w - 7) bs = Done m r" and n: "n = unat b - 128 + 128 * m"
      by (auto split: decoded.splits)
    from False 2 m have "m < 2 ^ (w - 7)" by auto
    moreover have "unat b < 256" using unsigned_less [of b] by simp
    ultimately have "n < 128 * 2 ^ (w - 7)" using n by linarith
    also have "\<dots> = 2 ^ w" using False pow2_7 [of w, where 'a = nat] by simp
    finally show ?thesis .
  qed
qed simp

lemma uleb_dec_short:
  assumes "n < 2 ^ w" and "uleb n = p @ q" and "q \<noteq> []"
  shows "uleb_dec w p = More"
proof -
  have whole: "uleb_dec w (p @ q) = Done n []"
    using uleb_dec_uleb [OF assms(1), of "[]"] assms(2) by simp
  show ?thesis
  proof (cases "uleb_dec w p")
    case (Done m r)
    with whole uleb_dec_done [OF Done, of q] assms(3) show ?thesis by simp
  next
    case (Fail e)
    with whole uleb_dec_fail [OF Fail, of q] show ?thesis by simp
  qed
qed

lemma sleb_dec_sleb:
  "- (2 ^ (w - 1)) \<le> i \<Longrightarrow> i < 2 ^ (w - 1) \<Longrightarrow> 0 < w \<Longrightarrow> sleb_dec w (sleb i @ r) = Done i r"
proof (induction i arbitrary: w rule: sleb.induct)
  case (1 i)
  have m: "0 \<le> i mod 128" "i mod 128 < 128" by simp_all
  show ?case
  proof (cases "- 64 \<le> i \<and> i < 64")
    case True
    then have "i mod 128 = (if 0 \<le> i then i else i + 128)"
      by presburger
    with True 1 show ?thesis by (simp add: sleb.simps [of i] Let_def)
  next
    case False
    have w: "7 < w"
    proof (rule ccontr)
      assume "\<not> 7 < w"
      then have "(2::int) ^ (w - 1) \<le> 2 ^ 6" by (intro power_increasing) auto
      with 1 False show False by simp
    qed
    have p: "(2::int) ^ (w - 1) = 128 * 2 ^ (w - 7 - 1)"
      using w power_add [of "2::int" 7 "w - 7 - 1"] by simp
    have "- (2 ^ (w - 7 - 1)) \<le> i div 128" "i div 128 < 2 ^ (w - 7 - 1)"
      using 1(2,3) unfolding p by linarith+
    with 1 False w have "sleb_dec (w - 7) (sleb (i div 128) @ r) = Done (i div 128) r" by simp
    with False w m show ?thesis
      by (simp add: sleb.simps [of i] Let_def) (auto simp: nat_less_iff)
  qed
qed

lemma utf8_read_2:
  assumes "194 \<le> a" "a < 224" "b < 64"
  shows "utf8_read (as_u8 a # as_u8 (128 + b) # r) = Inr ((a - 192) * 64 + b, r)"
proof -
  have "utf8_valid [as_u8 a, as_u8 (128 + b)]"
    using assms by (simp add: Let_def utf8_cont_def)
  moreover have "read_exact 1 (as_u8 (128 + b) # r) = Inr ([as_u8 (128 + b)], r)"
    by (simp add: read_exact_def)
  ultimately show ?thesis
    using assms by (simp add: utf8_read_def Let_def del: utf8_valid.simps)
qed

lemma utf8_read_3:
  assumes "224 \<le> a" "a < 240" "b < 64" "c < 64"
    and "a = 224 \<Longrightarrow> 32 \<le> b" and "a = 237 \<Longrightarrow> b < 32"
  shows "utf8_read (as_u8 a # as_u8 (128 + b) # as_u8 (128 + c) # r) =
    Inr (((a - 224) * 64 + b) * 64 + c, r)"
proof -
  have "utf8_valid [as_u8 a, as_u8 (128 + b), as_u8 (128 + c)]"
    using assms by (simp add: Let_def utf8_cont_def)
  moreover have "read_exact 2 (as_u8 (128 + b) # as_u8 (128 + c) # r) =
      Inr ([as_u8 (128 + b), as_u8 (128 + c)], r)"
    by (simp add: read_exact_def)
  ultimately show ?thesis
    using assms by (simp add: utf8_read_def Let_def del: utf8_valid.simps)
qed

lemma utf8_read_4:
  assumes "240 \<le> a" "a < 245" "b < 64" "c < 64" "d < 64"
    and "a = 240 \<Longrightarrow> 16 \<le> b" and "a = 244 \<Longrightarrow> b < 16"
  shows "utf8_read (as_u8 a # as_u8 (128 + b) # as_u8 (128 + c) # as_u8 (128 + d) # r) =
    Inr ((((a - 240) * 64 + b) * 64 + c) * 64 + d, r)"
proof -
  have "utf8_valid [as_u8 a, as_u8 (128 + b), as_u8 (128 + c), as_u8 (128 + d)]"
    using assms by (simp add: Let_def utf8_cont_def)
  moreover have "read_exact 3 (as_u8 (128 + b) # as_u8 (128 + c) # as_u8 (128 + d) # r) =
      Inr ([as_u8 (128 + b), as_u8 (128 + c), as_u8 (128 + d)], r)"
    by (simp add: read_exact_def)
  ultimately show ?thesis
    using assms by (simp add: utf8_read_def Let_def del: utf8_valid.simps)
qed

lemma utf8_read_enc:
  assumes "c < 55296 \<or> 57344 \<le> c \<and> c < 1114112"
  shows "utf8_read (utf8_enc c @ r) = Inr (c, r)"
proof -
  have d: "c div 4096 = c div 64 div 64" "c div 262144 = c div 64 div 64 div 64"
    by (simp_all add: div_mult2_eq [symmetric])
  consider "c < 128" | "128 \<le> c \<and> c < 2048" | "2048 \<le> c \<and> c < 65536" | "65536 \<le> c"
    by linarith
  then show ?thesis
  proof cases
    case 1
    then show ?thesis by (simp add: utf8_read_def utf8_enc_def)
  next
    case 2
    then have "194 \<le> 192 + c div 64" "192 + c div 64 < 224" by linarith+
    from utf8_read_2 [OF this, of "c mod 64" r] 2 show ?thesis
      by (simp add: utf8_enc_def)
  next
    case 3
    have a: "224 + c div 4096 < 240" using 3 by linarith
    have b: "224 + c div 4096 = 224 \<Longrightarrow> 32 \<le> c div 64 mod 64" 
      using 3 div_mult_mod_eq [of "c div 64" 64] unfolding d by linarith
    have e: "224 + c div 4096 = 237 \<Longrightarrow> c div 64 mod 64 < 32" 
      using 3 assms div_mult_mod_eq [of "c div 64" 64] unfolding d by linarith
    have "(c div 4096 * 64 + c div 64 mod 64) * 64 + c mod 64 = c" unfolding d by simp
    with utf8_read_3 [OF _ a _ _ b e, of "c mod 64" r] 3 show ?thesis
      by (simp add: utf8_enc_def)
  next
    case 4
    have a: "240 + c div 262144 < 245" using assms 4 by linarith
    have b: "240 + c div 262144 = 240 \<Longrightarrow> 16 \<le> c div 4096 mod 64" 
      using 4 div_mult_mod_eq [of "c div 64 div 64" 64] unfolding d by linarith
    have e: "240 + c div 262144 = 244 \<Longrightarrow> c div 4096 mod 64 < 16" 
      using 4 assms div_mult_mod_eq [of "c div 64 div 64" 64] unfolding d by linarith
    have "((c div 262144 * 64 + c div 4096 mod 64) * 64 + c div 64 mod 64) * 64 + c mod 64 = c"
      unfolding d by simp
    with utf8_read_4 [OF _ a _ _ _ b e, of "c div 64 mod 64" "c mod 64" r] 4 show ?thesis
      by (simp add: utf8_enc_def)
  qed
qed

lemma sleb_dec_bound:
  "0 < w \<Longrightarrow> sleb_dec w b = Done i r \<Longrightarrow> - (2 ^ (w - 1)) \<le> i \<and> i < 2 ^ (w - 1)"
proof (induction w b arbitrary: i r rule: sleb_dec.induct)
  case (2 w b bs)
  show ?case
  proof (cases "uint b < 128 \<or> w \<le> 7")
    case True
    with 2 show ?thesis by (auto simp: Let_def split: if_splits)
  next
    case False
    with 2 obtain m where m: "sleb_dec (w - 7) bs = Done m r" and i: "i = uint b - 128 + 128 * m"
      by (auto simp: Let_def split: decoded.splits)
    from 2(1) [OF refl _ _ _ m] False have "- (2 ^ (w - 7 - 1)) \<le> m \<and> m < 2 ^ (w - 7 - 1)" by auto
    moreover have "uint b < 2 ^ LENGTH(8)" by (rule unsigned_less)
    then have "uint b < 256" by simp
    moreover have "(2::int) ^ (w - 1) = 128 * 2 ^ (w - 7 - 1)"
      using False power_add [of "2::int" 7 "w - 7 - 1"] by simp
    ultimately show ?thesis using i False by linarith
  qed
qed simp

lemma utf8_read_bound:
  assumes "utf8_read b = Inr (c, r)"
  shows "c < 55296 \<or> 57344 \<le> c \<and> c < 1114112"
proof -
  obtain x b' where b: "b = x # b'" using assms by (cases b) (auto simp: utf8_read_def)
  show ?thesis
  proof (cases "unat x < 128")
    case True
    with assms b show ?thesis by (simp add: utf8_read_def)
  next
    case False
    define k where "k = (if unat x < 224 then 1 else if unat x < 240 then 2 else 3 :: nat)"
    define m where "m = (if unat x < 224 then unat x - 192 else if unat x < 240 then unat x - 224 else unat x - 240)"
    obtain cs where cs: "length cs = k" "utf8_valid (x # cs)" "c = fold (\<lambda>c a. a * 64 + (unat c - 128)) cs m"
      using assms b False
      by (auto simp: utf8_read_def Let_def k_def [symmetric] m_def [symmetric] and_then_eq_Inr read_exact_eq_Inr
          split: if_splits)
    consider "unat x < 224" | "224 \<le> unat x" "unat x < 240" | "240 \<le> unat x" by linarith
    then show ?thesis
    proof cases
      case 1
      then obtain y where "cs = [y]" using cs(1) by (auto simp: k_def length_Suc_conv)
      with cs 1 False show ?thesis by (auto simp: m_def Let_def utf8_cont_def split: if_splits)
    next
      case 2
      then obtain y z where "cs = [y, z]" using cs(1) by (auto simp: k_def length_Suc_conv numeral_2_eq_2)
      with cs 2 have v: "128 \<le> unat y" "unat y < 192" "unat z < 192" "unat x = 237 \<longrightarrow> unat y < 160"
        and c: "c = ((unat x - 224) * 64 + (unat y - 128)) * 64 + (unat z - 128)"
        by (auto simp: m_def Let_def utf8_cont_def split: if_splits)
      define A B C where "A = unat x - 224" and "B = unat y - 128" and "C = unat z - 128"
      have "A < 16" "B < 64" "C < 64" "A = 13 \<Longrightarrow> B < 32" "c = (A * 64 + B) * 64 + C"
        using v c 2 by (auto simp: A_def B_def C_def)
      moreover have "A \<le> 12 \<or> A = 13 \<or> 14 \<le> A" by linarith
      ultimately show ?thesis by auto
    next
      case 3
      then obtain y z v where "cs = [y, z, v]" using cs(1) by (auto simp: k_def length_Suc_conv numeral_3_eq_3)
      with cs 3 have v: "unat x < 245" "128 \<le> unat y" "unat y < 192" "unat z < 192" "unat v < 192"
          "unat x = 240 \<longrightarrow> 144 \<le> unat y" "unat x = 244 \<longrightarrow> unat y < 144"
        and c: "c = (((unat x - 240) * 64 + (unat y - 128)) * 64 + (unat z - 128)) * 64 + (unat v - 128)"
        by (auto simp: m_def Let_def utf8_cont_def split: if_splits)
      define A B C D where "A = unat x - 240" and "B = unat y - 128" and "C = unat z - 128" and "D = unat v - 128"
      have "A < 5" "B < 64" "C < 64" "D < 64" "A = 0 \<Longrightarrow> 16 \<le> B" "A = 4 \<Longrightarrow> B < 16"
          "c = ((A * 64 + B) * 64 + C) * 64 + D"
        using v c 3 by (auto simp: A_def B_def C_def D_def)
      moreover have "A = 0 \<or> A = 4 \<or> 1 \<le> A \<and> A \<le> 3" using \<open>A < 5\<close> by linarith
      ultimately show ?thesis by auto
    qed
  qed
qed

interpretation ref: wasm_tokio_values wasm_ref
proof
  fix w n :: nat and r :: bytes
  show "n < 2 ^ 32 \<Longrightarrow> leb_dec32 wasm_ref (leb_enc wasm_ref 32 n @ r) = Done n r"
    by (simp add: uleb_dec_uleb)
  show "leb_dec32 wasm_ref [] = More" by simp
  show "n < 128 \<Longrightarrow> leb_enc wasm_ref 32 n = [as_u8 n]" by (simp add: uleb.simps)
  show "n < 2 ^ 32 \<Longrightarrow> leb_read wasm_ref 32 (leb_enc wasm_ref 32 n @ r) = Inr (n, r)"
    by (simp add: uleb_dec_uleb read_of_def)
  show "n < 2 ^ w \<Longrightarrow> leb_read wasm_ref w (leb_enc wasm_ref w n @ r) = Inr (n, r)"
    by (simp add: uleb_dec_uleb read_of_def)
next
  fix b x r :: bytes and n e
  show "leb_dec32 wasm_ref b = Done n r \<Longrightarrow> leb_dec32 wasm_ref (b @ x) = Done n (r @ x)"
    by (simp add: uleb_dec_done)
  show "leb_dec32 wasm_ref b = Fail e \<Longrightarrow> leb_dec32 wasm_ref (b @ x) = Fail e"
    by (simp add: uleb_dec_fail)
  show "leb_dec32 wasm_ref b = Done n r \<Longrightarrow> \<exists>p. p \<noteq> [] \<and> b = p @ r"
    by (simp add: uleb_dec_consumes)
  show "leb_dec32 wasm_ref b = Done n r \<Longrightarrow> n < 2 ^ 32"
    using uleb_dec_bound [of 32 b n r] by simp
  show "leb_read wasm_ref 32 b = Inr (n, r) \<Longrightarrow> n < 2 ^ 32 \<and> (\<exists>p. p \<noteq> [] \<and> b = p @ r)"
    using uleb_dec_bound [of 32 b n r] uleb_dec_consumes [of 32 b n r]
    by (auto simp: read_of_def split: decoded.splits)
  show "leb_read wasm_ref w b = Inr (n, r) \<Longrightarrow> n < 2 ^ w" for w
    using uleb_dec_bound [of w b n r] by (auto simp: read_of_def split: decoded.splits)
next
  fix w i and b r :: bytes
  assume "w \<in> {16, 32, 64 :: nat}" and "sleb_read wasm_ref w b = Inr (i, r)"
  then show "- (2 ^ (w - 1)) \<le> i \<and> i < 2 ^ (w - 1)"
    using sleb_dec_bound [of w b i r] by (auto simp: read_of_def split: decoded.splits)
next
  fix b s r :: bytes
  assume "name_read wasm_ref b = Inr (s, r)"
  then show "utf8_valid s \<and> length s < 2 ^ 32"
    by (auto simp: name_read_ref_def and_then_eq_Inr read_exact_eq_Inr read_of_def
        split: decoded.splits dest!: uleb_dec_bound)
next
  fix b r :: bytes and c
  assume "char_read wasm_ref b = Inr (c, r)"
  then show "c < 55296 \<or> 57344 \<le> c \<and> c < 1114112" using utf8_read_bound by simp
qed (auto simp: uleb_dec_short read_of_def vec_enc_ref_def sleb_dec_sleb name_read_ref_def
    uleb_dec_uleb from_utf8_def utf8_read_enc status_read_def)

end
