(* ===== verification/Frame_Codec.thy ===== *)
theory Frame_Codec
  imports Wasm_Tokio
begin

text \<open>
  The wire format of the framing protocol, \<open>crates/transport/src/frame/codec.rs\<close> and
  \<open>encode_invocation\<close> of \<open>frame/conn/client.rs\<close>.

  \<^item> \<open>frame_encode\<close> is \<open>Encoder::encode\<close>; \<open>frame_decode\<close> is one call of \<open>Decoder::decode\<close>, a state machine
    over the record \<open>decoder\<close> whose fields are those of the Rust struct. A call that fails leaves the
    source buffer at the integer it could not read or reject; on success and on "more bytes needed"
    the buffer is what the Rust code leaves in \<open>src\<close>.
  \<^item> \<open>header_read\<close> is \<open>HeaderDecoder::read\<close> on the bytes of a stream up to its end.
  \<^item> An encoder returns the whole output buffer; when it fails the buffer is not returned, since every
    caller drops it then.

  Theorems: the decoder is a \<open>stream_decoder\<close>, so a frame is decoded alike however the transport cuts
  it; frames and headers round trip; every limit is enforced with the documented error.
\<close>

section \<open>Frames\<close>

definition PROTOCOL :: byte where
  "PROTOCOL = 1"

record frame =
  f_path :: path
  f_data :: bytes

definition DEFAULT_MAX_DEPTH :: nat where
  "DEFAULT_MAX_DEPTH = 64"

definition DEFAULT_MAX_SIZE :: nat where
  "DEFAULT_MAX_SIZE = 16 * 2 ^ 20"

definition DEFAULT_MAX_NAME_LEN :: nat where
  "DEFAULT_MAX_NAME_LEN = 2 ^ 10"

subsection \<open>The encoder\<close>

fun encode_path :: "wasm_tokio \<Rightarrow> path \<Rightarrow> bytes \<Rightarrow> io_error + bytes" where
  "encode_path W [] dst = Inr dst"
| "encode_path W (p # ps) dst =
    and_then (u32_try_from p) (\<lambda>p. encode_path W ps (dst @ leb_enc W 32 p))"

definition frame_encode :: "wasm_tokio \<Rightarrow> frame \<Rightarrow> bytes \<Rightarrow> io_error + bytes" where
  "frame_encode W f dst =
    (let sz = length (f_data f); depth = length (f_path f) in
     and_then (u32_try_from depth) (\<lambda>n.
     and_then (encode_path W (f_path f) (dst @ leb_enc W 32 n)) (\<lambda>dst.
     and_then (u32_try_from sz) (\<lambda>n.
     Inr (dst @ leb_enc W 32 n @ f_data f)))))"

subsection \<open>The decoder\<close>

record decoder =
  d_path :: "path option"
  path_cap :: nat
  data_len :: nat
  max_depth :: nat
  max_size :: nat

definition decoder_new :: "nat \<Rightarrow> nat \<Rightarrow> decoder" where
  "decoder_new depth sz =
    \<lparr>d_path = None, path_cap = 0, data_len = 0, max_depth = depth, max_size = sz\<rparr>"

definition decoder_default :: decoder where
  "decoder_default = decoder_new DEFAULT_MAX_DEPTH DEFAULT_MAX_SIZE"

text \<open>
  The body of \<open>Decoder::decode\<close> after the path has been read: the data length, unless it is known from
  an earlier call, then the data.
\<close>

definition decode_data ::
  "wasm_tokio \<Rightarrow> decoder \<Rightarrow> path \<Rightarrow> bytes \<Rightarrow> decoder \<times> bytes \<times> (io_error + frame option)" where
  "decode_data W s p src =
    (let take_data = (\<lambda>s src.
       if length src < data_len s then (s\<lparr>d_path := Some p\<rparr>, src, Inr None)
       else (s\<lparr>data_len := 0\<rparr>, drop (data_len s) src,
             Inr (Some \<lparr>f_path = p, f_data = take (data_len s) src\<rparr>)))
     in
     if data_len s = 0 then
       (case leb_dec32 W src of
          Fail e \<Rightarrow> (s, src, Inl e)
        | More \<Rightarrow> (s\<lparr>d_path := Some p\<rparr>, src, Inr None)
        | Done n src \<Rightarrow>
            if n > max_size s then (s, src, Inl InvalidInput)
            else if n = 0 then
              (s\<lparr>data_len := 0\<rparr>, src, Inr (Some \<lparr>f_path = p, f_data = []\<rparr>))
            else take_data (s\<lparr>data_len := n\<rparr>) src)
     else take_data s src)"

text \<open>The \<open>while\<close> loop over the path elements that are still missing, then the data.\<close>

function decode_path ::
  "wasm_tokio \<Rightarrow> decoder \<Rightarrow> path \<Rightarrow> bytes \<Rightarrow> decoder \<times> bytes \<times> (io_error + frame option)" where
  "decode_path W s p src =
    (if path_cap s > 0 then
       (case leb_dec32 W src of
          Fail e \<Rightarrow> (s, src, Inl e)
        | More \<Rightarrow> (s\<lparr>d_path := Some p\<rparr>, src, Inr None)
        | Done i src \<Rightarrow> decode_path W (s\<lparr>path_cap := path_cap s - 1\<rparr>) (p @ [i]) src)
     else decode_data W s p src)"
  by pat_completeness auto
termination
  by (relation "measure (\<lambda>(_, s, _, _). path_cap s)") auto

declare decode_path.simps [simp del]

definition frame_decode ::
  "wasm_tokio \<Rightarrow> decoder \<Rightarrow> bytes \<Rightarrow> decoder \<times> bytes \<times> (io_error + frame option)" where
  "frame_decode W s src =
    (case d_path s of
       Some p \<Rightarrow> decode_path W (s\<lparr>d_path := None\<rparr>) p src
     | None \<Rightarrow>
         (case leb_dec32 W src of
            Fail e \<Rightarrow> (s, src, Inl e)
          | More \<Rightarrow> (s, src, Inr None)
          | Done n src \<Rightarrow>
              if n > max_depth s then (s, src, Inl InvalidInput)
              else decode_path W (s\<lparr>path_cap := n\<rparr>) [] src))"

text \<open>The state between two calls that did not fail.\<close>

definition decoder_ok :: "decoder \<Rightarrow> bool" where
  "decoder_ok s \<longleftrightarrow>
    data_len s \<le> max_size s \<and>
    (case d_path s of
       None \<Rightarrow> path_cap s = 0 \<and> data_len s = 0
     | Some p \<Rightarrow> length p + path_cap s \<le> max_depth s \<and> (\<forall>i \<in> set p. i < 2 ^ 32) \<and>
         (data_len s > 0 \<longrightarrow> path_cap s = 0))"

definition frame_ok :: "nat \<Rightarrow> nat \<Rightarrow> frame \<Rightarrow> bool" where
  "frame_ok depth sz f \<longleftrightarrow>
    length (f_path f) \<le> depth \<and> length (f_data f) \<le> sz \<and> (\<forall>i \<in> set (f_path f). i < 2 ^ 32)"

section \<open>Invocation headers\<close>

record header =
  h_instance :: bytes
  h_name :: bytes

datatype header_read_error = HeaderIO io_error | UnsupportedVersion byte

record header_decoder =
  max_instance_len :: nat
  max_name_len :: nat

definition header_decoder_default :: header_decoder where
  "header_decoder_default =
    \<lparr>max_instance_len = DEFAULT_MAX_NAME_LEN, max_name_len = DEFAULT_MAX_NAME_LEN\<rparr>"

definition read_name :: "wasm_tokio \<Rightarrow> nat \<Rightarrow> bytes \<Rightarrow> io_error + bytes \<times> bytes" where
  "read_name W max_len rx =
    and_then (leb_read W 32 rx) (\<lambda>(n, rx).
      if n > max_len then Inl InvalidData
      else and_then (read_exact n rx) (\<lambda>(buf, rx).
           and_then (from_utf8 buf) (\<lambda>s. Inr (s, rx))))"

definition map_err :: "('e \<Rightarrow> 'f) \<Rightarrow> 'e + 'a \<Rightarrow> 'f + 'a" where
  "map_err f r = (case r of Inl e \<Rightarrow> Inl (f e) | Inr a \<Rightarrow> Inr a)"

definition header_read ::
  "wasm_tokio \<Rightarrow> header_decoder \<Rightarrow> bytes \<Rightarrow> header_read_error + header \<times> bytes" where
  "header_read W d rx =
    and_then (map_err HeaderIO (read_u8 rx)) (\<lambda>(v, rx).
      if v = PROTOCOL then
        and_then (map_err HeaderIO (read_name W (max_instance_len d) rx)) (\<lambda>(inst, rx).
        and_then (map_err HeaderIO (read_name W (max_name_len d) rx)) (\<lambda>(nm, rx).
        Inr (\<lparr>h_instance = inst, h_name = nm\<rparr>, rx)))
      else Inl (UnsupportedVersion v))"

definition encode_invocation ::
  "wasm_tokio \<Rightarrow> bytes \<Rightarrow> bytes \<Rightarrow> bytes \<Rightarrow> nat \<Rightarrow> io_error + bytes" where
  "encode_invocation W buf inst func params_len =
    and_then (u32_try_from params_len) (\<lambda>params_len.
    and_then (name_enc W inst) (\<lambda>i.
    and_then (name_enc W func) (\<lambda>f.
      let buf = buf @ [PROTOCOL] @ i @ f in
      if params_len > 0 then Inr (buf @ [0] @ leb_enc W 32 params_len) else Inr buf)))"

text \<open>What \<open>invoke\<close> writes: the header, then the parameters.\<close>

definition invoke_bytes :: "wasm_tokio \<Rightarrow> bytes \<Rightarrow> bytes \<Rightarrow> bytes \<Rightarrow> io_error + bytes" where
  "invoke_bytes W inst func params =
    and_then (encode_invocation W [] inst func (length params)) (\<lambda>buf. Inr (buf @ params))"

section \<open>The frame decoder is a stream decoder\<close>

lemma decoder_eqI:
  "d_path s = None \<Longrightarrow> s\<lparr>d_path := Some p\<rparr>\<lparr>d_path := None\<rparr> = s"
  by (cases s) simp

context leb128
begin

lemma decode_data_item:
  "decode_data W s p b = (s', b', Inr (Some f)) \<Longrightarrow>
    decode_data W s p (b @ x) = (s', b' @ x, Inr (Some f))"
  by (auto simp: decode_data_def Let_def dec_done_ext split: decoded.splits if_splits)

lemma decode_data_fail:
  "decode_data W s p b = (s', b', Inl e) \<Longrightarrow> snd (snd (decode_data W s p (b @ x))) = Inl e"
  by (auto simp: decode_data_def Let_def dec_done_ext dec_fail_ext split: decoded.splits if_splits)

lemma decode_data_more:
  assumes "d_path s = None" and "decode_data W s p b = (s', b', Inr None)"
  shows "d_path s' = Some p \<and> path_cap s' = path_cap s \<and>
    decode_data W s p (b @ x) = decode_data W (s'\<lparr>d_path := None\<rparr>) p (b' @ x)"
proof (cases "data_len s = 0")
  case False
  with assms have "s' = s\<lparr>d_path := Some p\<rparr>" "b' = b"
    by (simp_all add: decode_data_def Let_def split: if_splits)
  with assms(1) show ?thesis by (cases s) simp
next
  case True
  show ?thesis
  proof (cases "leb_dec32 W b")
    case (Done n r)
    with assms True have "s' = s\<lparr>data_len := n, d_path := Some p\<rparr>" "b' = r" "n \<le> max_size s" "n \<noteq> 0"
      by (simp_all add: decode_data_def Let_def split: if_splits)
    with Done True assms(1) show ?thesis
      by (cases s) (simp add: decode_data_def dec_done_ext)
  next
    case More
    with assms True have "s' = s\<lparr>d_path := Some p\<rparr>" "b' = b"
      by (simp_all add: decode_data_def Let_def)
    with assms(1) show ?thesis by (cases s) simp
  next
    case (Fail e)
    with assms True show ?thesis by (simp add: decode_data_def Let_def)
  qed
qed

lemma decode_path_item:
  "decode_path W s p b = (s', b', Inr (Some f)) \<Longrightarrow>
    decode_path W s p (b @ x) = (s', b' @ x, Inr (Some f))"
proof (induction "path_cap s" arbitrary: s p b)
  case 0
  then show ?case by (simp add: decode_path.simps [of W s] decode_data_item)
next
  case (Suc n)
  then show ?case
    by (auto simp: decode_path.simps [of W s] dec_done_ext split: decoded.splits)
qed

lemma decode_path_fail:
  "decode_path W s p b = (s', b', Inl e) \<Longrightarrow> snd (snd (decode_path W s p (b @ x))) = Inl e"
proof (induction "path_cap s" arbitrary: s p b)
  case 0
  then show ?case by (simp add: decode_path.simps [of W s] decode_data_fail)
next
  case (Suc n)
  then show ?case
    by (auto simp: decode_path.simps [of W s] dec_done_ext dec_fail_ext split: decoded.splits)
qed

lemma decode_path_more:
  "d_path s = None \<Longrightarrow> decode_path W s p b = (s', b', Inr None) \<Longrightarrow>
    \<exists>q. d_path s' = Some q \<and>
      decode_path W s p (b @ x) = decode_path W (s'\<lparr>d_path := None\<rparr>) q (b' @ x)"
proof (induction "path_cap s" arbitrary: s p b)
  case 0
  then have "decode_data W s p b = (s', b', Inr None)"
    by (simp add: decode_path.simps [of W s])
  from decode_data_more [OF 0(2) this, of x] 0(1) show ?case
    by (simp add: decode_path.simps [of W])
next
  case (Suc n)
  show ?case
  proof (cases "leb_dec32 W b")
    case (Done i r)
    have "decode_path W (s\<lparr>path_cap := n\<rparr>) (p @ [i]) r = (s', b', Inr None)"
      using Suc.prems(2) Done by (simp add: decode_path.simps [of W s] flip: Suc.hyps(2))
    from Suc.hyps(1) [OF _ _ this] Suc.prems(1)
    show ?thesis
      by (simp add: decode_path.simps [of W s] dec_done_ext [OF Done] flip: Suc.hyps(2))
  qed (use Suc in \<open>auto simp: decode_path.simps [of W s] decoder_eqI split: if_splits\<close>)
qed

lemma frame_decode_item:
  "frame_decode W s b = (s', b', Inr (Some f)) \<Longrightarrow>
    frame_decode W s (b @ x) = (s', b' @ x, Inr (Some f))"
  by (auto simp: frame_decode_def decode_path_item dec_done_ext
      split: option.splits decoded.splits if_splits)

lemma frame_decode_fail:
  "frame_decode W s b = (s', b', Inl e) \<Longrightarrow> snd (snd (frame_decode W s (b @ x))) = Inl e"
  by (auto simp: frame_decode_def decode_path_fail dec_done_ext dec_fail_ext
      split: option.splits decoded.splits if_splits)

lemma frame_decode_more:
  assumes "frame_decode W s b = (s', b', Inr None)"
  shows "frame_decode W s (b @ x) = frame_decode W s' (b' @ x)"
proof (cases "d_path s")
  case (Some p)
  with assms decode_path_more [of "s\<lparr>d_path := None\<rparr>" p b s' b' x] show ?thesis
    by (auto simp: frame_decode_def)
next
  case None
  show ?thesis
  proof (cases "leb_dec32 W b")
    case (Done n r)
    with assms None decode_path_more [of "s\<lparr>path_cap := n\<rparr>" "[]" r s' b' x] show ?thesis
      by (auto simp: frame_decode_def dec_done_ext split: if_splits)
  qed (use assms None in \<open>auto simp: frame_decode_def\<close>)
qed

text \<open>The invariant of the decoder state, and the limits every decoded frame is within.\<close>

lemma decode_data_ok:
  assumes "length p \<le> max_depth s" and "\<forall>i \<in> set p. i < 2 ^ 32" and "path_cap s = 0"
    and "data_len s \<le> max_size s" and "d_path s = None"
    and "decode_data W s p b = (s', b', Inr r)"
  shows "decoder_ok s' \<and> max_depth s' = max_depth s \<and> max_size s' = max_size s \<and>
    (\<forall>f. r = Some f \<longrightarrow> frame_ok (max_depth s) (max_size s) f \<and> d_path s' = None)"
  using assms
  by (auto simp: decode_data_def Let_def decoder_ok_def frame_ok_def split: decoded.splits if_splits)

lemma decode_path_ok:
  "length p + path_cap s \<le> max_depth s \<Longrightarrow> \<forall>i \<in> set p. i < 2 ^ 32 \<Longrightarrow>
    data_len s \<le> max_size s \<Longrightarrow> (data_len s > 0 \<longrightarrow> path_cap s = 0) \<Longrightarrow> d_path s = None \<Longrightarrow>
    decode_path W s p b = (s', b', Inr r) \<Longrightarrow>
    decoder_ok s' \<and> max_depth s' = max_depth s \<and> max_size s' = max_size s \<and>
    (\<forall>f. r = Some f \<longrightarrow> frame_ok (max_depth s) (max_size s) f \<and> d_path s' = None)"
proof (induction "path_cap s" arbitrary: s p b)
  case 0
  then have "decode_data W s p b = (s', b', Inr r)"
    by (simp add: decode_path.simps [of W s])
  with 0 show ?case by (intro decode_data_ok [of p s b s' b' r]) auto
next
  case (Suc n)
  show ?case
  proof (cases "leb_dec32 W b")
    case (Done i q)
    have "decode_path W (s\<lparr>path_cap := n\<rparr>) (p @ [i]) q = (s', b', Inr r)"
      using Suc.prems(6) Done by (simp add: decode_path.simps [of W s] flip: Suc.hyps(2))
    from Suc.hyps(1) [OF _ _ _ _ _ _ this] Suc.prems Suc.hyps(2) dec_bound [OF Done]
    show ?thesis by simp
  qed (use Suc in \<open>auto simp: decode_path.simps [of W s] decoder_ok_def\<close>)
qed

lemma frame_decode_ok:
  assumes "decoder_ok s" and "frame_decode W s b = (s', b', Inr r)"
  shows "decoder_ok s' \<and> max_depth s' = max_depth s \<and> max_size s' = max_size s \<and>
    (\<forall>f. r = Some f \<longrightarrow> frame_ok (max_depth s) (max_size s) f \<and> d_path s' = None)"
proof (cases "d_path s")
  case (Some p)
  with assms decode_path_ok [of p "s\<lparr>d_path := None\<rparr>" b s' b' r] show ?thesis
    by (simp add: frame_decode_def decoder_ok_def)
next
  case None
  show ?thesis
  proof (cases "leb_dec32 W b")
    case (Done n q)
    with assms None decode_path_ok [of "[]" "s\<lparr>path_cap := n\<rparr>" q s' b' r] show ?thesis
      by (auto simp: frame_decode_def decoder_ok_def split: if_splits)
  qed (use assms None in \<open>auto simp: frame_decode_def\<close>)
qed

end

sublocale leb128 \<subseteq> frames: stream_decoder "frame_decode W" decoder_ok
proof
  fix s b s' b' f x e
  show "frame_decode W s b = (s', b', Inr (Some f)) \<Longrightarrow>
      frame_decode W s (b @ x) = (s', b' @ x, Inr (Some f))"
    by (rule frame_decode_item)
  show "frame_decode W s b = (s', b', Inr None) \<Longrightarrow>
      frame_decode W s (b @ x) = frame_decode W s' (b' @ x)"
    by (rule frame_decode_more)
  show "frame_decode W s b = (s', b', Inl e) \<Longrightarrow> snd (snd (frame_decode W s (b @ x))) = Inl e"
    by (rule frame_decode_fail)
  show "decoder_ok s \<Longrightarrow> frame_decode W s b = (s', b', Inr (Some f)) \<Longrightarrow> decoder_ok s'"
    and "decoder_ok s \<Longrightarrow> frame_decode W s b = (s', b', Inr None) \<Longrightarrow> decoder_ok s'"
    using frame_decode_ok by blast+
qed

section \<open>Round trips\<close>

text \<open>The bytes of a frame as \<open>SPEC.md\<close> defines them.\<close>

definition frame_bytes :: "wasm_tokio \<Rightarrow> frame \<Rightarrow> bytes" where
  "frame_bytes W f =
    leb_enc W 32 (length (f_path f)) @ concat (map (leb_enc W 32) (f_path f)) @
    leb_enc W 32 (length (f_data f)) @ f_data f"

lemma encode_path_eq:
  "encode_path W p dst =
    (if \<forall>i \<in> set p. i < 2 ^ 32 then Inr (dst @ concat (map (leb_enc W 32) p)) else Inl InvalidInput)"
  by (induction W p dst rule: encode_path.induct) (simp_all add: u32_try_from_def)

lemma frame_encode_eq:
  "frame_encode W f dst =
    (if frame_ok (2 ^ 32 - 1) (2 ^ 32 - 1) f then Inr (dst @ frame_bytes W f) else Inl InvalidInput)"
  by (auto simp: frame_encode_def frame_ok_def frame_bytes_def encode_path_eq u32_try_from_def Let_def)

lemma frame_ok_mono: "frame_ok d n f \<Longrightarrow> d \<le> d' \<Longrightarrow> n \<le> n' \<Longrightarrow> frame_ok d' n' f"
  by (auto simp: frame_ok_def)

lemma decoder_new_simps [simp]:
  "d_path (decoder_new d n) = None" "path_cap (decoder_new d n) = 0"
  "data_len (decoder_new d n) = 0" "max_depth (decoder_new d n) = d"
  "max_size (decoder_new d n) = n" "decoder_ok (decoder_new d n)"
  by (simp_all add: decoder_new_def decoder_ok_def)

text \<open>Repeated calls of \<open>decode\<close>, at most \<open>n\<close> of them, until more bytes are needed.\<close>

fun decode_n ::
  "wasm_tokio \<Rightarrow> nat \<Rightarrow> decoder \<Rightarrow> bytes \<Rightarrow> decoder \<times> bytes \<times> (io_error + frame list)" where
  "decode_n W 0 s b = (s, b, Inr [])"
| "decode_n W (Suc n) s b =
    (case frame_decode W s b of
       (s, b, Inl e) \<Rightarrow> (s, b, Inl e)
     | (s, b, Inr None) \<Rightarrow> (s, b, Inr [])
     | (s, b, Inr (Some f)) \<Rightarrow>
         (case decode_n W n s b of
            (s, b, Inl e) \<Rightarrow> (s, b, Inl e)
          | (s, b, Inr fs) \<Rightarrow> (s, b, Inr (f # fs))))"

context leb128
begin

lemma decode_path_bytes:
  "path_cap s = length q \<Longrightarrow> \<forall>i \<in> set q. i < 2 ^ 32 \<Longrightarrow>
    decode_path W s p (concat (map (leb_enc W 32) q) @ r) = decode_data W (s\<lparr>path_cap := 0\<rparr>) (p @ q) r"
proof (induction q arbitrary: s p)
  case Nil
  then show ?case by (cases s) (simp add: decode_path.simps)
next
  case (Cons i q)
  then show ?case by (simp add: decode_path.simps [of W s] dec_enc)
qed

lemma frame_decode_bytes:
  assumes "frame_ok d n f" and "d < 2 ^ 32" and "n < 2 ^ 32"
  shows "frame_decode W (decoder_new d n) (frame_bytes W f @ r) = (decoder_new d n, r, Inr (Some f))"
proof -
  let ?s = "decoder_new d n"
  have "frame_decode W ?s (frame_bytes W f @ r) =
      decode_data W (?s\<lparr>path_cap := 0\<rparr>) (f_path f) (leb_enc W 32 (length (f_data f)) @ f_data f @ r)"
    using assms decode_path_bytes [of "?s\<lparr>path_cap := length (f_path f)\<rparr>" "f_path f" "[]"]
    by (simp add: frame_decode_def frame_bytes_def frame_ok_def dec_enc)
  also have "\<dots> = (?s, r, Inr (Some f))"
    using assms by (simp add: decode_data_def Let_def frame_ok_def dec_enc decoder_new_def)
  finally show ?thesis .
qed

lemma frame_decode_short:
  assumes "frame_ok d n f" and "d < 2 ^ 32" and "n < 2 ^ 32"
    and "frame_bytes W f = p @ q" and "q \<noteq> []"
  shows "\<exists>s b. frame_decode W (decoder_new d n) p = (s, b, Inr None)"
proof (cases rule: decode_cases [of "frame_decode W" "decoder_new d n" p])
  case (fail t d' e)
  with frame_decode_fail [OF fail, of q] frame_decode_bytes [OF assms(1-3), of "[]"] assms(4)
  show ?thesis by simp
next
  case (item t d' g)
  with frame_decode_item [OF item, of q] frame_decode_bytes [OF assms(1-3), of "[]"] assms(4,5)
  show ?thesis by simp
qed blast

lemma feed_frame_bytes:
  assumes "frame_ok d n f" and "d < 2 ^ 32" and "n < 2 ^ 32" and "concat cs = frame_bytes W f @ r"
  shows "feed (frame_decode W) (decoder_new d n) [] cs = (decoder_new d n, r, Inr (Some f))"
proof -
  have "cs \<noteq> []" using assms(1,2,4) by (auto simp: frame_bytes_def frame_ok_def)
  with frame_decode_bytes [OF assms(1-3), of r] assms(4) show ?thesis
    by (intro frames.feed_item) simp_all
qed

lemma feed_frame_ok:
  "decoder_ok s \<Longrightarrow> feed (frame_decode W) s b cs = (s', b', Inr r) \<Longrightarrow>
    decoder_ok s' \<and> max_depth s' = max_depth s \<and> max_size s' = max_size s \<and>
    (\<forall>f. r = Some f \<longrightarrow> frame_ok (max_depth s) (max_size s) f \<and> d_path s' = None)"
proof (induction cs arbitrary: s b)
  case Nil
  then show ?case by auto
next
  case (Cons c cs)
  show ?case
  proof (cases rule: decode_cases [of "frame_decode W" s "b @ c"])
    case (more t d)
    with frame_decode_ok [OF Cons.prems(1) more] Cons.IH [of t d] Cons.prems show ?thesis by simp
  next
    case (item t d f)
    with frame_decode_ok [OF Cons.prems(1) item] Cons.prems show ?thesis by auto
  qed (use Cons.prems in simp)
qed

lemma decode_path_limit:
  assumes "max_depth s < n" and "n < 2 ^ 32" and "d_path s = None"
  shows "snd (snd (frame_decode W s (leb_enc W 32 n @ r))) = Inl InvalidInput"
  using assms by (simp add: frame_decode_def dec_enc)

lemma decode_size_limit:
  assumes "list_all (\<lambda>i. i < 2 ^ 32) p" and "length p \<le> d" and "d < 2 ^ 32"
    and "m < n" and "n < 2 ^ 32"
  shows "snd (snd (frame_decode W (decoder_new d m)
    (leb_enc W 32 (length p) @ concat (map (leb_enc W 32) p) @ leb_enc W 32 n @ r))) = Inl InvalidInput"
proof -
  have "frame_decode W (decoder_new d m)
      (leb_enc W 32 (length p) @ concat (map (leb_enc W 32) p) @ leb_enc W 32 n @ r) =
    decode_data W (decoder_new d m\<lparr>path_cap := 0\<rparr>) p (leb_enc W 32 n @ r)"
    using assms decode_path_bytes [of "decoder_new d m\<lparr>path_cap := length p\<rparr>" p "[]"]
    by (simp add: frame_decode_def dec_enc list_all_iff)
  with assms show ?thesis by (simp add: decode_data_def dec_enc)
qed

lemma read_name_enc:
  "length s \<le> m \<Longrightarrow> m < 2 ^ 32 \<Longrightarrow> utf8_valid s \<Longrightarrow>
    read_name W m (leb_enc W 32 (length s) @ s @ r) = Inr (s, r)"
  by (simp add: read_name_def read32_enc from_utf8_def)

text \<open>A name that is cut off is an unexpected end of the stream.\<close>

lemma read_name_short:
  assumes "length s \<le> m" and "m < 2 ^ 32" and "leb_enc W 32 (length s) @ s = p @ q" and "q \<noteq> []"
  shows "read_name W m p = Inl UnexpectedEof"
  using assms(3)
proof (cases rule: append_prefix_cases)
  case (first u)
  with read32_short [of "length s" p u] assms show ?thesis by (simp add: read_name_def)
next
  case (second u)
  with assms show ?thesis by (simp add: read_name_def read32_enc read_exact_def)
qed

lemma name_enc_eq:
  "length s \<le> m \<Longrightarrow> m < 2 ^ 32 \<Longrightarrow> name_enc W s = Inr (leb_enc W 32 (length s) @ s)"
  by (rule name_enc_small) simp

lemma frame_bytes_root: "frame_bytes W \<lparr>f_path = [], f_data = x\<rparr> = 0 # leb_enc W 32 (length x) @ x"
  by (simp add: frame_bytes_def enc_byte as_u8_def)

lemma invoke_bytes_eq:
  assumes "length i \<le> m" and "m < 2 ^ 32" and "length f \<le> k" and "k < 2 ^ 32" and "length x < 2 ^ 32"
  shows "invoke_bytes W i f x =
    Inr (PROTOCOL # leb_enc W 32 (length i) @ i @ leb_enc W 32 (length f) @ f @
         (if x = [] then [] else frame_bytes W \<lparr>f_path = [], f_data = x\<rparr>))"
  using assms name_enc_eq [OF assms(1,2)] name_enc_eq [OF assms(3,4)]
  by (simp add: invoke_bytes_def encode_invocation_def frame_bytes_root)

lemma header_read_enc:
  assumes "length i \<le> max_instance_len d" and "max_instance_len d < 2 ^ 32" and "utf8_valid i"
    and "length f \<le> max_name_len d" and "max_name_len d < 2 ^ 32" and "utf8_valid f"
  shows "header_read W d (PROTOCOL # leb_enc W 32 (length i) @ i @ leb_enc W 32 (length f) @ f @ r) =
    Inr (\<lparr>h_instance = i, h_name = f\<rparr>, r)"
  using assms by (simp add: header_read_def map_err_def read_name_enc)

lemma header_read_short:
  assumes "length i \<le> max_instance_len d" and "max_instance_len d < 2 ^ 32" and "utf8_valid i"
    and "length f \<le> max_name_len d" and "max_name_len d < 2 ^ 32"
    and "PROTOCOL # leb_enc W 32 (length i) @ i @ leb_enc W 32 (length f) @ f = p @ q" and "q \<noteq> []"
  shows "header_read W d p = Inl (HeaderIO UnexpectedEof)"
proof (cases p)
  case Nil
  then show ?thesis by (simp add: header_read_def map_err_def)
next
  case (Cons v p')
  with assms(6) have v: "v = PROTOCOL"
    and eq: "(leb_enc W 32 (length i) @ i) @ (leb_enc W 32 (length f) @ f) = p' @ q" by simp_all
  from eq show ?thesis
  proof (cases rule: append_prefix_cases)
    case (first u)
    with read_name_short [OF assms(1,2) first(1,3)] v Cons show ?thesis
      by (simp add: header_read_def map_err_def)
  next
    case (second u)
    with read_name_enc [OF assms(1-3), of u] read_name_short [OF assms(4,5) second(2) assms(7)] v Cons
    show ?thesis by (simp add: header_read_def map_err_def)
  qed
qed

lemma decode_n_frames:
  assumes "\<forall>f \<in> set fs. frame_ok d n f" and "d < 2 ^ 32" and "n < 2 ^ 32"
  shows "decode_n W (length fs) (decoder_new d n) (concat (map (frame_bytes W) fs) @ r) =
    (decoder_new d n, r, Inr fs)"
  using assms by (induction fs) (simp_all add: frame_decode_bytes)

end

text \<open>
  The encoder writes the bytes of the frame format after what the buffer holds, unless the path, one of
  its elements or the data has a length that does not fit a \<open>u32\<close>; then it fails with
  \<open>InvalidInput\<close> (claim C35).
\<close>

theorem frame_encode_spec:
  "frame_encode W f dst =
    (if length (f_path f) < 2 ^ 32 \<and> length (f_data f) < 2 ^ 32 \<and> list_all (\<lambda>i. i < 2 ^ 32) (f_path f)
     then Inr (dst @ leb_enc W 32 (length (f_path f)) @ concat (map (leb_enc W 32) (f_path f)) @
               leb_enc W 32 (length (f_data f)) @ f_data f)
     else Inl InvalidInput)"
  by (auto simp: frame_encode_eq frame_ok_def frame_bytes_def list_all_iff)

text \<open>
  A frame within the limits of the decoder round trips, however the transport cuts the bytes into
  pieces: the decoder, fed piece by piece, gives the frame, leaves exactly the bytes after it and is
  back in its initial state (claim C2).
\<close>

theorem frame_roundtrip_chunks:
  assumes "leb128 W" and "depth < 2 ^ 32" and "sz < 2 ^ 32"
    and "length (f_path f) \<le> depth" and "length (f_data f) \<le> sz" and "\<forall>i \<in> set (f_path f). i < 2 ^ 32"
  shows "\<exists>b. frame_encode W f [] = Inr b \<and>
    (\<forall>cs rest. concat cs = b @ rest \<longrightarrow>
      feed (frame_decode W) (decoder_new depth sz) [] cs = (decoder_new depth sz, rest, Inr (Some f)))"
proof -
  have ok: "frame_ok depth sz f" using assms by (simp add: frame_ok_def)
  then have "frame_encode W f [] = Inr (frame_bytes W f)"
    using frame_ok_mono [OF ok, of "2 ^ 32 - 1" "2 ^ 32 - 1"] assms(2,3) by (simp add: frame_encode_eq)
  with leb128.feed_frame_bytes [OF assms(1) ok assms(2,3)] show ?thesis by blast
qed

lemma example_frame_bytes:
  "frame_encode wasm_ref \<lparr>f_path = [1, 300], f_data = [7, 8]\<rparr> [] = Inr [2, 1, 172, 2, 2, 7, 8]"
  by (simp add: frame_encode_eq frame_ok_def frame_bytes_def uleb.simps as_u8_def)

theorem frame_roundtrip_chunks_witness:
  "feed (frame_decode wasm_ref) (decoder_new 64 1024) [] [[2, 1], [172], [2, 2, 7], [8, 0, 0]] =
    (decoder_new 64 1024, [0, 0], Inr (Some \<lparr>f_path = [1, 300], f_data = [7, 8]\<rparr>))"
proof -
  have "\<forall>cs rest. concat cs = [2, 1, 172, 2, 2, 7, 8] @ rest \<longrightarrow>
      feed (frame_decode wasm_ref) (decoder_new 64 1024) [] cs =
        (decoder_new 64 1024, rest, Inr (Some \<lparr>f_path = [1, 300], f_data = [7, 8]\<rparr>))"
    using frame_roundtrip_chunks [of wasm_ref 64 1024 "\<lparr>f_path = [1, 300], f_data = [7, 8]\<rparr>"]
      ref.leb128_axioms example_frame_bytes by simp
  from this [rule_format, of "[[2, 1], [172], [2, 2, 7], [8, 0, 0]]" "[0, 0]"] show ?thesis by simp
qed

text \<open>
  Frames written back to back are decoded one by one, in order, and nothing else is consumed (claim C28).
\<close>

theorem frame_sequence_roundtrip:
  assumes "leb128 W" and "depth < 2 ^ 32" and "sz < 2 ^ 32"
    and "list_all (\<lambda>f. length (f_path f) \<le> depth \<and> length (f_data f) \<le> sz \<and>
           list_all (\<lambda>i. i < 2 ^ 32) (f_path f)) fs"
    and "list_all2 (\<lambda>f b. frame_encode W f [] = Inr b) fs bs"
  shows "decode_n W (length fs) (decoder_new depth sz) (concat bs @ rest) =
    (decoder_new depth sz, rest, Inr fs)"
proof -
  have ok: "\<forall>f \<in> set fs. frame_ok depth sz f"
    using assms(4) by (simp add: list_all_iff frame_ok_def)
  have "bs = map (frame_bytes W) fs"
    using assms(5) unfolding list_all2_conv_all_nth
    by (intro nth_equalityI) (auto simp: frame_encode_eq split: if_splits)
  with leb128.decode_n_frames [OF assms(1) ok assms(2,3), of rest] show ?thesis by simp
qed

theorem frame_sequence_roundtrip_witness:
  "decode_n wasm_ref (Suc (Suc 0)) (decoder_new 64 1024) ([2, 1, 172, 2, 2, 7, 8] @ [2, 1, 172, 2, 2, 7, 8] @ [9]) =
    (decoder_new 64 1024, [9],
     Inr [\<lparr>f_path = [1, 300], f_data = [7, 8]\<rparr>, \<lparr>f_path = [1, 300], f_data = [7, 8]\<rparr>])"
  using frame_sequence_roundtrip [of wasm_ref 64 1024
      "[\<lparr>f_path = [1, 300], f_data = [7, 8]\<rparr>, \<lparr>f_path = [1, 300], f_data = [7, 8]\<rparr>]"
      "[[2, 1, 172, 2, 2, 7, 8], [2, 1, 172, 2, 2, 7, 8]]" "[9]"]
    ref.leb128_axioms example_frame_bytes
  by (simp del: decode_n.simps)

text \<open>
  Whatever bytes arrive and however they are cut, the state the decoder keeps between calls is within its
  invariant, and a frame it gives has a path of at most \<open>max_depth\<close> elements and at most \<open>max_size\<close>
  bytes of data (claim C22).
\<close>

theorem decoder_invariant:
  assumes "leb128 W" and "decoder_ok s" and "feed (frame_decode W) s b cs = (s', b', Inr r)"
  shows "decoder_ok s' \<and> max_depth s' = max_depth s \<and> max_size s' = max_size s \<and>
    (\<forall>f. r = Some f \<longrightarrow>
      length (f_path f) \<le> max_depth s \<and> length (f_data f) \<le> max_size s \<and> d_path s' = None)"
  using leb128.feed_frame_ok [OF assms] by (auto simp: frame_ok_def)

theorem decoder_invariant_witness:
  "\<exists>s' b'. feed (frame_decode wasm_ref) (decoder_new 2 8) [] [[2], [1, 172]] = (s', b', Inr None) \<and>
    decoder_ok s' \<and> d_path s' = Some [1] \<and> path_cap s' = 1"
proof -
  have run: "feed (frame_decode wasm_ref) (decoder_new 2 8) [] [[2], [1, 172]] =
      (\<lparr>d_path = Some [1], path_cap = 1, data_len = 0, max_depth = 2, max_size = 8\<rparr>, [172], Inr None)"
    by (simp add: frame_decode_def decode_path.simps decoder_new_def)
  from decoder_invariant [OF ref.leb128_axioms _ run] run show ?thesis by simp
qed

text \<open>
  A path longer than \<open>max_depth\<close> is refused as soon as its length is known, and data longer than
  \<open>max_size\<close> as soon as the path and the data length are, both with \<open>InvalidInput\<close> (claim C33).
\<close>

theorem decoder_limits:
  assumes "leb128 W" and "depth < 2 ^ 32" and "n < 2 ^ 32"
  shows "(depth < n \<longrightarrow>
      snd (snd (frame_decode W (decoder_new depth sz) (leb_enc W 32 n @ r))) = Inl InvalidInput) \<and>
    (sz < n \<and> length p \<le> depth \<and> list_all (\<lambda>i. i < 2 ^ 32) p \<longrightarrow>
      snd (snd (frame_decode W (decoder_new depth sz)
        (leb_enc W 32 (length p) @ concat (map (leb_enc W 32) p) @ leb_enc W 32 n @ r))) = Inl InvalidInput)"
  using leb128.decode_path_limit [OF assms(1), of "decoder_new depth sz" n r]
    leb128.decode_size_limit [OF assms(1), of p depth sz n r] assms(2,3)
  by simp

theorem decoder_limits_witness:
  "snd (snd (frame_decode wasm_ref (decoder_new 64 16) [65])) = Inl InvalidInput \<and>
   snd (snd (frame_decode wasm_ref (decoder_new 64 16) [1, 5, 17])) = Inl InvalidInput"
  using decoder_limits [OF ref.leb128_axioms, of 64 65 16 "[]" "[]"]
    decoder_limits [OF ref.leb128_axioms, of 64 17 16 "[]" "[5]"]
  by (simp add: uleb.simps as_u8_def)

text \<open>
  A frame that has not arrived completely is never taken for a frame or for an error: on every proper
  prefix of its bytes the decoder asks for more (claim C30).
\<close>

theorem frame_prefix_incomplete:
  assumes "leb128 W" and "depth < 2 ^ 32" and "sz < 2 ^ 32"
    and "length (f_path f) \<le> depth" and "length (f_data f) \<le> sz"
    and "frame_encode W f [] = Inr (p @ q)" and "q \<noteq> []"
  shows "\<exists>s b. frame_decode W (decoder_new depth sz) p = (s, b, Inr None)"
proof -
  have "frame_ok depth sz f" and "frame_bytes W f = p @ q"
    using assms(4-6) by (auto simp: frame_encode_eq frame_ok_def split: if_splits)
  with leb128.frame_decode_short [OF assms(1)] assms(2,3,7) show ?thesis by blast
qed

theorem frame_prefix_incomplete_witness:
  "\<exists>s b. frame_decode wasm_ref (decoder_new 64 1024) [2, 1, 172] = (s, b, Inr None)"
  using frame_prefix_incomplete [OF ref.leb128_axioms, of 64 1024
      "\<lparr>f_path = [1, 300], f_data = [7, 8]\<rparr>" "[2, 1, 172]" "[2, 2, 7, 8]"] example_frame_bytes
  by simp

text \<open>
  The server reads back what the client writes for an invocation: \<open>HeaderDecoder::read\<close> gives the
  instance and function names and leaves the stream at the frame of the root path that holds the
  parameters, or at what follows if there are no parameter bytes (claim C6).
\<close>

theorem invocation_roundtrip:
  assumes "leb128 W" and "max_instance_len d < 2 ^ 32" and "max_name_len d < 2 ^ 32"
    and "length inst \<le> max_instance_len d" and "utf8_valid inst"
    and "length func \<le> max_name_len d" and "utf8_valid func" and "length params < 2 ^ 32"
  shows "\<exists>b fb. invoke_bytes W inst func params = Inr b \<and>
    frame_encode W \<lparr>f_path = [], f_data = params\<rparr> [] = Inr fb \<and>
    (\<forall>rest. header_read W d (b @ rest) =
      Inr (\<lparr>h_instance = inst, h_name = func\<rparr>, (if params = [] then [] else fb) @ rest))"
proof -
  have "frame_encode W \<lparr>f_path = [], f_data = params\<rparr> [] =
      Inr (frame_bytes W \<lparr>f_path = [], f_data = params\<rparr>)"
    using assms(8) by (simp add: frame_encode_eq frame_ok_def)
  with leb128.invoke_bytes_eq [OF assms(1,4,2,6,3,8)]
    leb128.header_read_enc [OF assms(1,4,2,5,6,3,7)]
  show ?thesis by simp
qed

theorem invocation_roundtrip_witness:
  "header_read wasm_ref header_decoder_default ([1, 1, 97, 2, 98, 99] @ [0, 1, 7]) =
    Inr (\<lparr>h_instance = [97], h_name = [98, 99]\<rparr>, [0, 1, 7])"
proof -
  have "invoke_bytes wasm_ref [97] [98, 99] [7] = Inr [1, 1, 97, 2, 98, 99, 0, 1, 7]"
    by (simp add: invoke_bytes_def encode_invocation_def PROTOCOL_def vec_enc_ref_def uleb.simps as_u8_def)
  moreover have "frame_encode wasm_ref \<lparr>f_path = [], f_data = [7]\<rparr> [] = Inr [0, 1, 7]"
    by (simp add: frame_encode_eq frame_ok_def frame_bytes_def uleb.simps as_u8_def)
  ultimately have "\<forall>rest. header_read wasm_ref header_decoder_default ([1, 1, 97, 2, 98, 99, 0, 1, 7] @ rest) =
      Inr (\<lparr>h_instance = [97], h_name = [98, 99]\<rparr>, [0, 1, 7] @ rest)"
    using invocation_roundtrip [OF ref.leb128_axioms, of header_decoder_default "[97]" "[98, 99]" "[7]"]
    by (simp add: header_decoder_default_def DEFAULT_MAX_NAME_LEN_def)
  from this [rule_format, of "[]"] show ?thesis by simp
qed

text \<open>
  A connection that ends inside the header, at any byte, is reported as \<open>UnexpectedEof\<close>: no proper
  prefix of a header is taken for an invocation (claim C37).
\<close>

theorem header_truncated:
  assumes "leb128 W" and "max_instance_len d < 2 ^ 32" and "max_name_len d < 2 ^ 32"
    and "length inst \<le> max_instance_len d" and "utf8_valid inst" and "length func \<le> max_name_len d"
    and "encode_invocation W [] inst func 0 = Inr (p @ q)" and "q \<noteq> []"
  shows "header_read W d p = Inl (HeaderIO UnexpectedEof)"
proof -
  have "PROTOCOL # leb_enc W 32 (length inst) @ inst @ leb_enc W 32 (length func) @ func = p @ q"
    using assms(7) leb128.name_enc_eq [OF assms(1,4,2)] leb128.name_enc_eq [OF assms(1,6,3)]
    by (simp add: encode_invocation_def)
  with leb128.header_read_short [OF assms(1,4,2,5,6,3) _ assms(8)] show ?thesis by blast
qed

theorem header_truncated_witness:
  "header_read wasm_ref header_decoder_default [1, 1, 97, 2, 98] = Inl (HeaderIO UnexpectedEof)"
  using header_truncated [OF ref.leb128_axioms, of header_decoder_default "[97]" "[98, 99]"
      "[1, 1, 97, 2, 98]" "[99]"]
  by (simp add: header_decoder_default_def DEFAULT_MAX_NAME_LEN_def encode_invocation_def PROTOCOL_def
      vec_enc_ref_def uleb.simps as_u8_def)



end
