(* ===== verification/Paths.thy ===== *)
theory Paths
  imports Prelude "HOL-Library.List_Lexorder" "HOL-Library.Option_ord"
begin

text \<open>
  The asynchronous paths of a type: which positions of a value carry a stream or a future, so that the
  receiver of the value can subscribe to them before the first frame arrives.

  \<^item> \<open>merge_wildcards\<close>, \<open>async_paths_ty\<close>: \<open>crates/introspect/src/lib.rs\<close>, over WIT types;
  \<^item> \<open>async_paths\<close>, \<open>params_async_paths\<close>: \<open>crates/wasmtime/src/paths.rs\<close>, over the types of a component.

  The types themselves belong to the crates \<open>wit-parser\<close> and \<open>wasmtime\<close>. A WIT type is an arena
  there, whose entries refer to each other without cycles; the datatype \<open>wit_ty\<close> is the tree such a
  reference unfolds to, with the aliases (\<open>TypeDefKind::Type\<close>) kept as nodes. A \<open>BTreeSet\<close> of
  patterns is a set, and turned into a list where the code turns it into a slice. The placeholder
  \<open>TypeDefKind::Unknown\<close>, on which the code panics, is not a type. An index into a tuple is a \<open>nat\<close>;
  the conversion of the index to \<open>u32\<close> cannot fail on a type that fits in memory.

  Theorems: the patterns of every type are consistent, which \<open>Incoming::new\<close> requires of its
  arguments; merging only replaces indices by wildcards; the two computations agree.
\<close>

section \<open>Types\<close>

datatype wit_ty =
    WPrim
  | WRecord "(string \<times> wit_ty) list"
  | WResource
  | WHandle
  | WFlags "string list"
  | WTuple "wit_ty list"
  | WVariant "(string \<times> wit_ty option) list"
  | WEnum "string list"
  | WOption wit_ty
  | WResult "wit_ty option" "wit_ty option"
  | WList wit_ty
  | WMap wit_ty wit_ty
  | WFixedLengthList wit_ty nat
  | WFuture "wit_ty option"
  | WStream "wit_ty option"
  | WType wit_ty

type_synonym resource_type = nat

datatype ty =
    TBool | TS8 | TU8 | TS16 | TU16 | TS32 | TU32 | TS64 | TU64 | TFloat32 | TFloat64 | TChar | TString
  | TList ty
  | TRecord "(string \<times> ty) list"
  | TTuple "ty list"
  | TVariant "(string \<times> ty option) list"
  | TEnum "string list"
  | TOption ty
  | TResult "ty option" "ty option"
  | TFlags "string list"
  | TOwn resource_type
  | TBorrow resource_type
  | TFuture "ty option"
  | TStream "ty option"
  | TErrorContext
  | TMap ty ty
  | TFixedLengthList ty nat

section \<open>Patterns\<close>

text \<open>
  One iteration of the loop of \<open>merge_wildcards\<close>: the paths that share the first \<open>k\<close> positions with a
  path that has a wildcard at \<open>k\<close> get one too.
\<close>

definition merge_step :: "nat \<Rightarrow> pattern set \<Rightarrow> pattern set" where
  "merge_step k paths =
    (let wildcards = take k ` Set.filter (\<lambda>p. k < length p \<and> p ! k = None) paths
     in (\<lambda>p. if k < length p \<and> take k p \<in> wildcards then p[k := None] else p) ` paths)"

definition merge_wildcards :: "pattern set \<Rightarrow> pattern set" where
  "merge_wildcards paths =
    (let depth = Max (insert 0 (length ` paths)) in fold merge_step [0..<depth] paths)"

definition push_front :: "nat option \<Rightarrow> pattern set \<times> bool \<Rightarrow> pattern set" where
  "push_front i r = (#) i ` fst r \<union> (if snd r then {[i]} else {})"

fun async_paths_ty :: "wit_ty \<Rightarrow> pattern set \<times> bool"
  and async_paths_opt :: "wit_ty option \<Rightarrow> pattern set \<times> bool"
  and async_paths_cases :: "(string \<times> wit_ty option) list \<Rightarrow> pattern set \<times> bool"
  and async_paths_types :: "nat \<Rightarrow> wit_ty list \<Rightarrow> pattern set"
  and async_paths_fields :: "nat \<Rightarrow> (string \<times> wit_ty) list \<Rightarrow> pattern set" where
  "async_paths_ty WPrim = ({}, False)"
| "async_paths_ty (WList t) = (push_front None (async_paths_ty t), False)"
| "async_paths_ty (WFixedLengthList t n) = (push_front None (async_paths_ty t), False)"
| "async_paths_ty (WOption t) = async_paths_ty t"
| "async_paths_ty (WResult ok err) =
    (let (p, f) = async_paths_opt ok; (q, g) = async_paths_opt err
     in (merge_wildcards (p \<union> q), f \<or> g))"
| "async_paths_ty (WVariant cs) =
    (let (p, f) = async_paths_cases cs in (merge_wildcards p, f))"
| "async_paths_ty (WTuple ts) = (async_paths_types 0 ts, False)"
| "async_paths_ty (WRecord fs) = (async_paths_fields 0 fs, False)"
| "async_paths_ty (WFuture t) = (fst (async_paths_opt t), True)"
| "async_paths_ty (WStream t) = (push_front None (async_paths_opt t), True)"
| "async_paths_ty (WType t) = async_paths_ty t"
| "async_paths_ty WResource = ({}, False)"
| "async_paths_ty (WFlags ns) = ({}, False)"
| "async_paths_ty (WEnum ns) = ({}, False)"
| "async_paths_ty (WMap k v) = ({}, False)"
| "async_paths_ty WHandle = ({}, False)"
| "async_paths_opt None = ({}, False)"
| "async_paths_opt (Some t) = async_paths_ty t"
| "async_paths_cases [] = ({}, False)"
| "async_paths_cases ((n, t) # cs) =
    (let (p, f) = async_paths_opt t; (q, g) = async_paths_cases cs in (p \<union> q, f \<or> g))"
| "async_paths_types i [] = {}"
| "async_paths_types i (t # ts) = push_front (Some i) (async_paths_ty t) \<union> async_paths_types (i + 1) ts"
| "async_paths_fields i [] = {}"
| "async_paths_fields i ((n, t) # fs) =
    push_front (Some i) (async_paths_ty t) \<union> async_paths_fields (i + 1) fs"

text \<open>
  The same over component types. \<open>io\<close> are the resource types of \<open>wasi:io\<close> input streams
  (\<open>ResourceTypes::io_streams\<close>), which are sent as streams of bytes.
\<close>

fun async_paths :: "resource_type list \<Rightarrow> ty \<Rightarrow> pattern set \<times> bool"
  and ty_paths_opt :: "resource_type list \<Rightarrow> ty option \<Rightarrow> pattern set \<times> bool"
  and ty_paths_cases :: "resource_type list \<Rightarrow> (string \<times> ty option) list \<Rightarrow> pattern set \<times> bool"
  and ty_paths_types :: "resource_type list \<Rightarrow> nat \<Rightarrow> ty list \<Rightarrow> pattern set"
  and ty_paths_fields :: "resource_type list \<Rightarrow> nat \<Rightarrow> (string \<times> ty) list \<Rightarrow> pattern set" where
  "async_paths io (TList t) = (push_front None (async_paths io t), False)"
| "async_paths io (TOption t) = async_paths io t"
| "async_paths io (TResult ok err) =
    (let (p, f) = ty_paths_opt io ok; (q, g) = ty_paths_opt io err
     in (merge_wildcards (p \<union> q), f \<or> g))"
| "async_paths io (TVariant cs) =
    (let (p, f) = ty_paths_cases io cs in (merge_wildcards p, f))"
| "async_paths io (TTuple ts) = (ty_paths_types io 0 ts, False)"
| "async_paths io (TRecord fs) = (ty_paths_fields io 0 fs, False)"
| "async_paths io (TFuture t) = (fst (ty_paths_opt io t), True)"
| "async_paths io (TStream t) = (push_front None (ty_paths_opt io t), True)"
| "async_paths io (TOwn r) = ({}, r \<in> set io)"
| "async_paths io (TBorrow r) = ({}, r \<in> set io)"
| "async_paths io TBool = ({}, False)"
| "async_paths io TS8 = ({}, False)"
| "async_paths io TU8 = ({}, False)"
| "async_paths io TS16 = ({}, False)"
| "async_paths io TU16 = ({}, False)"
| "async_paths io TS32 = ({}, False)"
| "async_paths io TU32 = ({}, False)"
| "async_paths io TS64 = ({}, False)"
| "async_paths io TU64 = ({}, False)"
| "async_paths io TFloat32 = ({}, False)"
| "async_paths io TFloat64 = ({}, False)"
| "async_paths io TChar = ({}, False)"
| "async_paths io TString = ({}, False)"
| "async_paths io (TEnum ns) = ({}, False)"
| "async_paths io (TFlags ns) = ({}, False)"
| "async_paths io TErrorContext = ({}, False)"
| "async_paths io (TMap k v) = ({}, False)"
| "async_paths io (TFixedLengthList t n) = ({}, False)"
| "ty_paths_opt io None = ({}, False)"
| "ty_paths_opt io (Some t) = async_paths io t"
| "ty_paths_cases io [] = ({}, False)"
| "ty_paths_cases io ((n, t) # cs) =
    (let (p, f) = ty_paths_opt io t; (q, g) = ty_paths_cases io cs in (p \<union> q, f \<or> g))"
| "ty_paths_types io i [] = {}"
| "ty_paths_types io i (t # ts) =
    push_front (Some i) (async_paths io t) \<union> ty_paths_types io (i + 1) ts"
| "ty_paths_fields io i [] = {}"
| "ty_paths_fields io i ((n, t) # fs) =
    push_front (Some i) (async_paths io t) \<union> ty_paths_fields io (i + 1) fs"

text \<open>The subscription paths of a parameter list, in the order of the \<open>BTreeSet\<close>.\<close>

definition params_async_paths :: "resource_type list \<Rightarrow> ty list \<Rightarrow> pattern list" where
  "params_async_paths io params = sorted_list_of_set (ty_paths_types io 0 params)"

section \<open>Consistency\<close>

text \<open>
  The requirement of \<open>Incoming::new\<close>: no position has both a wildcard and an index. \<open>consistent_upto k\<close>
  is the invariant of the loop of \<open>merge_wildcards\<close>.
\<close>

definition consistent_upto :: "nat \<Rightarrow> pattern set \<Rightarrow> bool" where
  "consistent_upto m P \<longleftrightarrow>
    (\<forall>p \<in> P. \<forall>q \<in> P. \<forall>k < m. k < length p \<and> k < length q \<and> take k p = take k q \<and> p ! k = None \<longrightarrow>
      q ! k = None)"

definition consistent :: "pattern set \<Rightarrow> bool" where
  "consistent P \<longleftrightarrow>
    (\<forall>p \<in> P. \<forall>q \<in> P. \<forall>k < length p. k < length q \<and> take k p = take k q \<and> p ! k = None \<longrightarrow>
      q ! k = None)"

text \<open>A pattern that matches at least the paths another one matches.\<close>

definition covers :: "pattern \<Rightarrow> pattern \<Rightarrow> bool" where
  "covers q p \<longleftrightarrow> list_all2 (\<lambda>a b. a = None \<or> a = b) q p"

definition matches :: "pattern \<Rightarrow> path \<Rightarrow> bool" where
  "matches p path \<longleftrightarrow> list_all2 (\<lambda>a i. a = None \<or> a = Some i) p path"

lemma covers_refl [simp]: "covers p p"
  by (simp add: covers_def list.rel_refl)

lemma covers_trans: "covers r q \<Longrightarrow> covers q p \<Longrightarrow> covers r p"
  unfolding covers_def by (rule list_all2_trans [of "\<lambda>a b. a = None \<or> a = b" "\<lambda>a b. a = None \<or> a = b"]) auto

lemma covers_matches: "covers q p \<Longrightarrow> matches p x \<Longrightarrow> matches q x"
  unfolding covers_def matches_def
  by (rule list_all2_trans [of "\<lambda>a b. a = None \<or> a = b" "\<lambda>a i. a = None \<or> a = Some i"]) auto

text \<open>What one iteration does to one path.\<close>

definition merge_at :: "pattern set \<Rightarrow> nat \<Rightarrow> pattern \<Rightarrow> pattern" where
  "merge_at P k p =
    (if k < length p \<and> (\<exists>q \<in> P. k < length q \<and> take k q = take k p \<and> q ! k = None)
     then p[k := None] else p)"

lemma merge_step_image: "merge_step k P = merge_at P k ` P"
  unfolding merge_step_def merge_at_def Let_def
  by (intro image_cong) (auto simp: Set.filter_eq image_iff)

lemma length_merge_at [simp]: "length (merge_at P k p) = length p"
  by (simp add: merge_at_def)

lemma take_merge_at: "j \<le> k \<Longrightarrow> take j (merge_at P k p) = take j p"
  by (simp add: merge_at_def)

lemma nth_merge_at: "j < k \<Longrightarrow> merge_at P k p ! j = p ! j"
  by (simp add: merge_at_def)

lemma covers_merge_at: "covers (merge_at P k p) p"
  by (auto simp: merge_at_def covers_def list_all2_conv_all_nth nth_list_update)

lemma merge_step_upto:
  assumes "consistent_upto k P"
  shows "consistent_upto (Suc k) (merge_step k P)"
proof -
  have "merge_at P k q ! j = None"
    if "p \<in> P" "q \<in> P" "j < Suc k" "j < length p" "j < length q"
      "take j (merge_at P k p) = take j (merge_at P k q)" "merge_at P k p ! j = None"
    for p q j
  proof (cases "j < k")
    case True
    with that have "take j p = take j q" "p ! j = None"
      by (simp_all add: take_merge_at nth_merge_at)
    with assms that True have "q ! j = None" unfolding consistent_upto_def by blast
    with True show ?thesis by (simp add: nth_merge_at)
  next
    case False
    with that have j: "j = k" by simp
    have pre: "take k p = take k q" using that(6) j by (simp add: take_merge_at)
    have "\<exists>r \<in> P. k < length r \<and> take k r = take k p \<and> r ! k = None"
      using that j by (auto simp: merge_at_def split: if_splits)
    with pre that j show ?thesis by (simp add: merge_at_def)
  qed
  then show ?thesis by (auto simp: consistent_upto_def merge_step_image)
qed

lemma merge_steps:
  "consistent_upto m P \<Longrightarrow> consistent_upto (max m n) (fold merge_step [m..<n] P)"
proof (induction n)
  case (Suc n)
  then show ?case
  proof (cases "m \<le> n")
    case True
    with Suc merge_step_upto [of n "fold merge_step [m..<n] P"] show ?thesis
      by (simp add: max_def)
  next
    case False
    with Suc have "max m (Suc n) = m" by simp
    with False Suc.prems show ?thesis by simp
  qed
qed simp

lemma merge_step_length: "length ` merge_step k P = length ` P"
  by (simp add: image_image merge_step_image)

lemma merge_steps_length: "length ` fold merge_step ks P = length ` P"
  by (induction ks arbitrary: P) (simp_all add: merge_step_length)

lemma merge_step_covers: "p \<in> P \<Longrightarrow> \<exists>q \<in> merge_step k P. covers q p"
  by (auto simp: merge_step_image intro: covers_merge_at)

lemma merge_steps_covers: "p \<in> P \<Longrightarrow> \<exists>q \<in> fold merge_step ks P. covers q p"
proof (induction ks arbitrary: p P)
  case (Cons k ks)
  then show ?case by (metis covers_trans fold_simps(2) merge_step_covers)
qed (auto intro: covers_refl)

lemma merge_step_origin: "q \<in> merge_step k P \<Longrightarrow> \<exists>p \<in> P. covers q p"
  by (auto simp: merge_step_image intro: covers_merge_at)

lemma merge_steps_origin: "q \<in> fold merge_step ks P \<Longrightarrow> \<exists>p \<in> P. covers q p"
proof (induction ks arbitrary: q P)
  case (Cons k ks)
  then show ?case by (metis covers_trans fold_simps(2) merge_step_origin)
qed (auto intro: covers_refl)

lemma finite_merge [simp]: "finite P \<Longrightarrow> finite (merge_wildcards P)"
proof -
  have "finite P \<Longrightarrow> finite (fold merge_step ks P)" for ks
    by (induction ks arbitrary: P) (simp_all add: merge_step_def Let_def)
  then show "finite P \<Longrightarrow> finite (merge_wildcards P)" by (simp add: merge_wildcards_def Let_def)
qed

lemma consistent_merge:
  assumes "finite P"
  shows "consistent (merge_wildcards P)"
proof -
  let ?n = "Max (insert 0 (length ` P))"
  have "consistent_upto ?n (merge_wildcards P)"
    using merge_steps [of 0 P ?n] by (simp add: merge_wildcards_def consistent_upto_def [of 0] Let_def)
  moreover have "length p \<le> ?n" if "p \<in> merge_wildcards P" for p
  proof -
    have "length p \<in> length ` P"
      using that merge_steps_length unfolding merge_wildcards_def Let_def by blast
    with assms show ?thesis by simp
  qed
  ultimately show ?thesis
    unfolding consistent_def consistent_upto_def by (meson less_le_trans)
qed

lemma consistent_empty [simp]: "consistent {}"
  by (simp add: consistent_def)

lemma consistent_subset: "consistent Q \<Longrightarrow> P \<subseteq> Q \<Longrightarrow> consistent P"
  unfolding consistent_def by blast

lemma consistent_push_front:
  assumes "consistent (fst r)"
  shows "consistent (push_front i r)"
  unfolding consistent_def
proof (intro ballI allI impI)
  fix p q k
  assume p: "p \<in> push_front i r" and q: "q \<in> push_front i r"
    and k: "k < length p" "k < length q \<and> take k p = take k q \<and> p ! k = None"
  have head: "\<exists>x'. x = i # x' \<and> (x' = [] \<or> x' \<in> fst r)" if "x \<in> push_front i r" for x
    using that by (auto simp: push_front_def split: if_splits)
  from head [OF p] obtain p' where p': "p = i # p'" "p' = [] \<or> p' \<in> fst r" by blast
  from head [OF q] obtain q' where q': "q = i # q'" "q' = [] \<or> q' \<in> fst r" by blast
  show "q ! k = None"
  proof (cases k)
    case 0
    with k p' q' show ?thesis by simp
  next
    case (Suc j)
    with k p' q' have "p' \<in> fst r" "q' \<in> fst r" "j < length p'"
      "j < length q' \<and> take j p' = take j q' \<and> p' ! j = None" by auto
    with assms have "q' ! j = None" unfolding consistent_def by blast
    with Suc q' show ?thesis by simp
  qed
qed

lemma consistent_index_Un:
  assumes "consistent P" and "consistent Q"
    and "\<And>p. p \<in> P \<Longrightarrow> \<exists>p'. p = Some i # p'"
    and "\<And>q. q \<in> Q \<Longrightarrow> \<exists>j q'. q = Some j # q' \<and> j > i"
  shows "consistent (P \<union> Q)"
  unfolding consistent_def
proof (intro ballI allI impI)
  fix p q k
  assume p: "p \<in> P \<union> Q" and q: "q \<in> P \<union> Q"
    and k: "k < length p" "k < length q \<and> take k p = take k q \<and> p ! k = None"
  have some: "hd x \<noteq> None \<and> x \<noteq> []" if "x \<in> P \<union> Q" for x
    using that assms(3,4) by force
  from some [OF p] k have pos: "0 < k" by (cases k) (auto simp: hd_conv_nth)
  with k have "hd p = hd q" by (metis hd_take)
  then have "p \<in> P \<and> q \<in> P \<or> p \<in> Q \<and> q \<in> Q"
    using p q assms(3,4) by (metis UnE less_irrefl list.sel(1) option.inject)
  with assms(1,2) k show "q ! k = None" unfolding consistent_def by blast
qed

lemma push_front_index: "p \<in> push_front (Some i) r \<Longrightarrow> \<exists>p'. p = Some i # p'"
  by (auto simp: push_front_def split: if_splits)

lemma finite_push_front [simp]: "finite (fst r) \<Longrightarrow> finite (push_front i r)"
  by (simp add: push_front_def)

lemma async_paths_types_index: "q \<in> async_paths_types i ts \<Longrightarrow> \<exists>j q'. q = Some j # q' \<and> j \<ge> i"
proof (induction ts arbitrary: i)
  case (Cons t ts)
  from Cons.prems consider "q \<in> push_front (Some i) (async_paths_ty t)"
    | "q \<in> async_paths_types (i + 1) ts" by auto
  then show ?case
    by cases (use push_front_index in blast, use Cons.IH [of "i + 1"] in force)
qed simp

lemma async_paths_fields_index: "q \<in> async_paths_fields i fs \<Longrightarrow> \<exists>j q'. q = Some j # q' \<and> j \<ge> i"
proof (induction fs arbitrary: i)
  case (Cons f fs)
  from Cons.prems consider "q \<in> push_front (Some i) (async_paths_ty (snd f))"
    | "q \<in> async_paths_fields (i + 1) fs" by (cases f) auto
  then show ?case
    by cases (use push_front_index in blast, use Cons.IH [of "i + 1"] in force)
qed simp

lemma async_paths_ty_finite:
  "finite (fst (async_paths_ty t))" "finite (fst (async_paths_opt u))"
  "finite (fst (async_paths_cases cs))" "finite (async_paths_types i ts)"
  "finite (async_paths_fields i fs)"
  by (induction t and u and cs and i ts and i fs
      rule: async_paths_ty_async_paths_opt_async_paths_cases_async_paths_types_async_paths_fields.induct)
     (auto split: prod.splits)

lemma consistent_tuple_step:
  assumes "consistent (fst r)" and "consistent Q" and "\<And>q. q \<in> Q \<Longrightarrow> \<exists>j q'. q = Some j # q' \<and> j \<ge> i + 1"
  shows "consistent (push_front (Some i) r \<union> Q)"
  using assms by (intro consistent_index_Un [of _ _ i] consistent_push_front push_front_index) force+

lemma async_paths_ty_consistent:
  "consistent (fst (async_paths_ty t))" "consistent (fst (async_paths_opt u))"
  "finite (fst (async_paths_cases cs))" "consistent (async_paths_types i ts)"
  "consistent (async_paths_fields i fs)"
proof (induction t and u and cs and i ts and i fs
    rule: async_paths_ty_async_paths_opt_async_paths_cases_async_paths_types_async_paths_fields.induct)
  case (5 ok err)
  then show ?case
    using async_paths_ty_finite(2) [of ok] async_paths_ty_finite(2) [of err]
    by (auto intro!: consistent_merge split: prod.splits)
next
  case (6 cs)
  then show ?case
    using async_paths_ty_finite(3) [of cs] by (auto intro!: consistent_merge split: prod.splits)
next
  case (22 i t ts)
  then show ?case using async_paths_types_index [of _ "i + 1" ts] by (simp add: consistent_tuple_step)
next
  case (24 i n t fs)
  then show ?case using async_paths_fields_index [of _ "i + 1" fs] by (simp add: consistent_tuple_step)
qed (simp_all add: consistent_push_front async_paths_ty_finite del: async_paths_cases.simps)

section \<open>Component types and WIT types\<close>

text \<open>
  The WIT type that is on the wire for a component type: an input stream of \<open>wasi:io\<close> is a stream of
  bytes.
\<close>

fun wit_of :: "resource_type list \<Rightarrow> ty \<Rightarrow> wit_ty"
  and wit_of_opt :: "resource_type list \<Rightarrow> ty option \<Rightarrow> wit_ty option"
  and wit_of_cases :: "resource_type list \<Rightarrow> (string \<times> ty option) list \<Rightarrow> (string \<times> wit_ty option) list"
  and wit_of_types :: "resource_type list \<Rightarrow> ty list \<Rightarrow> wit_ty list"
  and wit_of_fields :: "resource_type list \<Rightarrow> (string \<times> ty) list \<Rightarrow> (string \<times> wit_ty) list" where
  "wit_of io (TList t) = WList (wit_of io t)"
| "wit_of io (TRecord fs) = WRecord (wit_of_fields io fs)"
| "wit_of io (TTuple ts) = WTuple (wit_of_types io ts)"
| "wit_of io (TVariant cs) = WVariant (wit_of_cases io cs)"
| "wit_of io (TEnum ns) = WEnum ns"
| "wit_of io (TOption t) = WOption (wit_of io t)"
| "wit_of io (TResult t u) = WResult (wit_of_opt io t) (wit_of_opt io u)"
| "wit_of io (TFlags ns) = WFlags ns"
| "wit_of io (TOwn r) = (if r \<in> set io then WStream (Some WPrim) else WHandle)"
| "wit_of io (TBorrow r) = (if r \<in> set io then WStream (Some WPrim) else WHandle)"
| "wit_of io (TFuture t) = WFuture (wit_of_opt io t)"
| "wit_of io (TStream t) = WStream (wit_of_opt io t)"
| "wit_of io (TMap k v) = WMap (wit_of io k) (wit_of io v)"
| "wit_of io (TFixedLengthList t n) = WFixedLengthList (wit_of io t) n"
| "wit_of io t = WPrim"
| "wit_of_opt io None = None"
| "wit_of_opt io (Some t) = Some (wit_of io t)"
| "wit_of_cases io [] = []"
| "wit_of_cases io ((n, t) # cs) = (n, wit_of_opt io t) # wit_of_cases io cs"
| "wit_of_types io [] = []"
| "wit_of_types io (t # ts) = wit_of io t # wit_of_types io ts"
| "wit_of_fields io [] = []"
| "wit_of_fields io ((n, t) # fs) = (n, wit_of io t) # wit_of_fields io fs"

text \<open>The types without a fixed-length list, which the value codec does not support.\<close>

fun no_fixed :: "ty \<Rightarrow> bool"
  and no_fixed_opt :: "ty option \<Rightarrow> bool"
  and no_fixed_cases :: "(string \<times> ty option) list \<Rightarrow> bool"
  and no_fixed_types :: "ty list \<Rightarrow> bool"
  and no_fixed_fields :: "(string \<times> ty) list \<Rightarrow> bool" where
  "no_fixed (TList t) = no_fixed t"
| "no_fixed (TRecord fs) = no_fixed_fields fs"
| "no_fixed (TTuple ts) = no_fixed_types ts"
| "no_fixed (TVariant cs) = no_fixed_cases cs"
| "no_fixed (TOption t) = no_fixed t"
| "no_fixed (TResult t u) = (no_fixed_opt t \<and> no_fixed_opt u)"
| "no_fixed (TFuture t) = no_fixed_opt t"
| "no_fixed (TStream t) = no_fixed_opt t"
| "no_fixed (TFixedLengthList t n) = False"
| "no_fixed t = True"
| "no_fixed_opt None = True"
| "no_fixed_opt (Some t) = no_fixed t"
| "no_fixed_cases [] = True"
| "no_fixed_cases ((n, t) # cs) = (no_fixed_opt t \<and> no_fixed_cases cs)"
| "no_fixed_types [] = True"
| "no_fixed_types (t # ts) = (no_fixed t \<and> no_fixed_types ts)"
| "no_fixed_fields [] = True"
| "no_fixed_fields ((n, t) # fs) = (no_fixed t \<and> no_fixed_fields fs)"

lemma push_front_leaf [simp]: "push_front i ({}, False) = {}"
  by (simp add: push_front_def)

lemma async_paths_wit_of:
  "no_fixed t \<Longrightarrow> async_paths io t = async_paths_ty (wit_of io t)"
  "no_fixed_opt u \<Longrightarrow> ty_paths_opt io u = async_paths_opt (wit_of_opt io u)"
  "no_fixed_cases cs \<Longrightarrow> ty_paths_cases io cs = async_paths_cases (wit_of_cases io cs)"
  "no_fixed_types ts \<Longrightarrow> ty_paths_types io i ts = async_paths_types i (wit_of_types io ts)"
  "no_fixed_fields fs \<Longrightarrow> ty_paths_fields io i fs = async_paths_fields i (wit_of_fields io fs)"
  by (induction io t and io u and io cs and io i ts and io i fs
      rule: async_paths_ty_paths_opt_ty_paths_cases_ty_paths_types_ty_paths_fields.induct)
     (simp_all split: prod.splits)

text \<open>The patterns over component types, fixed-length lists included.\<close>

lemma ty_paths_types_index: "q \<in> ty_paths_types io i ts \<Longrightarrow> \<exists>j q'. q = Some j # q' \<and> j \<ge> i"
proof (induction ts arbitrary: i)
  case (Cons t ts)
  from Cons.prems consider "q \<in> push_front (Some i) (async_paths io t)"
    | "q \<in> ty_paths_types io (i + 1) ts" by auto
  then show ?case
    by cases (use push_front_index in blast, use Cons.IH [of "i + 1"] in force)
qed simp

lemma ty_paths_fields_index: "q \<in> ty_paths_fields io i fs \<Longrightarrow> \<exists>j q'. q = Some j # q' \<and> j \<ge> i"
proof (induction fs arbitrary: i)
  case (Cons f fs)
  from Cons.prems consider "q \<in> push_front (Some i) (async_paths io (snd f))"
    | "q \<in> ty_paths_fields io (i + 1) fs" by (cases f) auto
  then show ?case
    by cases (use push_front_index in blast, use Cons.IH [of "i + 1"] in force)
qed simp

lemma async_paths_finite:
  "finite (fst (async_paths io t))" "finite (fst (ty_paths_opt io u))"
  "finite (fst (ty_paths_cases io cs))" "finite (ty_paths_types io i ts)"
  "finite (ty_paths_fields io i fs)"
  by (induction io t and io u and io cs and io i ts and io i fs
      rule: async_paths_ty_paths_opt_ty_paths_cases_ty_paths_types_ty_paths_fields.induct)
     (auto split: prod.splits)

lemma async_paths_consistent:
  "consistent (fst (async_paths io t))" "consistent (fst (ty_paths_opt io u))"
  "finite (fst (ty_paths_cases io cs))" "consistent (ty_paths_types io i ts)"
  "consistent (ty_paths_fields io i fs)"
proof (induction io t and io u and io cs and io i ts and io i fs
    rule: async_paths_ty_paths_opt_ty_paths_cases_ty_paths_types_ty_paths_fields.induct)
  case (3 io ok err)
  then show ?case
    using async_paths_finite(2) [of io ok] async_paths_finite(2) [of io err]
    by (auto intro!: consistent_merge split: prod.splits)
next
  case (4 io cs)
  then show ?case
    using async_paths_finite(3) [of io cs] by (auto intro!: consistent_merge split: prod.splits)
next
  case (34 io i t ts)
  then show ?case using ty_paths_types_index [of _ io "i + 1" ts] by (simp add: consistent_tuple_step)
next
  case (36 io i n t fs)
  then show ?case using ty_paths_fields_index [of _ io "i + 1" fs] by (simp add: consistent_tuple_step)
qed (simp_all add: consistent_push_front async_paths_finite del: ty_paths_cases.simps)

lemma set_params_async_paths [simp]: "set (params_async_paths io ps) = ty_paths_types io 0 ps"
  by (simp add: params_async_paths_def async_paths_finite)

lemma merge_step_consistent: "consistent P \<Longrightarrow> merge_step k P = P"
proof -
  assume P: "consistent P"
  have "merge_at P k p = p" if "p \<in> P" for p
  proof (cases "k < length p \<and> (\<exists>q \<in> P. k < length q \<and> take k q = take k p \<and> q ! k = None)")
    case True
    with P that have "p ! k = None" unfolding consistent_def by blast
    then show ?thesis by (metis list_update_id merge_at_def)
  next
    case False
    then show ?thesis unfolding merge_at_def by (rule if_not_P)
  qed
  then show ?thesis by (simp add: merge_step_image)
qed

lemma merge_wildcards_consistent: "consistent P \<Longrightarrow> merge_wildcards P = P"
proof -
  assume "consistent P"
  then have "fold merge_step ks P = P" for ks by (induction ks) (simp_all add: merge_step_consistent)
  then show ?thesis by (simp add: merge_wildcards_def Let_def)
qed

text \<open>
  \<open>merge_wildcards\<close> makes a set of patterns consistent, loses no path that a pattern matched, only
  replaces indices by wildcards, and leaves a set that is consistent already as it is (claim C15).
\<close>

theorem merge_wildcards_spec:
  assumes "finite P"
  shows "consistent (merge_wildcards P) \<and>
    (\<forall>p \<in> P. \<forall>x. matches p x \<longrightarrow> (\<exists>q \<in> merge_wildcards P. matches q x)) \<and>
    (\<forall>q \<in> merge_wildcards P. \<exists>p \<in> P. covers q p) \<and>
    (consistent P \<longrightarrow> merge_wildcards P = P)"
proof (intro conjI ballI allI impI)
  show "consistent (merge_wildcards P)" by (rule consistent_merge [OF assms])
  show "\<exists>q \<in> merge_wildcards P. matches q x" if "p \<in> P" "matches p x" for p x
    using merge_steps_covers [OF that(1)] covers_matches [OF _ that(2)]
    unfolding merge_wildcards_def Let_def by blast
  show "\<exists>p \<in> P. covers q p" if "q \<in> merge_wildcards P" for q
    using that merge_steps_origin unfolding merge_wildcards_def Let_def by blast
  show "merge_wildcards P = P" if "consistent P"
    using that by (rule merge_wildcards_consistent)
qed

theorem merge_wildcards_spec_witness:
  "consistent (merge_wildcards {[None, Some 0], [Some 1]}) \<and>
   (\<exists>q \<in> merge_wildcards {[None, Some 0], [Some 1]}. matches q [1])"
  using merge_wildcards_spec [of "{[None, Some 0], [Some 1]}"] by (simp add: matches_def)

text \<open>
  The subscription paths computed from the parameter types of a function, and those computed from a WIT
  type, never have a wildcard and an index at the same position, as \<open>Incoming::new\<close> requires; every
  parameter path starts with the index of its parameter (claim C13).
\<close>

theorem async_paths_are_consistent:
  "consistent (set (params_async_paths io params)) \<and> consistent (fst (async_paths_ty t)) \<and>
   sorted (params_async_paths io params) \<and> distinct (params_async_paths io params) \<and>
   list_all (\<lambda>p. \<exists>i q. p = Some i # q) (params_async_paths io params)"
proof -
  have "list_all (\<lambda>p. \<exists>i q. p = Some i # q) (params_async_paths io params)"
    unfolding list_all_iff set_params_async_paths using ty_paths_types_index by blast
  then show ?thesis
    by (simp add: async_paths_consistent async_paths_ty_consistent) (simp add: params_async_paths_def)
qed



end
