(* ===== verification/Subscriptions.thy ===== *)
theory Subscriptions
  imports Paths "HOL-Library.AList" "HOL-Library.Sublist"
begin

text \<open>
  The subscription index of an incoming stream, \<open>Subscriptions\<close> of
  \<open>crates/transport/src/frame/conn/mod.rs\<close>: which paths carry data, where the data of a path goes, and
  which elements (positions matched by a wildcard) are subscribed to, indexed or released.

  \<^item> The record \<open>subscriptions\<close> has the fields of the Rust struct. A \<open>BTreeMap\<close> is an association list
    with one entry per key; no operation depends on the order of the entries. A channel
    (\<open>mpsc::channel\<close>) is a number, allocated by \<open>sub_new\<close>, whose two ends are the \<open>Open\<close> sender slot and
    the receiver of a subscription; what the channel holds is kept by the theory of the connection and
    enters here as the argument \<open>pending\<close>, which tells whether a channel holds data
    (\<open>!rx.is_empty()\<close>). The semaphore \<open>unclaimed\<close> is the number of permits that can still be acquired
    and whether it is closed; dropping a permit makes it available again. The \<open>Notify\<close> that wakes ingress
    up has no state in the model: ingress is free to retry.
  \<^item> Each operation is the method of the same name. A method that changes the index returns the new
    index together with its result.

  Theorems: \<open>resolve\<close> finds the declared pattern that matches a path; permits are neither lost nor
  invented, so at most 64 elements are subscribed to before they are indexed; a frame for an undeclared
  path changes nothing; an element that was released is never subscribed to again.
\<close>

section \<open>State\<close>

type_synonym chan = nat

definition MAX_UNCLAIMED_ELEMENTS :: nat where
  "MAX_UNCLAIMED_ELEMENTS = 64"

definition MAX_BUFFERED_CHUNKS :: nat where
  "MAX_BUFFERED_CHUNKS = 16"

record pattern_node =
  declared :: bool
  wildcard :: "bool option"

datatype tx_slot = Open chan | Closed

record subscription =
  tx :: "tx_slot option"
  rx :: "chan option"
  handles :: nat
  permit :: bool

record subscriptions =
  patterns :: "(pattern \<times> pattern_node) list"
  subs :: "(path \<times> subscription) list"
  next_index :: "(path \<times> nat) list"
  available :: nat
  sem_closed :: bool
  closed :: bool
  depth :: nat
  fresh :: chan

datatype route_result = RouteTx tx_slot | RouteNotFound | RouteReleased | RouteUnclaimed

definition pattern_default :: pattern_node where
  "pattern_default = \<lparr>declared = False, wildcard = None\<rparr>"

definition sub_default :: subscription where
  "sub_default = \<lparr>tx = None, rx = None, handles = 0, permit = False\<rparr>"

text \<open>\<open>Subscription::new\<close>: the subscription and the next unused channel.\<close>

definition sub_new :: "bool \<Rightarrow> chan \<Rightarrow> subscription \<times> chan" where
  "sub_new decl c =
    (if \<not> decl then (sub_default, c)
     else (sub_default\<lparr>tx := Some (Open c), rx := Some c\<rparr>, c + 1))"

section \<open>Declared paths\<close>

definition pattern_entry :: "(pattern \<times> pattern_node) list \<Rightarrow> pattern \<Rightarrow> pattern_node" where
  "pattern_entry m k = (case map_of m k of None \<Rightarrow> pattern_default | Some n \<Rightarrow> n)"

definition set_wildcard ::
  "pattern \<Rightarrow> nat \<Rightarrow> (pattern \<times> pattern_node) list \<Rightarrow> (pattern \<times> pattern_node) list" where
  "set_wildcard p k m =
    AList.update (take k p) ((pattern_entry m (take k p))\<lparr>wildcard := Some (p ! k = None)\<rparr>) m"

definition declare_path :: "pattern \<Rightarrow> subscriptions \<Rightarrow> subscriptions" where
  "declare_path p s =
    (if p = [] then s
     else
      (let m = fold (set_wildcard p) [0..<length p] (patterns s);
           m = AList.update p ((pattern_entry m p)\<lparr>declared := True\<rparr>) m;
           s = s\<lparr>depth := max (depth s) (length p), patterns := m\<rparr>
       in case those p of
            Some q \<Rightarrow>
              (let (sub, c) = sub_new True (fresh s)
               in s\<lparr>subs := AList.update q sub (subs s), fresh := c\<rparr>)
          | None \<Rightarrow> s))"

text \<open>\<open>Subscriptions::new\<close>: channel 0 is the one of the root, which the caller has created.\<close>

definition subs_new :: "pattern list \<Rightarrow> subscriptions" where
  "subs_new paths =
    fold declare_path paths
      \<lparr>patterns = [([], \<lparr>declared = True, wildcard = None\<rparr>)],
       subs = [([], sub_default\<lparr>tx := Some (Open 0)\<rparr>)],
       next_index = [], available = MAX_UNCLAIMED_ELEMENTS, sem_closed = False, closed = False,
       depth = 0, fresh = 1\<rparr>"

fun resolve_from ::
  "(pattern \<times> pattern_node) list \<Rightarrow> pattern_node \<Rightarrow> pattern \<Rightarrow> path \<Rightarrow> (pattern_node \<times> pattern) option" where
  "resolve_from m n p [] = Some (n, p)"
| "resolve_from m n p (i # is) =
    (case wildcard n of
       None \<Rightarrow> None
     | Some w \<Rightarrow>
         (let p = p @ [if w then None else Some i]
          in case map_of m p of None \<Rightarrow> None | Some n \<Rightarrow> resolve_from m n p is))"

definition resolve :: "subscriptions \<Rightarrow> path \<Rightarrow> (pattern_node \<times> pattern) option" where
  "resolve s path =
    (case map_of (patterns s) [] of None \<Rightarrow> None | Some n \<Rightarrow> resolve_from (patterns s) n [] path)"

text \<open>The positions of a pattern that a wildcard matches, in order.\<close>

definition elements :: "pattern \<Rightarrow> nat list" where
  "elements p = filter (\<lambda>k. p ! k = None) [0..<length p]"

section \<open>Operations\<close>

definition next_of :: "subscriptions \<Rightarrow> path \<Rightarrow> nat" where
  "next_of s p = (case map_of (next_index s) p of None \<Rightarrow> 0 | Some i \<Rightarrow> i)"

definition get_sub :: "subscriptions \<Rightarrow> path \<Rightarrow> subscription option" where
  "get_sub s p = map_of (subs s) p"

definition put_sub :: "path \<Rightarrow> subscription \<Rightarrow> subscriptions \<Rightarrow> subscriptions" where
  "put_sub p sub s = s\<lparr>subs := AList.update p sub (subs s)\<rparr>"

text \<open>\<open>subscribe\<close> returns the entry of \<open>path\<close>, which it makes if there is none.\<close>

definition subscribe :: "subscriptions \<Rightarrow> path \<Rightarrow> pattern \<Rightarrow> subscriptions \<times> subscription" where
  "subscribe s path pat =
    (let decl = (case map_of (patterns s) pat of None \<Rightarrow> False | Some n \<Rightarrow> declared n) in
     case get_sub s path of
       Some sub \<Rightarrow> (s, sub)
     | None \<Rightarrow>
         (let (sub, c) = sub_new decl (fresh s);
              sub = (if closed s then sub\<lparr>tx := None\<rparr> else sub)
          in (put_sub path sub (s\<lparr>fresh := c\<rparr>), sub)))"

text \<open>Dropping the permit of a subscription gives it back to the semaphore.\<close>

definition drop_permits :: "subscription list \<Rightarrow> subscriptions \<Rightarrow> subscriptions" where
  "drop_permits xs s = s\<lparr>available := available s + length (filter permit xs)\<rparr>"

definition remove_nested :: "path \<Rightarrow> (path \<times> 'v) list \<Rightarrow> (path \<times> 'v) list \<times> 'v list" where
  "remove_nested path m =
    (filter (\<lambda>(p, _). \<not> prefix path p) m, map snd (filter (\<lambda>(p, _). prefix path p) m))"

definition held :: "(chan \<Rightarrow> bool) \<Rightarrow> subscription \<Rightarrow> bool" where
  "held pending sub = (case rx sub of None \<Rightarrow> False | Some c \<Rightarrow> pending c)"

definition remove_sub :: "(chan \<Rightarrow> bool) \<Rightarrow> path \<Rightarrow> subscriptions \<Rightarrow> subscriptions \<times> bool" where
  "remove_sub pending path s =
    (let (nx, _) = remove_nested path (next_index s);
         (sb, gone) = remove_nested path (subs s)
     in (drop_permits gone (s\<lparr>next_index := nx, subs := sb\<rparr>), list_ex (held pending) gone))"

definition close_rx :: "(chan \<Rightarrow> bool) \<Rightarrow> subscriptions \<Rightarrow> subscriptions \<times> bool" where
  "close_rx pending s =
    (s\<lparr>sem_closed := True, subs := map (\<lambda>(p, sub). (p, sub\<lparr>rx := None\<rparr>)) (subs s)\<rparr>,
     list_ex (\<lambda>(p, sub). held pending sub) (subs s))"

definition close_tx :: "subscriptions \<Rightarrow> subscriptions" where
  "close_tx s =
    s\<lparr>closed := True,
      subs := map (\<lambda>(p, sub). (p, case tx sub of Some (Open c) \<Rightarrow> sub\<lparr>tx := None\<rparr> | _ \<Rightarrow> sub)) (subs s)\<rparr>"

text \<open>Indexing one element: it gets a handle, loses its permit, and the ones before it are released.\<close>

definition claim_element :: "path \<Rightarrow> pattern \<Rightarrow> nat \<Rightarrow> subscriptions \<Rightarrow> subscriptions" where
  "claim_element path pat k s =
    (let (s, element) = subscribe s (take (k + 1) path) (take (k + 1) pat);
         s = drop_permits [element] s;
         s = put_sub (take (k + 1) path) (element\<lparr>handles := handles element + 1, permit := False\<rparr>) s;
         n = next_of s (take k path)
     in s\<lparr>next_index := AList.update (take k path) (max n (saturating_add (path ! k) 1)) (next_index s)\<rparr>)"

definition take_rx :: "subscriptions \<Rightarrow> path \<Rightarrow> subscriptions \<times> chan option option" where
  "take_rx s path =
    (case resolve s path of
       None \<Rightarrow> (s, None)
     | Some (n, pat) \<Rightarrow>
         if list_ex (\<lambda>k. get_sub s (take (k + 1) path) = None \<and> path ! k < next_of s (take k path))
              (elements pat)
         then (s, None)
         else if declared n \<and> wildcard n = None \<and>
           (case get_sub s path of None \<Rightarrow> False | Some sub \<Rightarrow> rx sub = None)
         then (s, None)
         else
          (let s = fold (claim_element path pat) (elements pat) s in
           if \<not> declared n then (s, Some None)
           else
            (let (s, sub) = subscribe s path pat
             in (put_sub path (sub\<lparr>rx := None\<rparr>) s, Some (rx sub)))))"

definition skip_element :: "(chan \<Rightarrow> bool) \<Rightarrow> path \<Rightarrow> nat \<Rightarrow> subscriptions \<times> bool \<Rightarrow> subscriptions \<times> bool" where
  "skip_element pending path k st =
    (let (s, b) = st; nx = next_of s (take k path) in
     if nx \<ge> path ! k then (s, b)
     else
      (let skipped = map fst (filter (\<lambda>(p, sub). length p = k + 1 \<and> take k p = take k path \<and>
             nx \<le> p ! k \<and> p ! k < path ! k \<and> handles sub = 0) (subs s))
       in fold (\<lambda>p (s, b). let (s, b') = remove_sub pending p s in (s, b \<or> b')) skipped (s, b)))"

definition skip :: "(chan \<Rightarrow> bool) \<Rightarrow> subscriptions \<Rightarrow> path \<Rightarrow> subscriptions \<times> bool" where
  "skip pending s path =
    (case resolve s path of
       None \<Rightarrow> (s, False)
     | Some (_, pat) \<Rightarrow> fold (skip_element pending path) (elements pat) (s, False))"

definition retain_element :: "path \<Rightarrow> nat \<Rightarrow> subscriptions \<Rightarrow> subscriptions" where
  "retain_element path k s =
    (case get_sub s (take (k + 1) path) of
       None \<Rightarrow> s
     | Some e \<Rightarrow> put_sub (take (k + 1) path) (e\<lparr>handles := handles e + 1\<rparr>) s)"

definition retain :: "subscriptions \<Rightarrow> path \<Rightarrow> subscriptions" where
  "retain s path =
    (case resolve s path of
       None \<Rightarrow> s
     | Some (_, pat) \<Rightarrow> fold (retain_element path) (elements pat) s)"

fun release_elements ::
  "(chan \<Rightarrow> bool) \<Rightarrow> path \<Rightarrow> nat list \<Rightarrow> subscriptions \<Rightarrow> subscriptions \<times> bool" where
  "release_elements pending path [] s = (s, False)"
| "release_elements pending path (k # ks) s =
    (case get_sub s (take (k + 1) path) of
       None \<Rightarrow> (s, False)
     | Some e \<Rightarrow>
         (let e = e\<lparr>handles := handles e - 1\<rparr>; s = put_sub (take (k + 1) path) e s in
          if handles e = 0 then remove_sub pending (take (k + 1) path) s
          else release_elements pending path ks s))"

definition release :: "(chan \<Rightarrow> bool) \<Rightarrow> subscriptions \<Rightarrow> path \<Rightarrow> subscriptions \<times> bool" where
  "release pending s path =
    (case resolve s path of
       None \<Rightarrow> (s, False)
     | Some (_, pat) \<Rightarrow> release_elements pending path (elements pat) s)"

text \<open>
  The loop of \<open>route\<close> over the elements of the path. \<open>pm\<close> is the permit ingress holds; \<open>None\<close> as the
  result means that the loop ran to its end.
\<close>

fun route_elements ::
  "path \<Rightarrow> pattern \<Rightarrow> nat list \<Rightarrow> subscriptions \<Rightarrow> bool \<Rightarrow> subscriptions \<times> bool \<times> route_result option" where
  "route_elements path pat [] s pm = (s, pm, None)"
| "route_elements path pat (k # ks) s pm =
    (if get_sub s (take (k + 1) path) \<noteq> None then route_elements path pat ks s pm
     else if path ! k < next_of s (take k path) then (s, pm, Some RouteReleased)
     else if \<not> pm then (s, pm, Some RouteUnclaimed)
     else
      (let (s, e) = subscribe s (take (k + 1) path) (take (k + 1) pat)
       in route_elements path pat ks (put_sub (take (k + 1) path) (e\<lparr>permit := True\<rparr>) s) False))"

definition get_tx :: "subscriptions \<Rightarrow> path \<Rightarrow> tx_slot option" where
  "get_tx s path = (case get_sub s path of None \<Rightarrow> None | Some sub \<Rightarrow> tx sub)"

definition route_tx :: "subscriptions \<Rightarrow> path \<Rightarrow> route_result" where
  "route_tx s path = (case get_tx s path of None \<Rightarrow> RouteNotFound | Some slot \<Rightarrow> RouteTx slot)"

definition route :: "subscriptions \<Rightarrow> path \<Rightarrow> bool \<Rightarrow> subscriptions \<times> bool \<times> route_result" where
  "route s path pm =
    (if get_tx s path = None then
       (case resolve s path of
          None \<Rightarrow> (s, pm, RouteNotFound)
        | Some (n, pat) \<Rightarrow>
            if \<not> declared n then (s, pm, RouteNotFound)
            else
             (case route_elements path pat (elements pat) s pm of
                (s, pm, Some r) \<Rightarrow> (s, pm, r)
              | (s, pm, None) \<Rightarrow>
                  (let (s, _) = subscribe s path pat in (s, pm, route_tx s path))))
     else (s, pm, route_tx s path))"

section \<open>Resolving paths\<close>

text \<open>
  What the pattern map holds after the paths \<open>P\<close> were declared: the prefixes of the paths, whether each
  is declared itself, and whether the position after it is a wildcard.
\<close>

definition nodes_ok :: "pattern set \<Rightarrow> (pattern \<times> pattern_node) list \<Rightarrow> bool" where
  "nodes_ok P m \<longleftrightarrow>
    (\<forall>k. case map_of m k of
       None \<Rightarrow> k \<noteq> [] \<and> (\<forall>p \<in> P. \<not> prefix k p)
     | Some n \<Rightarrow> (k = [] \<or> (\<exists>p \<in> P. prefix k p)) \<and> (declared n \<longleftrightarrow> k = [] \<or> k \<in> P) \<and>
         (case wildcard n of
            None \<Rightarrow> \<forall>p \<in> P. \<not> strict_prefix k p
          | Some w \<Rightarrow> \<exists>p \<in> P. strict_prefix k p \<and> w = (p ! length k = None)))"

lemma nodes_okI:
  assumes "\<And>k. map_of m k = None \<Longrightarrow> k \<noteq> [] \<and> (\<forall>p \<in> P. \<not> prefix k p)"
    and "\<And>k n. map_of m k = Some n \<Longrightarrow> k = [] \<or> (\<exists>p \<in> P. prefix k p)"
    and "\<And>k n. map_of m k = Some n \<Longrightarrow> declared n \<longleftrightarrow> k = [] \<or> k \<in> P"
    and "\<And>k n. map_of m k = Some n \<Longrightarrow> wildcard n = None \<Longrightarrow> \<forall>p \<in> P. \<not> strict_prefix k p"
    and "\<And>k n w. map_of m k = Some n \<Longrightarrow> wildcard n = Some w \<Longrightarrow>
      \<exists>p \<in> P. strict_prefix k p \<and> w = (p ! length k = None)"
  shows "nodes_ok P m"
  unfolding nodes_ok_def using assms by (auto split: option.splits)

lemma nodes_okD:
  assumes "nodes_ok P m"
  shows "map_of m k = None \<Longrightarrow> k \<noteq> [] \<and> (\<forall>p \<in> P. \<not> prefix k p)"
    and "map_of m k = Some n \<Longrightarrow> k = [] \<or> (\<exists>p \<in> P. prefix k p)"
    and "map_of m k = Some n \<Longrightarrow> declared n \<longleftrightarrow> k = [] \<or> k \<in> P"
    and "map_of m k = Some n \<Longrightarrow> wildcard n = None \<Longrightarrow> \<forall>p \<in> P. \<not> strict_prefix k p"
    and "map_of m k = Some n \<Longrightarrow> wildcard n = Some w \<Longrightarrow>
      \<exists>p \<in> P. strict_prefix k p \<and> w = (p ! length k = None)"
  using assms [unfolded nodes_ok_def, rule_format, of k] by simp_all

text \<open>The loop over the prefixes of one path.\<close>

lemma map_of_set_wildcards:
  "j \<le> length p \<Longrightarrow> map_of (fold (set_wildcard p) [0..<j] m) k =
    (if length k < j \<and> take (length k) p = k
     then Some ((pattern_entry m k)\<lparr>wildcard := Some (p ! length k = None)\<rparr>) else map_of m k)"
proof (induction j arbitrary: k)
  case (Suc j)
  let ?M = "fold (set_wildcard p) [0..<j] m"
  have len: "length (take j p) = j" using Suc.prems by simp
  then have entry: "pattern_entry ?M (take j p) = pattern_entry m (take j p)"
    using Suc by (simp add: pattern_entry_def)
  have "map_of (fold (set_wildcard p) [0..<Suc j] m) k =
      ((map_of ?M)(take j p \<mapsto> (pattern_entry m (take j p))\<lparr>wildcard := Some (p ! j = None)\<rparr>)) k"
    by (simp add: set_wildcard_def [of p j] update_conv' entry)
  also have "\<dots> = (if length k < Suc j \<and> take (length k) p = k
     then Some ((pattern_entry m k)\<lparr>wildcard := Some (p ! length k = None)\<rparr>) else map_of m k)"
    using Suc len by (cases "k = take j p") (auto simp: less_Suc_eq)
  finally show ?case .
qed simp

lemma take_length_prefix: "length k < length p \<and> take (length k) p = k \<longleftrightarrow> strict_prefix k p"
proof
  assume k: "length k < length p \<and> take (length k) p = k"
  then have "prefix k p" by (metis take_is_prefix)
  with k show "strict_prefix k p" by (auto simp: strict_prefix_def)
next
  assume "strict_prefix k p"
  then show "length k < length p \<and> take (length k) p = k"
    by (auto simp: strict_prefix_def prefix_def)
qed

lemma map_of_declare_path:
  assumes "p \<noteq> []"
  shows "map_of (patterns (declare_path p s)) k =
    (if k = p then Some ((pattern_entry (patterns s) k)\<lparr>declared := True\<rparr>)
     else if strict_prefix k p
     then Some ((pattern_entry (patterns s) k)\<lparr>wildcard := Some (p ! length k = None)\<rparr>)
     else map_of (patterns s) k)"
proof -
  let ?m = "fold (set_wildcard p) [0..<length p] (patterns s)"
  have m: "map_of ?m k = (if strict_prefix k p
      then Some ((pattern_entry (patterns s) k)\<lparr>wildcard := Some (p ! length k = None)\<rparr>)
      else map_of (patterns s) k)" for k
    unfolding take_length_prefix [symmetric] by (rule map_of_set_wildcards) simp
  have "pattern_entry ?m p = pattern_entry (patterns s) p"
    by (simp add: pattern_entry_def m)
  with assms m show ?thesis
    by (auto simp: declare_path_def Let_def sub_new_def update_conv' split: option.splits)
qed

lemma nodes_ok_declare:
  assumes ok: "nodes_ok P (patterns s)" and p: "p \<noteq> []"
  shows "nodes_ok (insert p P) (patterns (declare_path p s))"
proof -
  note D = nodes_okD [OF ok]
  have entry: "map_of (patterns s) k = Some (pattern_entry (patterns s) k) \<or>
      map_of (patterns s) k = None \<and> pattern_entry (patterns s) k = pattern_default" for k
    by (simp add: pattern_entry_def split: option.splits)
  have decl: "declared (pattern_entry (patterns s) k) \<longleftrightarrow> k = [] \<or> k \<in> P" for k
    using entry [of k] D(1,3) [of k] by (auto simp: pattern_default_def)
  have wild: "wildcard (pattern_entry (patterns s) k) = None \<Longrightarrow> \<forall>q \<in> P. \<not> strict_prefix k q" for k
    using entry [of k] D(1,4) [of k] by (auto simp: strict_prefix_def)
  have wild': "\<exists>q \<in> P. strict_prefix k q \<and> w = (q ! length k = None)"
    if "wildcard (pattern_entry (patterns s) k) = Some w" for k w
    using that entry [of k] D(5) [of k] by (auto simp: pattern_default_def)
  show ?thesis
  proof (rule nodes_okI)
    fix k assume "map_of (patterns (declare_path p s)) k = None"
    then show "k \<noteq> [] \<and> (\<forall>q \<in> insert p P. \<not> prefix k q)"
      using D(1) [of k] p by (auto simp: map_of_declare_path strict_prefix_def split: if_splits)
  next
    fix k n assume "map_of (patterns (declare_path p s)) k = Some n"
    note n = this [unfolded map_of_declare_path [OF p]]
    show "k = [] \<or> (\<exists>q \<in> insert p P. prefix k q)"
      using n D(2) [of k n] by (auto simp: strict_prefix_def split: if_splits)
    show "declared n \<longleftrightarrow> k = [] \<or> k \<in> insert p P"
      using n decl [of k] D(3) [of k n] by (auto split: if_splits)
    show "\<forall>q \<in> insert p P. \<not> strict_prefix k q" if "wildcard n = None"
      using that n wild [of k] D(4) [of k n] by (auto split: if_splits)
    show "\<exists>q \<in> insert p P. strict_prefix k q \<and> w = (q ! length k = None)" if "wildcard n = Some w" for w
      using that n wild' [of k w] D(5) [of k n w] by (auto split: if_splits)
  qed
qed

lemma nodes_ok_new: "nodes_ok (set ps - {[]}) (patterns (subs_new ps))"
proof -
  have "nodes_ok P (patterns s) \<Longrightarrow> nodes_ok (P \<union> (set ps - {[]})) (patterns (fold declare_path ps s))" for P s
  proof (induction ps arbitrary: P s)
    case (Cons p ps)
    show ?case
    proof (cases "p = []")
      case True
      with Cons show ?thesis by (simp add: declare_path_def)
    next
      case False
      from Cons.IH [OF nodes_ok_declare [OF Cons.prems False]] False show ?thesis
        by (simp add: insert_Diff_if)
    qed
  qed simp
  moreover have "nodes_ok {} [([], \<lparr>declared = True, wildcard = None\<rparr>)]"
    by (auto simp: nodes_ok_def split: option.splits)
  ultimately show ?thesis
    unfolding subs_new_def by (metis (no_types, lifting) Un_empty_left select_convs(1))
qed

text \<open>
  With consistent patterns, \<open>resolve\<close> gives the prefix of a declared pattern that matches the path: there
  is at most one.
\<close>

lemma consistent_next:
  assumes "consistent P" and "p \<in> P" and "q \<in> P" and "prefix k p" and "prefix k q"
    and "length k < length p" and "length k < length q"
  shows "p ! length k = None \<longleftrightarrow> q ! length k = None"
proof -
  have "take (length k) p = k" "take (length k) q = k"
    using assms(4,5) by (auto simp: prefix_def)
  then show ?thesis using assms unfolding consistent_def by metis
qed

lemma resolve_from_iff:
  assumes "consistent P" and ok: "nodes_ok P m"
  shows "map_of m k = Some n \<Longrightarrow> resolve_from m n k is = Some (n', p) \<longleftrightarrow>
    (\<exists>q. p = k @ q \<and> matches q is) \<and> map_of m p = Some n'"
proof (induction "is" arbitrary: k n)
  case Nil
  then show ?case by (auto simp: matches_def)
next
  case (Cons i "is")
  note D = nodes_okD [OF ok]
  show ?case
  proof (cases "wildcard n")
    case None
    have "map_of m p = None" if "p = k @ q" "matches q (i # is)" for q
    proof (rule ccontr)
      assume "map_of m p \<noteq> None"
      then obtain y where y: "map_of m p = Some y" by blast
      from that have "q \<noteq> []" by (auto simp: matches_def)
      with that D(2) [OF y] obtain r where "r \<in> P" "prefix p r" by auto
      then have "strict_prefix k r" using that \<open>q \<noteq> []\<close>
        by (metis append_prefixD append_self_conv prefix_order.less_le_trans prefixI strict_prefixI)
      with D(4) [OF Cons.prems None] \<open>r \<in> P\<close> show False by blast
    qed
    with None show ?thesis by auto
  next
    case (Some w)
    then obtain r where r: "r \<in> P" "strict_prefix k r" "w = (r ! length k = None)"
      using D(5) [OF Cons.prems Some] by blast
    let ?a = "if w then None else Some i"
    have first: "a = ?a" if "map_of m (k @ a # q) = Some y" "a = None \<or> a = Some i" for a q y
    proof -
      from D(2) [OF that(1)] obtain t where t: "t \<in> P" "prefix (k @ a # q) t" by auto
      then have "prefix k t" "length k < length t" "t ! length k = a"
        by (auto simp: prefix_def)
      moreover have "prefix k r" "length k < length r"
        using r(2) prefix_length_less [OF r(2)] by (auto simp: strict_prefix_def)
      ultimately show ?thesis
        using consistent_next [OF assms(1) t(1) r(1), of k] r(3) that(2) by auto
    qed
    have split: "(\<exists>q. p = k @ q \<and> matches q (i # is)) \<and> map_of m p = Some n' \<longleftrightarrow>
        (\<exists>q. p = (k @ [?a]) @ q \<and> matches q is) \<and> map_of m p = Some n'"
    proof
      assume L: "(\<exists>q. p = k @ q \<and> matches q (i # is)) \<and> map_of m p = Some n'"
      then obtain a q' where "p = k @ a # q'" "a = None \<or> a = Some i" "matches q' is"
        by (auto simp: matches_def list_all2_Cons2)
      with L first [of a q' n'] show "(\<exists>q. p = (k @ [?a]) @ q \<and> matches q is) \<and> map_of m p = Some n'"
        by auto
    next
      assume "(\<exists>q. p = (k @ [?a]) @ q \<and> matches q is) \<and> map_of m p = Some n'"
      then obtain q where "p = k @ ?a # q" "matches q is" "map_of m p = Some n'" by auto
      then show "(\<exists>q. p = k @ q \<and> matches q (i # is)) \<and> map_of m p = Some n'"
        by (intro conjI exI [of _ "?a # q"]) (simp_all add: matches_def)
    qed
    show ?thesis
    proof (cases "map_of m (k @ [?a])")
      case None
      have "map_of m ((k @ [?a]) @ q) = None" for q
      proof (rule ccontr)
        assume "map_of m ((k @ [?a]) @ q) \<noteq> None"
        then obtain y where "map_of m ((k @ [?a]) @ q) = Some y" by blast
        with D(2) obtain t where "t \<in> P" "prefix ((k @ [?a]) @ q) t" by (metis append_is_Nil_conv list.distinct(1))
        with D(1) [OF None] show False by (metis append_prefixD)
      qed
      with None Some split show ?thesis by auto
    next
      case (Some y)
      with Cons.IH [OF Some] \<open>wildcard n = Some w\<close> split show ?thesis by simp
    qed
  qed
qed

text \<open>The declared paths are never changed after \<open>Subscriptions::new\<close>; \<open>declares\<close> is what stays true of them.\<close>

definition declares :: "pattern set \<Rightarrow> subscriptions \<Rightarrow> bool" where
  "declares P s \<longleftrightarrow> consistent P \<and> nodes_ok P (patterns s)"

lemma declares_patterns: "declares P s \<Longrightarrow> patterns s' = patterns s \<Longrightarrow> declares P s'"
  by (simp add: declares_def)

lemma declares_new:
  assumes "consistent (set ps)"
  shows "declares (set ps - {[]}) (subs_new ps)"
  using consistent_subset [OF assms] nodes_ok_new by (auto simp: declares_def)

lemma resolve_iff:
  assumes "declares P s"
  shows "resolve s path = Some (n, p) \<longleftrightarrow> matches p path \<and> map_of (patterns s) p = Some n"
proof -
  have P: "consistent P" and ok: "nodes_ok P (patterns s)" using assms by (simp_all add: declares_def)
  from nodes_okD(1) [OF ok, of "[]"] obtain r where "map_of (patterns s) [] = Some r" by auto
  with resolve_from_iff [OF P ok this] show ?thesis by (simp add: resolve_def)
qed

lemma resolve_patterns: "patterns s' = patterns s \<Longrightarrow> resolve s' p = resolve s p"
  by (simp add: resolve_def cong: option.case_cong)

lemma matches_length: "matches p x \<Longrightarrow> length p = length x"
  by (simp add: matches_def list_all2_lengthD)

lemma matches_take: "matches p x \<Longrightarrow> matches (take k p) (take k x)"
  by (simp add: matches_def)

lemma resolve_take:
  assumes "declares P s" and "resolve s path = Some (n, p)"
  shows "\<exists>n'. resolve s (take k path) = Some (n', take k p)"
proof -
  have ok: "nodes_ok P (patterns s)" using assms(1) by (simp add: declares_def)
  from assms have m: "matches p path" "map_of (patterns s) p = Some n" by (simp_all add: resolve_iff)
  have "map_of (patterns s) (take k p) \<noteq> None"
  proof
    assume None: "map_of (patterns s) (take k p) = None"
    from nodes_okD(1) [OF ok None] nodes_okD(2) [OF ok m(2)] show False
      by (metis prefix_order.trans take_Nil take_is_prefix)
  qed
  with assms(1) matches_take [OF m(1)] show ?thesis by (auto simp: resolve_iff)
qed

text \<open>
  With consistent declared paths, \<open>resolve\<close> finds a declared position for exactly the paths that match a
  declared path (or are the root), and gives the declared path that matches (claim C17).
\<close>

theorem resolve_declared:
  assumes "consistent (set paths)"
  shows "(\<exists>n. resolve (subs_new paths) path = Some (n, p) \<and> declared n) \<longleftrightarrow>
    matches p path \<and> (p = [] \<or> p \<in> set paths)"
proof -
  note ok = nodes_ok_new [of paths]
  have "p = [] \<or> p \<in> set paths \<Longrightarrow> map_of (patterns (subs_new paths)) p \<noteq> None"
    using nodes_okD(1) [OF ok, of p] by auto
  with nodes_okD(3) [OF ok, of p] resolve_iff [OF declares_new [OF assms]] show ?thesis by auto
qed

theorem resolve_declared_witness:
  "\<exists>n. resolve (subs_new [[Some 0], [Some 1, None]]) [1, 9] = Some (n, [Some 1, None]) \<and> declared n"
  using resolve_declared [of "[[Some 0], [Some 1, None]]" "[1, 9]" "[Some 1, None]"]
  by (simp add: consistent_def matches_def All_less_Suc)

section \<open>The invariant of the index\<close>

text \<open>
  An element is a position matched by a wildcard. The invariant says of every subscription that the
  elements it lies in are subscribed to; of every element that it either holds a permit, and then lies at
  or after the next index, or was indexed, and then has handles and lies before it; and of every entry
  of \<open>next\<close> that the elements it lies in were indexed. \<open>h\<close> is the number of permits ingress holds itself.
\<close>

definition is_element :: "subscriptions \<Rightarrow> path \<Rightarrow> bool" where
  "is_element s q \<longleftrightarrow>
    (case resolve s q of None \<Rightarrow> False | Some (n, p) \<Rightarrow> p \<noteq> [] \<and> last p = None)"

definition claimed :: "subscriptions \<Rightarrow> path \<Rightarrow> bool" where
  "claimed s q \<longleftrightarrow> (case get_sub s q of None \<Rightarrow> False | Some e \<Rightarrow> handles e > 0)"

definition permits :: "(path \<times> subscription) list \<Rightarrow> nat" where
  "permits m = length (filter (\<lambda>(p, sub). permit sub) m)"

definition subs_inv :: "pattern set \<Rightarrow> subscriptions \<Rightarrow> bool" where
  "subs_inv P s \<longleftrightarrow>
    declares P s \<and> distinct (map fst (subs s)) \<and>
    (\<forall>p. get_sub s p \<noteq> None \<longrightarrow> resolve s p \<noteq> None \<and>
      (\<forall>q. prefix q p \<and> is_element s q \<longrightarrow> get_sub s q \<noteq> None)) \<and>
    (\<forall>b. map_of (next_index s) b \<noteq> None \<longrightarrow> (\<forall>q. prefix q b \<and> is_element s q \<longrightarrow> claimed s q)) \<and>
    (\<forall>q e. get_sub s q = Some e \<longrightarrow>
      (if is_element s q then permit e = (handles e = 0) \<and> (handles e > 0 \<longleftrightarrow> last q < next_of s (butlast q))
       else \<not> permit e \<and> handles e = 0))"

definition permit_inv :: "nat \<Rightarrow> subscriptions \<Rightarrow> bool" where
  "permit_inv h s \<longleftrightarrow> available s + permits (subs s) + h = MAX_UNCLAIMED_ELEMENTS"

text \<open>An element that was released: it is not subscribed to and lies before the next index.\<close>

definition gone :: "subscriptions \<Rightarrow> path \<Rightarrow> bool" where
  "gone s q \<longleftrightarrow> is_element s q \<and> get_sub s q = None \<and> last q < next_of s (butlast q)"

definition released :: "subscriptions \<Rightarrow> path \<Rightarrow> bool" where
  "released s p \<longleftrightarrow> (\<exists>q. prefix q p \<and> gone s q)"

lemma subs_invD:
  assumes "subs_inv P s"
  shows "declares P s" and "distinct (map fst (subs s))"
    and "get_sub s p = Some e \<Longrightarrow> resolve s p \<noteq> None"
    and "get_sub s p = Some e \<Longrightarrow> prefix q p \<Longrightarrow> is_element s q \<Longrightarrow> \<exists>e'. get_sub s q = Some e'"
    and "map_of (next_index s) b = Some i \<Longrightarrow> prefix q b \<Longrightarrow> is_element s q \<Longrightarrow> claimed s q"
    and "get_sub s q = Some e \<Longrightarrow> is_element s q \<Longrightarrow> permit e = (handles e = 0)"
    and "get_sub s q = Some e \<Longrightarrow> is_element s q \<Longrightarrow> handles e > 0 \<longleftrightarrow> last q < next_of s (butlast q)"
    and "get_sub s q = Some e \<Longrightarrow> \<not> is_element s q \<Longrightarrow> \<not> permit e \<and> handles e = 0"
  using assms unfolding subs_inv_def by (simp, simp, blast, blast, blast, meson, meson, meson)

lemma subs_invI:
  assumes "declares P s" and "distinct (map fst (subs s))"
    and "\<And>p e. get_sub s p = Some e \<Longrightarrow> resolve s p \<noteq> None"
    and "\<And>p e q. get_sub s p = Some e \<Longrightarrow> prefix q p \<Longrightarrow> is_element s q \<Longrightarrow> \<exists>e'. get_sub s q = Some e'"
    and "\<And>b i q. map_of (next_index s) b = Some i \<Longrightarrow> prefix q b \<Longrightarrow> is_element s q \<Longrightarrow> claimed s q"
    and "\<And>q e. get_sub s q = Some e \<Longrightarrow> is_element s q \<Longrightarrow> permit e = (handles e = 0)"
    and "\<And>q e. get_sub s q = Some e \<Longrightarrow> is_element s q \<Longrightarrow> handles e > 0 \<longleftrightarrow> last q < next_of s (butlast q)"
    and "\<And>q e. get_sub s q = Some e \<Longrightarrow> \<not> is_element s q \<Longrightarrow> \<not> permit e \<and> handles e = 0"
  shows "subs_inv P s"
  using assms unfolding subs_inv_def by auto

subsection \<open>What the primitive updates change\<close>

lemma map_of_filter_key: "map_of (filter (\<lambda>(k, _). Q k) m) k = (if Q k then map_of m k else None)"
  by (induction m) auto

lemma get_sub_put [simp]: "get_sub (put_sub p v s) q = (if q = p then Some v else get_sub s q)"
  by (simp add: get_sub_def put_sub_def update_conv')

lemma put_sub_fields [simp]:
  "patterns (put_sub p v s) = patterns s" "next_index (put_sub p v s) = next_index s"
  "available (put_sub p v s) = available s" "closed (put_sub p v s) = closed s"
  "sem_closed (put_sub p v s) = sem_closed s" "fresh (put_sub p v s) = fresh s" "depth (put_sub p v s) = depth s"
  "next_of (put_sub p v s) b = next_of s b"
  by (simp_all add: put_sub_def next_of_def)

lemma distinct_put [simp]: "distinct (map fst (subs s)) \<Longrightarrow> distinct (map fst (subs (put_sub p v s)))"
  by (simp add: put_sub_def distinct_update)

lemma permits_put:
  assumes "distinct (map fst (subs s))"
  shows "permits (subs (put_sub p v s)) + (case get_sub s p of None \<Rightarrow> 0 | Some e \<Rightarrow> of_bool (permit e)) =
    permits (subs s) + of_bool (permit v)"
proof -
  have "permits (AList.update p v m) + (case map_of m p of None \<Rightarrow> 0 | Some e \<Rightarrow> of_bool (permit e)) =
      permits m + of_bool (permit v)" if "distinct (map fst m)" for m
    using that
  proof (induction m)
    case (Cons x m)
    show ?case
    proof (cases "fst x = p")
      case True
      with Cons have "map_of m p = None" by (auto simp: map_of_eq_None_iff)
      with True show ?thesis by (cases x) (simp add: permits_def)
    qed (use Cons in \<open>cases x; simp add: permits_def\<close>)
  qed (simp add: permits_def)
  with assms show ?thesis by (simp add: put_sub_def get_sub_def)
qed

lemma drop_permits_fields [simp]:
  "patterns (drop_permits xs s) = patterns s" "next_index (drop_permits xs s) = next_index s"
  "subs (drop_permits xs s) = subs s" "closed (drop_permits xs s) = closed s"
  "sem_closed (drop_permits xs s) = sem_closed s" "fresh (drop_permits xs s) = fresh s"
  "depth (drop_permits xs s) = depth s" "get_sub (drop_permits xs s) q = get_sub s q"
  "next_of (drop_permits xs s) b = next_of s b"
  "available (drop_permits xs s) = available s + length (filter permit xs)"
  by (simp_all add: drop_permits_def get_sub_def next_of_def)

lemma get_sub_remove [simp]:
  "get_sub (fst (remove_sub pd p s)) q = (if prefix p q then None else get_sub s q)"
  by (simp add: remove_sub_def remove_nested_def get_sub_def map_of_filter_key)

lemma next_index_remove [simp]:
  "map_of (next_index (fst (remove_sub pd p s))) b = (if prefix p b then None else map_of (next_index s) b)"
  by (simp add: remove_sub_def remove_nested_def map_of_filter_key)

lemma next_of_remove [simp]:
  "next_of (fst (remove_sub pd p s)) b = (if prefix p b then 0 else next_of s b)"
  by (simp add: next_of_def)

lemma remove_fields [simp]:
  "patterns (fst (remove_sub pd p s)) = patterns s" "closed (fst (remove_sub pd p s)) = closed s"
  "sem_closed (fst (remove_sub pd p s)) = sem_closed s" "fresh (fst (remove_sub pd p s)) = fresh s"
  by (simp_all add: remove_sub_def remove_nested_def)

lemma distinct_remove [simp]:
  "distinct (map fst (subs s)) \<Longrightarrow> distinct (map fst (subs (fst (remove_sub pd p s))))"
  by (simp add: remove_sub_def remove_nested_def distinct_map_filter)

text \<open>Removing subscriptions gives back exactly the permits they held.\<close>

lemma permit_inv_remove: "permit_inv h s \<Longrightarrow> permit_inv h (fst (remove_sub pd p s))"
proof -
  have "length (filter permit (map snd (filter (\<lambda>(q, _). prefix p q) m))) +
      permits (filter (\<lambda>(q, _). \<not> prefix p q) m) = permits m" for m :: "(path \<times> subscription) list"
    by (induction m) (auto simp: permits_def)
  then show "permit_inv h s \<Longrightarrow> permit_inv h (fst (remove_sub pd p s))"
    by (simp add: permit_inv_def remove_sub_def remove_nested_def) (metis (no_types, lifting) add.assoc)
qed

lemma is_element_patterns: "patterns s' = patterns s \<Longrightarrow> is_element s' q = is_element s q"
  using resolve_patterns [of s' s q] by (simp add: is_element_def)

lemma same_patterns [simp]:
  "resolve (put_sub p v s) = resolve s" "is_element (put_sub p v s) = is_element s"
  "resolve (drop_permits xs s) = resolve s" "is_element (drop_permits xs s) = is_element s"
  "resolve (fst (remove_sub pd p s)) = resolve s" "is_element (fst (remove_sub pd p s)) = is_element s"
  by (auto intro!: ext resolve_patterns is_element_patterns)

text \<open>The invariant depends on the maps only.\<close>

lemma subs_inv_cong:
  assumes "subs_inv P s" and "patterns s' = patterns s" and "\<And>q. get_sub s' q = get_sub s q"
    and "\<And>b. map_of (next_index s') b = map_of (next_index s) b" and "distinct (map fst (subs s'))"
  shows "subs_inv P s'"
proof -
  have eqs: "resolve s' q = resolve s q" "is_element s' q = is_element s q" "next_of s' q = next_of s q"
    "claimed s' q = claimed s q" for q
    using resolve_patterns [OF assms(2)] is_element_patterns [OF assms(2)] assms(3,4)
    by (simp_all add: next_of_def claimed_def)
  have "declares P s'" using assms(1,2) by (auto simp: subs_inv_def intro: declares_patterns)
  with assms(1,5) show ?thesis unfolding subs_inv_def eqs assms(3) assms(4) by blast
qed

lemma remove_inv:
  assumes "subs_inv P s"
  shows "subs_inv P (fst (remove_sub pd p s))"
proof (rule subs_invI)
  note D = subs_invD [OF assms]
  let ?s = "fst (remove_sub pd p s)"
  show "declares P ?s" using D(1) by (rule declares_patterns) simp
  show "distinct (map fst (subs ?s))" using D(2) by simp
  show "resolve ?s q \<noteq> None" if "get_sub ?s q = Some e" for q e
    using that D(3) [of q e] by (simp split: if_splits)
  show "\<exists>e'. get_sub ?s q = Some e'" if "get_sub ?s r = Some e" "prefix q r" "is_element ?s q" for r e q
    using that D(4) [of r e q] by (auto split: if_splits dest: prefix_order.trans)
  show "claimed ?s q" if "map_of (next_index ?s) b = Some i" "prefix q b" "is_element ?s q" for b i q
    using that D(5) [of b i q] by (auto simp: claimed_def split: if_splits dest: prefix_order.trans)
  show "permit e = (handles e = 0)" if "get_sub ?s q = Some e" "is_element ?s q" for q e
    using that D(6) [of q e] by (simp split: if_splits)
  show "handles e > 0 \<longleftrightarrow> last q < next_of ?s (butlast q)" if "get_sub ?s q = Some e" "is_element ?s q" for q e
  proof -
    have "\<not> prefix p q" "get_sub s q = Some e" using that by (simp_all split: if_splits)
    moreover have "prefix (butlast q) q" by (metis append_butlast_last_id butlast.simps(1) prefixI prefix_order.refl)
    ultimately show ?thesis using that D(7) [of q e] by (auto dest: prefix_order.trans)
  qed
  show "\<not> permit e \<and> handles e = 0" if "get_sub ?s q = Some e" "\<not> is_element ?s q" for q e
    using that D(8) [of q e] by (simp split: if_splits)
qed

lemma elements_iff:
  assumes "declares P s" and "resolve s path = Some (n, pat)"
  shows "k \<in> set (elements pat) \<longleftrightarrow> k < length path \<and> is_element s (take (Suc k) path)"
proof -
  have len: "length pat = length path"
    using assms by (simp add: resolve_iff matches_length)
  obtain n' where "resolve s (take (Suc k) path) = Some (n', take (Suc k) pat)"
    using resolve_take [OF assms] by blast
  with len show ?thesis
    by (auto simp: elements_def is_element_def take_Suc_conv_app_nth split: if_splits)
qed

lemma element_prefix:
  assumes "declares P s" and "resolve s path = Some (n, pat)" and "prefix q path" and "is_element s q"
  obtains k where "k \<in> set (elements pat)" "q = take (Suc k) path" "butlast q = take k path" "last q = path ! k"
proof -
  have q: "q = take (length q) path" using assms(3) by (auto simp: prefix_def)
  have "q \<noteq> []"
    using assms(1,4) by (auto simp: is_element_def resolve_iff matches_def split: option.splits)
  then obtain k where k: "length q = Suc k" by (cases q) auto
  then have lt: "k < length path" using prefix_length_le [OF assms(3)] by simp
  have take: "q = take (Suc k) path" using q k by simp
  then have "q = take k path @ [path ! k]" using lt by (simp add: take_Suc_conv_app_nth)
  then have "butlast q = take k path" "last q = path ! k" by simp_all
  moreover have "k \<in> set (elements pat)"
    using elements_iff [OF assms(1,2), of k] lt assms(4) take by simp
  ultimately show ?thesis using that take by blast
qed

subsection \<open>Subscribing and claiming\<close>

lemma subscribe_facts:
  "get_sub (fst (subscribe s q p)) r = (if r = q then Some (snd (subscribe s q p)) else get_sub s r)"
  "patterns (fst (subscribe s q p)) = patterns s" "next_index (fst (subscribe s q p)) = next_index s"
  "available (fst (subscribe s q p)) = available s"
  "distinct (map fst (subs s)) \<Longrightarrow> distinct (map fst (subs (fst (subscribe s q p))))"
  "get_sub s q = None \<Longrightarrow> handles (snd (subscribe s q p)) = 0 \<and> \<not> permit (snd (subscribe s q p))"
  "get_sub s q = Some e \<Longrightarrow> snd (subscribe s q p) = e"
  by (auto simp: subscribe_def sub_new_def sub_default_def Let_def get_sub_def put_sub_def update_conv'
      distinct_update split: option.splits prod.splits if_splits)

lemma permits_subscribe:
  assumes "distinct (map fst (subs s))"
  shows "permits (subs (fst (subscribe s q p))) = permits (subs s)"
proof (cases "get_sub s q")
  case None
  let ?f = "s\<lparr>fresh := snd (sub_new (case map_of (patterns s) p of None \<Rightarrow> False | Some n \<Rightarrow> declared n) (fresh s))\<rparr>"
  have sub: "fst (subscribe s q p) = put_sub q (snd (subscribe s q p)) ?f"
    using None by (simp add: subscribe_def Let_def split: prod.splits)
  have "get_sub ?f q = None" using None by (simp add: get_sub_def)
  with permits_put [of ?f q "snd (subscribe s q p)"] assms subscribe_facts(6) [OF None, of p]
  show ?thesis unfolding sub by simp
next
  case (Some e)
  then show ?thesis by (simp add: subscribe_def Let_def)
qed

text \<open>What claiming the element at position \<open>k\<close> changes.\<close>

definition claimed_sub :: "path \<Rightarrow> pattern \<Rightarrow> nat \<Rightarrow> subscriptions \<Rightarrow> subscription" where
  "claimed_sub path pat k s =
    (let e = snd (subscribe s (take (Suc k) path) (take (Suc k) pat))
     in e\<lparr>handles := handles e + 1, permit := False\<rparr>)"

lemma claim_facts:
  "get_sub (claim_element path pat k s) r =
    (if r = take (Suc k) path then Some (claimed_sub path pat k s) else get_sub s r)"
  "map_of (next_index (claim_element path pat k s)) b =
    (if b = take k path then Some (max (next_of s b) (saturating_add (path ! k) 1))
     else map_of (next_index s) b)"
  "patterns (claim_element path pat k s) = patterns s"
  "distinct (map fst (subs s)) \<Longrightarrow> distinct (map fst (subs (claim_element path pat k s)))"
proof -
  obtain s1 e where sub: "subscribe s (take (Suc k) path) (take (Suc k) pat) = (s1, e)" by fastforce
  note F = subscribe_facts [where s = s and q = "take (Suc k) path" and p = "take (Suc k) pat", unfolded sub fst_conv snd_conv]
  have nx: "next_of s1 b = next_of s b" for b using F(3) by (simp add: next_of_def)
  show "get_sub (claim_element path pat k s) r =
    (if r = take (Suc k) path then Some (claimed_sub path pat k s) else get_sub s r)"
    using F(1) by (simp add: claim_element_def sub claimed_sub_def get_sub_def put_sub_def update_conv' Let_def)
  show "map_of (next_index (claim_element path pat k s)) b =
    (if b = take k path then Some (max (next_of s b) (saturating_add (path ! k) 1))
     else map_of (next_index s) b)"
    using F(3) by (simp add: claim_element_def sub nx update_conv' Let_def)
  show "patterns (claim_element path pat k s) = patterns s"
    using F(2) by (simp add: claim_element_def sub Let_def)
  show "distinct (map fst (subs s)) \<Longrightarrow> distinct (map fst (subs (claim_element path pat k s)))"
    using F(5) by (simp add: claim_element_def sub Let_def)
qed

lemma permit_inv_claim:
  assumes "permit_inv h s" and "distinct (map fst (subs s))"
  shows "permit_inv h (claim_element path pat k s)"
proof -
  obtain s1 e where sub: "subscribe s (take (Suc k) path) (take (Suc k) pat) = (s1, e)" by fastforce
  note F = subscribe_facts [where s = s and q = "take (Suc k) path" and p = "take (Suc k) pat", unfolded sub fst_conv snd_conv]
  let ?e = "e\<lparr>handles := handles e + 1, permit := False\<rparr>"
  have "permits (subs s1) = permits (subs s)"
    using permits_subscribe [OF assms(2), of "take (Suc k) path" "take (Suc k) pat"] by (simp add: sub)
  moreover have "permits (subs (put_sub (take (Suc k) path) ?e (drop_permits [e] s1))) + of_bool (permit e) =
      permits (subs s1)"
    using permits_put [of "drop_permits [e] s1" "take (Suc k) path" ?e] F(1) F(5) [OF assms(2)] by simp
  ultimately show ?thesis
    using assms(1) F(4) by (auto simp: permit_inv_def claim_element_def sub Let_def)
qed

lemma claim_same_patterns [simp]:
  "resolve (claim_element path pat k s) = resolve s"
  "is_element (claim_element path pat k s) = is_element s"
  by (auto intro!: ext resolve_patterns is_element_patterns simp: claim_facts)

lemma next_of_claim:
  "next_of (claim_element path pat k s) b =
    (if b = take k path then max (next_of s b) (saturating_add (path ! k) 1) else next_of s b)"
  by (simp add: next_of_def claim_facts)

lemma saturating_Suc: "i < usize_max \<Longrightarrow> saturating_add i 1 = Suc i"
  by (simp add: saturating_add_def)

lemma element_parts:
  assumes "declares P s" and "resolve s path = Some (n, pat)" and "k \<in> set (elements pat)"
  shows "is_element s (take (Suc k) path)" "k < length path"
    "butlast (take (Suc k) path) = take k path" "last (take (Suc k) path) = path ! k"
  using elements_iff [OF assms(1,2), of k] assms(3)
  by (auto simp: take_Suc_conv_app_nth)

lemma claim_inv:
  assumes inv: "subs_inv P s" and res: "resolve s path = Some (n, pat)" and k: "k \<in> set (elements pat)"
    and small: "path ! k < usize_max"
    and earlier: "\<And>j. j \<in> set (elements pat) \<Longrightarrow> j < k \<Longrightarrow> claimed s (take (Suc j) path)"
    and skipped: "\<And>r e. get_sub s r = Some e \<Longrightarrow> is_element s r \<Longrightarrow> butlast r = take k path \<Longrightarrow>
      handles e = 0 \<Longrightarrow> path ! k \<le> last r"
  shows "subs_inv P (claim_element path pat k s)"
proof (rule subs_invI)
  let ?s = "claim_element path pat k s" and ?q = "take (Suc k) path"
  note D = subs_invD [OF inv] and E = element_parts [OF subs_invD(1) [OF inv] res k]
  note N = next_of_claim [of path pat k s, unfolded saturating_Suc [OF small]]
  have new: "handles (claimed_sub path pat k s) > 0" "\<not> permit (claimed_sub path pat k s)"
    by (simp_all add: claimed_sub_def Let_def)
  have mono: "claimed ?s r" if "claimed s r" for r
    using that new by (simp add: claimed_def claim_facts split: option.splits)
  have cl: "claimed s r \<or> r = ?q" if "prefix r ?q" "is_element s r" for r
  proof -
    have "prefix r path" using that(1) by (meson prefix_order.trans take_is_prefix)
    from element_prefix [OF D(1) res this that(2)] obtain j where
      j: "j \<in> set (elements pat)" "r = take (Suc j) path" by metis
    have "length r \<le> Suc k" using prefix_length_le [OF that(1)] by simp
    then have "j \<le> k" using j E(2) elements_iff [OF D(1) res, of j] by simp
    with earlier [OF j(1)] j(2) show ?thesis by (cases "j = k") auto
  qed
  show "declares P ?s" using D(1) by (rule declares_patterns) (simp add: claim_facts)
  show "distinct (map fst (subs ?s))" using D(2) by (rule claim_facts)
  show "resolve ?s r \<noteq> None" if "get_sub ?s r = Some e" for r e
    using that D(3) [of r e] E(1) by (auto simp: claim_facts is_element_def split: if_splits option.splits)
  show "\<exists>e'. get_sub ?s r = Some e'" if "get_sub ?s p = Some e" "prefix r p" "is_element ?s r" for p e r
  proof (cases "p = ?q")
    case True
    with cl [of r] that show ?thesis by (auto simp: claim_facts claimed_def split: option.splits)
  next
    case False
    with that D(4) [of p e r] show ?thesis by (auto simp: claim_facts)
  qed
  show "claimed ?s r" if "map_of (next_index ?s) b = Some i" "prefix r b" "is_element ?s r" for b i r
  proof (cases "b = take k path")
    case True
    have "prefix r ?q" using that(2) True
      by (metis E(3) append_butlast_last_id butlast.simps(1) prefix_def prefix_order.trans)
    moreover have "r \<noteq> ?q" using prefix_length_le [OF that(2)] True E(2) by auto
    ultimately show ?thesis using cl [of r] that(3) mono by auto
  next
    case False
    with that D(5) [of b i r] mono show ?thesis by (simp add: claim_facts)
  qed
  show "permit e = (handles e = 0)" if "get_sub ?s r = Some e" "is_element ?s r" for r e
    using that D(6) [of r e] new by (auto simp: claim_facts split: if_splits)
  show "handles e > 0 \<longleftrightarrow> last r < next_of ?s (butlast r)" if "get_sub ?s r = Some e" "is_element ?s r" for r e
  proof (cases "r = ?q")
    case True
    with that new E show ?thesis by (auto simp: claim_facts N)
  next
    case False
    with that have e: "get_sub s r = Some e" and el: "is_element s r" by (simp_all add: claim_facts)
    show ?thesis
    proof (cases "butlast r = take k path")
      case True
      have "r \<noteq> []" using el by (auto simp: is_element_def resolve_iff [OF D(1)] matches_def split: option.splits)
      then have "last r \<noteq> path ! k"
        using False True E by (metis append_butlast_last_id take_Suc_conv_app_nth)
      with D(7) [OF e el] skipped [OF e el True] True show ?thesis by (auto simp: N)
    next
      case False
      with D(7) [OF e el] show ?thesis by (simp add: N)
    qed
  qed
  show "\<not> permit e \<and> handles e = 0" if "get_sub ?s r = Some e" "\<not> is_element ?s r" for r e
    using that D(8) [of r e] E(1) by (auto simp: claim_facts split: if_splits)
qed

lemma elements_sorted: "elements pat = ds @ k # ks \<Longrightarrow> j \<in> set (elements pat) \<Longrightarrow> j < k \<Longrightarrow> j \<in> set ds"
proof -
  assume eq: "elements pat = ds @ k # ks" and j: "j \<in> set (elements pat)" "j < k"
  have "sorted (elements pat)" by (simp add: elements_def sorted_wrt_filter)
  with eq j show ?thesis by (auto simp: sorted_append)
qed

definition skipped_before :: "subscriptions \<Rightarrow> path \<Rightarrow> nat \<Rightarrow> bool" where
  "skipped_before s path k \<longleftrightarrow>
    (\<forall>r e. get_sub s r = Some e \<longrightarrow> is_element s r \<longrightarrow> butlast r = take k path \<longrightarrow> handles e = 0 \<longrightarrow>
      path ! k \<le> last r)"

lemma claims_inv:
  assumes "elements pat = ds @ ks" and "subs_inv P s" and "resolve s path = Some (n, pat)"
    and "\<forall>i \<in> set path. i < usize_max" and "\<forall>j \<in> set ds. claimed s (take (Suc j) path)"
    and "\<forall>k \<in> set ks. skipped_before s path k"
  shows "subs_inv P (fold (claim_element path pat) ks s) \<and>
    (\<forall>j \<in> set (elements pat). claimed (fold (claim_element path pat) ks s) (take (Suc j) path))"
  using assms
proof (induction ks arbitrary: ds s)
  case (Cons k ks)
  have k: "k \<in> set (elements pat)" using Cons.prems(1) by simp
  note E = element_parts [OF subs_invD(1) [OF Cons.prems(2)] Cons.prems(3) k]
  let ?s = "claim_element path pat k s"
  have inv: "subs_inv P ?s"
  proof (rule claim_inv [OF Cons.prems(2,3) k])
    show "path ! k < usize_max" using Cons.prems(4) E(2) by simp
    show "claimed s (take (Suc j) path)" if "j \<in> set (elements pat)" "j < k" for j
      using Cons.prems(5) elements_sorted [OF Cons.prems(1) that] by blast
    show "path ! k \<le> last r" if "get_sub s r = Some e" "is_element s r" "butlast r = take k path" "handles e = 0" for r e
      using Cons.prems(6) that by (auto simp: skipped_before_def)
  qed
  have "claimed ?s (take (Suc j) path)" if "j \<in> set (ds @ [k])" for j
    using that Cons.prems(5) by (auto simp: claimed_def claim_facts claimed_sub_def Let_def)
  moreover have "skipped_before ?s path j" if "j \<in> set ks" for j
    using that Cons.prems(6) by (auto simp: skipped_before_def claim_facts claimed_sub_def Let_def)
  ultimately show ?case
    using Cons.IH [of "ds @ [k]" ?s] inv Cons.prems(1,3,4) by auto
qed auto

lemma claims_permit:
  "permit_inv h s \<Longrightarrow> distinct (map fst (subs s)) \<Longrightarrow>
    permit_inv h (fold (claim_element path pat) ks s) \<and>
    distinct (map fst (subs (fold (claim_element path pat) ks s)))"
  by (induction ks arbitrary: s) (simp_all add: permit_inv_claim claim_facts)

lemma put_same_inv:
  assumes inv: "subs_inv P s" and e: "get_sub s p = Some e" and same: "(handles e' = 0) = (handles e = 0)" "permit e' = permit e"
  shows "subs_inv P (put_sub p e' s)"
proof (rule subs_invI)
  note D = subs_invD [OF inv]
  show "declares P (put_sub p e' s)" using D(1) by (rule declares_patterns) simp
  show "distinct (map fst (subs (put_sub p e' s)))" using D(2) by simp
  show "resolve (put_sub p e' s) q \<noteq> None" if "get_sub (put_sub p e' s) q = Some x" for q x
    using that D(3) [OF e] D(3) [of q x] by (auto split: if_splits)
  show "\<exists>y. get_sub (put_sub p e' s) q = Some y"
    if "get_sub (put_sub p e' s) r = Some x" "prefix q r" "is_element (put_sub p e' s) q" for q r x
    using that D(4) [OF e] D(4) [of r x q] by (auto split: if_splits)
  show "claimed (put_sub p e' s) q"
    if "map_of (next_index (put_sub p e' s)) b = Some i" "prefix q b" "is_element (put_sub p e' s) q" for b i q
    using that D(5) [of b i q] e same by (auto simp: claimed_def)
  show "permit x = (handles x = 0)" if "get_sub (put_sub p e' s) q = Some x" "is_element (put_sub p e' s) q" for q x
    using that D(6) [OF e] D(6) [of q x] same by (auto split: if_splits)
  show "handles x > 0 \<longleftrightarrow> last q < next_of (put_sub p e' s) (butlast q)"
    if "get_sub (put_sub p e' s) q = Some x" "is_element (put_sub p e' s) q" for q x
    using that D(7) [OF e] D(7) [of q x] same by (auto split: if_splits)
  show "\<not> permit x \<and> handles x = 0" if "get_sub (put_sub p e' s) q = Some x" "\<not> is_element (put_sub p e' s) q" for q x
    using that D(8) [OF e] D(8) [of q x] same by (simp split: if_splits)
qed

text \<open>A new entry at a position that is no element, or at an element that is not released.\<close>

lemma subscribe_inv:
  assumes inv: "subs_inv P s" and res: "resolve s p = Some (n, pat)"
    and pre: "\<And>q. prefix q p \<Longrightarrow> is_element s q \<Longrightarrow> q \<noteq> p \<Longrightarrow> get_sub s q \<noteq> None"
    and elem: "is_element s p \<Longrightarrow> get_sub s p = None \<Longrightarrow> \<not> last p < next_of s (butlast p)"
  shows "subs_inv P (put_sub p ((snd (subscribe s p pat))
    \<lparr>permit := (permit (snd (subscribe s p pat)) \<or> get_sub s p = None \<and> is_element s p)\<rparr>) (fst (subscribe s p pat)))"
    (is "subs_inv P (put_sub p ?e ?s)")
proof (cases "get_sub s p")
  case (Some e)
  then have "?s = s" "?e = e" by (simp_all add: subscribe_def Let_def)
  with put_same_inv [OF inv Some, of e] show ?thesis by simp
next
  case None
  note D = subs_invD [OF inv]
  note F = subscribe_facts [where s = s and q = p and p = pat]
  have e: "handles ?e = 0" "permit ?e = is_element s p" using F(6) [OF None] None by auto
  have get: "get_sub (put_sub p ?e ?s) q = (if q = p then Some ?e else get_sub s q)" for q
    using F(1) by simp
  have same: "resolve ?s = resolve s" "is_element ?s = is_element s" "next_of ?s = next_of s"
    using F(2,3) by (auto intro!: ext resolve_patterns is_element_patterns simp: next_of_def)
  show ?thesis
  proof (rule subs_invI)
    show "declares P (put_sub p ?e ?s)" using D(1) by (rule declares_patterns) (simp add: F)
    show "distinct (map fst (subs (put_sub p ?e ?s)))" using F(5) [OF D(2)] by (rule distinct_put)
    show "resolve (put_sub p ?e ?s) q \<noteq> None" if "get_sub (put_sub p ?e ?s) q = Some x" for q x
      using that res D(3) [of q x] unfolding get by (auto simp: same split: if_splits)
    show "\<exists>y. get_sub (put_sub p ?e ?s) q = Some y"
      if "get_sub (put_sub p ?e ?s) r = Some x" "prefix q r" "is_element (put_sub p ?e ?s) q" for q r x
      using that pre [of q] D(4) [of r x q] unfolding get by (auto simp: same split: if_splits)
    show "claimed (put_sub p ?e ?s) q"
      if "map_of (next_index (put_sub p ?e ?s)) b = Some i" "prefix q b" "is_element (put_sub p ?e ?s) q" for b i q
      using that D(5) [of b i q] None unfolding claimed_def get by (auto simp: same F split: if_splits)
    show "permit x = (handles x = 0)"
      if "get_sub (put_sub p ?e ?s) q = Some x" "is_element (put_sub p ?e ?s) q" for q x
      using that D(6) [of q x] e unfolding get by (auto simp: same split: if_splits)
    show "handles x > 0 \<longleftrightarrow> last q < next_of (put_sub p ?e ?s) (butlast q)"
      if "get_sub (put_sub p ?e ?s) q = Some x" "is_element (put_sub p ?e ?s) q" for q x
      using that D(7) [of q x] e elem None unfolding get by (auto simp: same split: if_splits)
    show "\<not> permit x \<and> handles x = 0"
      if "get_sub (put_sub p ?e ?s) q = Some x" "\<not> is_element (put_sub p ?e ?s) q" for q x
      using that D(8) [of q x] e unfolding get by (auto simp: same split: if_splits)
  qed
qed

lemma permit_inv_put:
  assumes "permit_inv h s" and "distinct (map fst (subs s))" and "get_sub s p = Some e" and "permit e' = permit e"
  shows "permit_inv h (put_sub p e' s)"
  using permits_put [OF assms(2), of p e'] assms by (simp add: permit_inv_def)

lemma permit_inv_subscribe:
  "permit_inv h s \<Longrightarrow> distinct (map fst (subs s)) \<Longrightarrow> permit_inv h (fst (subscribe s p pat))"
  by (simp add: permit_inv_def permits_subscribe subscribe_facts)

lemma subscribe_plain_inv:
  assumes inv: "subs_inv P s" and res: "resolve s p = Some (n, pat)"
    and pre: "\<And>q. prefix q p \<Longrightarrow> is_element s q \<Longrightarrow> get_sub s q \<noteq> None"
    and e': "handles e' = handles (snd (subscribe s p pat))" "permit e' = permit (snd (subscribe s p pat))"
  shows "subs_inv P (put_sub p e' (fst (subscribe s p pat)))"
proof -
  let ?s = "fst (subscribe s p pat)" and ?e = "snd (subscribe s p pat)"
  have "subs_inv P (put_sub p (?e\<lparr>permit := (permit ?e \<or> get_sub s p = None \<and> is_element s p)\<rparr>) ?s)"
    using subscribe_inv [OF inv res] pre by blast
  moreover have "\<not> (get_sub s p = None \<and> is_element s p)" using pre [of p] by auto
  ultimately have "subs_inv P (put_sub p ?e ?s)" by (cases ?e) (simp del: get_sub_put)
  moreover have "get_sub (put_sub p ?e ?s) p = Some ?e" by simp
  ultimately have inv': "subs_inv P (put_sub p e' (put_sub p ?e ?s))"
    by (rule put_same_inv) (simp_all add: e')
  show ?thesis
    by (rule subs_inv_cong [OF inv']) (simp_all add: subscribe_facts subs_invD(2) [OF inv])
qed

definition claim_all :: "path \<Rightarrow> pattern \<Rightarrow> subscriptions \<Rightarrow> subscriptions" where
  "claim_all path pat = fold (claim_element path pat) (elements pat)"

definition blocked :: "subscriptions \<Rightarrow> path \<Rightarrow> pattern_node \<Rightarrow> pattern \<Rightarrow> bool" where
  "blocked s path n pat \<longleftrightarrow>
    (\<exists>k \<in> set (elements pat). get_sub s (take (Suc k) path) = None \<and> path ! k < next_of s (take k path)) \<or>
    declared n \<and> wildcard n = None \<and> (\<exists>sub. get_sub s path = Some sub \<and> rx sub = None)"

lemma take_rx_eq:
  "resolve s path = Some (n, pat) \<Longrightarrow> take_rx s path =
    (if blocked s path n pat then (s, None)
     else if \<not> declared n then (claim_all path pat s, Some None)
     else (put_sub path ((snd (subscribe (claim_all path pat s) path pat))\<lparr>rx := None\<rparr>)
             (fst (subscribe (claim_all path pat s) path pat)),
           Some (rx (snd (subscribe (claim_all path pat s) path pat)))))"
  by (auto simp: take_rx_def blocked_def claim_all_def Let_def case_prod_beta list_ex_iff split: option.splits)

lemma take_rx_inv:
  assumes inv: "subs_inv P s" and small: "\<forall>i \<in> set path. i < usize_max"
    and skip: "\<And>n pat k. resolve s path = Some (n, pat) \<Longrightarrow> k \<in> set (elements pat) \<Longrightarrow> skipped_before s path k"
  shows "subs_inv P (fst (take_rx s path))"
proof (cases "resolve s path")
  case None
  with inv show ?thesis by (simp add: take_rx_def)
next
  case (Some r)
  obtain n pat where r: "resolve s path = Some (n, pat)" using Some by (cases r) auto
  let ?s = "fold (claim_element path pat) (elements pat) s"
  from claims_inv [of pat "[]" "elements pat" P s path n] inv r small skip [OF r]
  have fin: "subs_inv P ?s" and cl: "\<forall>j \<in> set (elements pat). claimed ?s (take (Suc j) path)" by auto
  have same: "resolve ?s = resolve s" "is_element ?s = is_element s"
  proof -
    have "resolve (fold (claim_element path pat) ks t) = resolve t \<and>
        is_element (fold (claim_element path pat) ks t) = is_element t" for ks t
      by (induction ks arbitrary: t) simp_all
    then show "resolve ?s = resolve s" "is_element ?s = is_element s" by blast+
  qed
  have "get_sub ?s q \<noteq> None" if "prefix q path" "is_element ?s q" for q
  proof -
    from element_prefix [OF subs_invD(1) [OF inv] r that(1)] that(2) same
    obtain k where "k \<in> set (elements pat)" "q = take (Suc k) path" by metis
    with cl show ?thesis by (auto simp: claimed_def split: option.splits)
  qed
  then have "subs_inv P (put_sub path ((snd (subscribe ?s path pat))\<lparr>rx := None\<rparr>) (fst (subscribe ?s path pat)))"
    using subscribe_plain_inv [OF fin, of path n pat] r same by simp
  with inv fin show ?thesis by (simp add: take_rx_eq [OF r] claim_all_def)
qed

lemma take_rx_permit:
  assumes "permit_inv h s" and "distinct (map fst (subs s))"
  shows "permit_inv h (fst (take_rx s path))"
proof (cases "resolve s path")
  case None
  with assms show ?thesis by (simp add: take_rx_def)
next
  case (Some r)
  obtain n pat where r: "resolve s path = Some (n, pat)" using Some by (cases r) auto
  let ?s = "fold (claim_element path pat) (elements pat) s"
  note C = claims_permit [OF assms, of path pat "elements pat"]
  have "permit_inv h (fst (subscribe ?s path pat))" using C by (blast intro: permit_inv_subscribe)
  moreover have "distinct (map fst (subs (fst (subscribe ?s path pat))))"
    using C by (blast intro: subscribe_facts)
  moreover have "get_sub (fst (subscribe ?s path pat)) path = Some (snd (subscribe ?s path pat))"
    by (simp add: subscribe_facts)
  ultimately have "permit_inv h (put_sub path ((snd (subscribe ?s path pat))\<lparr>rx := None\<rparr>) (fst (subscribe ?s path pat)))"
    by (rule permit_inv_put) simp
  with assms C show ?thesis by (simp add: take_rx_eq [OF r] claim_all_def)
qed

subsection \<open>Skipping\<close>

definition remove_all :: "(chan \<Rightarrow> bool) \<Rightarrow> path list \<Rightarrow> subscriptions \<times> bool \<Rightarrow> subscriptions \<times> bool" where
  "remove_all pd = fold (\<lambda>p (s, b). let (s, b') = remove_sub pd p s in (s, b \<or> b'))"

lemma remove_all_simps [simp]:
  "remove_all pd [] st = st"
  "remove_all pd (p # ps) (s, b) =
    remove_all pd ps (fst (remove_sub pd p s), b \<or> snd (remove_sub pd p s))"
  by (simp_all add: remove_all_def Let_def split: prod.splits)

lemma remove_all_facts:
  "get_sub (fst (remove_all pd ps (s, b))) q = (if \<exists>p \<in> set ps. prefix p q then None else get_sub s q)"
  "patterns (fst (remove_all pd ps (s, b))) = patterns s"
  "subs_inv P s \<Longrightarrow> subs_inv P (fst (remove_all pd ps (s, b)))"
  "permit_inv h s \<Longrightarrow> permit_inv h (fst (remove_all pd ps (s, b)))"
  "next_of (fst (remove_all pd ps (s, b))) c = (if \<exists>p \<in> set ps. prefix p c then 0 else next_of s c)"
  by (induction ps arbitrary: s b) (auto simp: remove_inv permit_inv_remove)

lemma skip_element_eq:
  "skip_element pd path k (s, b) =
    (if next_of s (take k path) \<ge> path ! k then (s, b)
     else remove_all pd (map fst (filter (\<lambda>(p, sub). length p = k + 1 \<and> take k p = take k path \<and>
             next_of s (take k path) \<le> p ! k \<and> p ! k < path ! k \<and> handles sub = 0) (subs s))) (s, b))"
  by (simp add: skip_element_def remove_all_def)

lemma skip_element_facts:
  assumes "subs_inv P s" and "permit_inv h s"
  shows "subs_inv P (fst (skip_element pd path k (s, b)))"
    and "permit_inv h (fst (skip_element pd path k (s, b)))"
    and "patterns (fst (skip_element pd path k (s, b))) = patterns s"
    and "get_sub (fst (skip_element pd path k (s, b))) q = Some e \<Longrightarrow> get_sub s q = Some e"
    and "k < length path \<Longrightarrow> skipped_before (fst (skip_element pd path k (s, b))) path k"
proof -
  let ?s = "fst (skip_element pd path k (s, b))"
  show "subs_inv P ?s" "permit_inv h ?s" "patterns ?s = patterns s"
    using assms by (simp_all add: skip_element_eq remove_all_facts)
  show sub: "get_sub ?s q = Some e \<Longrightarrow> get_sub s q = Some e" for q e
    by (auto simp: skip_element_eq remove_all_facts split: if_splits)
  have el: "is_element ?s = is_element s"
    by (intro ext is_element_patterns) (simp add: skip_element_eq remove_all_facts)
  show "skipped_before ?s path k" if "k < length path"
    unfolding skipped_before_def
  proof (intro allI impI, rule ccontr)
    fix r e
    assume r: "get_sub ?s r = Some e" "is_element ?s r" "butlast r = take k path" "handles e = 0"
      and less: "\<not> path ! k \<le> last r"
    have e: "get_sub s r = Some e" and rel: "is_element s r" using sub [OF r(1)] r(2) el by auto
    from subs_invD(7) [OF assms(1) e rel] r have nx: "next_of s (take k path) \<le> last r" by simp
    have ne: "r \<noteq> []"
      using rel subs_invD(1) [OF assms(1)]
      by (auto simp: is_element_def resolve_iff matches_def split: option.splits)
    then have rr: "r = take k path @ [last r]" using r(3) by (metis append_butlast_last_id)
    have "length r = k + 1 \<and> take k r = take k path \<and> r ! k = last r"
      using that by (subst (1 2 3) rr) (simp add: nth_append min_def)
    moreover define L where "L = map fst (filter (\<lambda>(p, sub). length p = k + 1 \<and> take k p = take k path \<and>
             next_of s (take k path) \<le> p ! k \<and> p ! k < path ! k \<and> handles sub = 0) (subs s))"
    ultimately have "r \<in> set L"
      using e nx less r(4) by (force simp: get_sub_def dest: map_of_SomeD)
    moreover have "?s = fst (remove_all pd L (s, b))"
      using nx less by (simp add: skip_element_eq L_def)
    ultimately have "get_sub ?s r = None" using remove_all_facts(1) [of pd L s b r] by auto
    with r(1) show False by simp
  qed
qed

lemma skip_fold:
  assumes "subs_inv P s" and "permit_inv h s" and "\<forall>k \<in> set ks. k < length path"
  shows "subs_inv P (fst (fold (skip_element pd path) ks (s, b))) \<and>
    permit_inv h (fst (fold (skip_element pd path) ks (s, b))) \<and>
    patterns (fst (fold (skip_element pd path) ks (s, b))) = patterns s \<and>
    (\<forall>q e. get_sub (fst (fold (skip_element pd path) ks (s, b))) q = Some e \<longrightarrow> get_sub s q = Some e) \<and>
    (\<forall>k \<in> set ks. skipped_before (fst (fold (skip_element pd path) ks (s, b))) path k)"
  using assms
proof (induction ks arbitrary: s b)
  case (Cons k ks)
  obtain s1 b1 where st: "skip_element pd path k (s, b) = (s1, b1)" by fastforce
  note F = skip_element_facts [OF Cons.prems(1,2), where pd = pd and path = path and k = k and b = b, unfolded st fst_conv]
  from Cons.IH [OF F(1,2), of b1] Cons.prems(3)
  have IH: "subs_inv P (fst (fold (skip_element pd path) ks (s1, b1)))"
    "permit_inv h (fst (fold (skip_element pd path) ks (s1, b1)))"
    "patterns (fst (fold (skip_element pd path) ks (s1, b1))) = patterns s1"
    "\<And>q e. get_sub (fst (fold (skip_element pd path) ks (s1, b1))) q = Some e \<Longrightarrow> get_sub s1 q = Some e"
    "\<forall>k \<in> set ks. skipped_before (fst (fold (skip_element pd path) ks (s1, b1))) path k"
    by auto
  have "is_element (fst (fold (skip_element pd path) ks (s1, b1))) r = is_element s1 r" for r
    by (rule is_element_patterns [OF IH(3)])
  with F(5) IH(4) Cons.prems(3) have "skipped_before (fst (fold (skip_element pd path) ks (s1, b1))) path k"
    unfolding skipped_before_def by auto
  with IH F(3,4) show ?case by (auto simp: st)
qed simp

lemma skip_facts:
  assumes inv: "subs_inv P s" and pm: "permit_inv h s"
  shows "subs_inv P (fst (skip pd s path)) \<and> permit_inv h (fst (skip pd s path)) \<and>
    patterns (fst (skip pd s path)) = patterns s \<and>
    (\<forall>q e. get_sub (fst (skip pd s path)) q = Some e \<longrightarrow> get_sub s q = Some e) \<and>
    (\<forall>n pat. resolve s path = Some (n, pat) \<longrightarrow>
      (\<forall>k \<in> set (elements pat). skipped_before (fst (skip pd s path)) path k))"
proof (cases "resolve s path")
  case None
  with assms show ?thesis by (simp add: skip_def)
next
  case (Some r)
  obtain n pat where r: "resolve s path = Some (n, pat)" using Some by (cases r) auto
  have "\<forall>k \<in> set (elements pat). k < length path"
    using elements_iff [OF subs_invD(1) [OF inv] r] by simp
  from skip_fold [OF inv pm this, of pd False] r show ?thesis by (simp add: skip_def)
qed

subsection \<open>Routing\<close>

lemma subscribe_element:
  assumes inv: "subs_inv P s" and res: "resolve s path = Some (n, pat)" and k: "k \<in> set (elements pat)"
    and none: "get_sub s (take (Suc k) path) = None" and nx: "\<not> path ! k < next_of s (take k path)"
    and earlier: "\<And>j. j \<in> set (elements pat) \<Longrightarrow> j < k \<Longrightarrow> get_sub s (take (Suc j) path) \<noteq> None"
  defines "q \<equiv> take (Suc k) path" and "e \<equiv> snd (subscribe s (take (Suc k) path) (take (Suc k) pat))"
    and "s' \<equiv> fst (subscribe s (take (Suc k) path) (take (Suc k) pat))"
  shows "subs_inv P (put_sub q (e\<lparr>permit := True\<rparr>) s')"
    and "permit_inv (Suc h) s \<Longrightarrow> permit_inv h (put_sub q (e\<lparr>permit := True\<rparr>) s')"
    and "get_sub (put_sub q (e\<lparr>permit := True\<rparr>) s') r = (if r = q then Some (e\<lparr>permit := True\<rparr>) else get_sub s r)"
proof -
  note D = subs_invD [OF inv]
  note E = element_parts [OF D(1) res k]
  obtain n' where res': "resolve s q = Some (n', take (Suc k) pat)"
    using resolve_take [OF D(1) res] unfolding q_def by blast
  have "get_sub s r \<noteq> None" if "prefix r q" "is_element s r" "r \<noteq> q" for r
  proof -
    have "prefix r path" using that(1) unfolding q_def by (meson prefix_order.trans take_is_prefix)
    from element_prefix [OF D(1) res this that(2)] obtain j where
      j: "j \<in> set (elements pat)" "r = take (Suc j) path" by metis
    have "length r < length q" using that(1,3) by (metis prefix_length_less strict_prefix_def)
    then have "j < k" using j E(2) elements_iff [OF D(1) res, of j] unfolding q_def by simp
    with earlier j show ?thesis by blast
  qed
  from subscribe_inv [OF inv res' this] E nx none
  show "subs_inv P (put_sub q (e\<lparr>permit := True\<rparr>) s')"
    unfolding q_def e_def s'_def by simp
  have dist: "distinct (map fst (subs s'))" unfolding s'_def using D(2) by (rule subscribe_facts)
  have get: "get_sub s' q = Some e" unfolding s'_def e_def q_def by (simp add: subscribe_facts)
  have "\<not> permit e" unfolding e_def using subscribe_facts(6) [OF none] by blast
  with permits_put [OF dist, of q "e\<lparr>permit := True\<rparr>"] get
  have "permits (subs (put_sub q (e\<lparr>permit := True\<rparr>) s')) = Suc (permits (subs s'))" by simp
  moreover have "permit_inv (Suc h) s \<Longrightarrow> permit_inv (Suc h) s'"
    unfolding s'_def using D(2) by (blast intro: permit_inv_subscribe)
  ultimately show "permit_inv (Suc h) s \<Longrightarrow> permit_inv h (put_sub q (e\<lparr>permit := True\<rparr>) s')"
    by (simp add: permit_inv_def)
  show "get_sub (put_sub q (e\<lparr>permit := True\<rparr>) s') r = (if r = q then Some (e\<lparr>permit := True\<rparr>) else get_sub s r)"
    unfolding s'_def q_def by (simp add: subscribe_facts)
qed

lemma subscribe_same [simp]:
  "resolve (fst (subscribe s p pat)) = resolve s" "is_element (fst (subscribe s p pat)) = is_element s"
  "next_of (fst (subscribe s p pat)) = next_of s"
  by (auto intro!: ext resolve_patterns is_element_patterns simp: subscribe_facts next_of_def)

lemma route_elements_facts:
  assumes "elements pat = ds @ ks" and "subs_inv P s" and "permit_inv (of_bool pm) s"
    and "resolve s path = Some (n, pat)" and "\<forall>j \<in> set ds. get_sub s (take (Suc j) path) \<noteq> None"
    and "route_elements path pat ks s pm = (s', pm', r)"
  shows "subs_inv P s' \<and> permit_inv (of_bool pm') s' \<and> patterns s' = patterns s \<and> next_index s' = next_index s \<and>
    (\<forall>q e. get_sub s q = Some e \<longrightarrow> get_sub s' q = Some e) \<and>
    (r = None \<longrightarrow> (\<forall>j \<in> set (elements pat). get_sub s' (take (Suc j) path) \<noteq> None)) \<and>
    (\<forall>q. get_sub s q = None \<and> get_sub s' q \<noteq> None \<longrightarrow> is_element s q \<and> \<not> last q < next_of s (butlast q))"
  using assms
proof (induction ks arbitrary: ds s pm)
  case (Cons k ks)
  have k: "k \<in> set (elements pat)" using Cons.prems(1) by simp
  note E = element_parts [OF subs_invD(1) [OF Cons.prems(2)] Cons.prems(4) k]
  show ?case
  proof (cases "get_sub s (take (Suc k) path) \<noteq> None")
    case True
    with Cons.IH [of "ds @ [k]" s pm] Cons.prems show ?thesis by auto
  next
    case False
    show ?thesis
    proof (cases "path ! k < next_of s (take k path) \<or> \<not> pm")
      case True
      with False Cons.prems show ?thesis by (auto split: if_splits)
    next
      case step: False
      let ?q = "take (Suc k) path"
      let ?e = "snd (subscribe s ?q (take (Suc k) pat))" and ?t = "fst (subscribe s ?q (take (Suc k) pat))"
      let ?u = "put_sub ?q (?e\<lparr>permit := True\<rparr>) ?t"
      have early: "get_sub s (take (Suc j) path) \<noteq> None" if "j \<in> set (elements pat)" "j < k" for j
        using Cons.prems(5) elements_sorted [OF Cons.prems(1) that] by blast
      note S = subscribe_element [OF Cons.prems(2,4) k _ _ early]
      have inv: "subs_inv P ?u" using S(1) False step by auto
      have pmi: "permit_inv (of_bool False) ?u" using S(2) [where h = 0] False step Cons.prems(3) by auto
      have get: "get_sub ?u r = (if r = ?q then Some (?e\<lparr>permit := True\<rparr>) else get_sub s r)" for r
        by (simp add: subscribe_facts)
      have "route_elements path pat ks ?u False = (s', pm', r)"
        using Cons.prems(6) False step by (simp add: Let_def case_prod_beta)
      from Cons.IH [of "ds @ [k]", OF _ inv pmi _ _ this] Cons.prems(1,4,5)
      have IH: "subs_inv P s'" "permit_inv (of_bool pm') s'" "patterns s' = patterns s" "next_index s' = next_index s"
        "\<And>q e. get_sub ?u q = Some e \<Longrightarrow> get_sub s' q = Some e"
        "r = None \<longrightarrow> (\<forall>j \<in> set (elements pat). get_sub s' (take (Suc j) path) \<noteq> None)"
        "\<And>q. get_sub ?u q = None \<Longrightarrow> get_sub s' q \<noteq> None \<Longrightarrow> is_element s q \<and> \<not> last q < next_of s (butlast q)"
        unfolding get by (auto simp: subscribe_facts)
      have "is_element s q \<and> \<not> last q < next_of s (butlast q)" if "get_sub s q = None" "get_sub s' q \<noteq> None" for q
        using that IH(7) [of q] E step unfolding get by (cases "q = ?q") auto
      moreover have "get_sub s' q = Some e" if "get_sub s q = Some e" for q e
        using that IH(5) [of q e] False unfolding get by (cases "q = ?q") auto
      ultimately show ?thesis using IH by blast
    qed
  qed
qed auto

lemma route_cases:
  assumes "route s path pm = (s', pm', r)"
  obtains (same) "s' = s" "pm' = pm"
  | (stop) n pat r1 where "resolve s path = Some (n, pat)"
      "route_elements path pat (elements pat) s pm = (s', pm', Some r1)"
  | (finish) n pat s1 where "resolve s path = Some (n, pat)" "declared n"
      "route_elements path pat (elements pat) s pm = (s1, pm', None)" "s' = fst (subscribe s1 path pat)"
proof (cases "get_tx s path = None \<and> (\<exists>n pat. resolve s path = Some (n, pat) \<and> declared n)")
  case False
  with assms have "s' = s" "pm' = pm" by (auto simp: route_def split: option.splits if_splits)
  then show ?thesis by (rule same)
next
  case True
  then obtain n pat where r: "get_tx s path = None" "resolve s path = Some (n, pat)" "declared n" by blast
  obtain s1 p1 r1 where re: "route_elements path pat (elements pat) s pm = (s1, p1, r1)" by (metis prod_cases3)
  show ?thesis
  proof (cases r1)
    case None
    with r re assms have "s' = fst (subscribe s1 path pat)" "pm' = p1"
      by (simp_all add: route_def Let_def case_prod_beta)
    with finish r re None show ?thesis by simp
  next
    case (Some x)
    with r re assms have "s' = s1" "pm' = p1" by (simp_all add: route_def)
    with stop r re Some show ?thesis by simp
  qed
qed

lemma route_facts:
  assumes inv: "subs_inv P s" and pm: "permit_inv (of_bool pm) s" and rt: "route s path pm = (s', pm', r)"
  shows "subs_inv P s' \<and> permit_inv (of_bool pm') s' \<and> patterns s' = patterns s \<and> next_index s' = next_index s \<and>
    (\<forall>q. get_sub s q = None \<and> get_sub s' q \<noteq> None \<and> is_element s q \<longrightarrow> \<not> last q < next_of s (butlast q))"
  using rt
proof (cases rule: route_cases)
  case same
  with inv pm show ?thesis by auto
next
  case (stop n pat r1)
  from route_elements_facts [of pat "[]" "elements pat", OF _ inv pm stop(1) _ stop(2)]
  show ?thesis by simp
next
  case (finish n pat s1)
  from route_elements_facts [of pat "[]" "elements pat", OF _ inv pm finish(1) _ finish(3)]
  have F: "subs_inv P s1" "permit_inv (of_bool pm') s1" "patterns s1 = patterns s" "next_index s1 = next_index s"
    "\<forall>j \<in> set (elements pat). get_sub s1 (take (Suc j) path) \<noteq> None"
    "\<And>q. get_sub s q = None \<Longrightarrow> get_sub s1 q \<noteq> None \<Longrightarrow> \<not> last q < next_of s (butlast q)"
    by auto
  have same: "resolve s1 path = Some (n, pat)" "\<And>q. is_element s1 q = is_element s q"
    using resolve_patterns [OF F(3)] is_element_patterns [OF F(3)] finish(1) by simp_all
  have pre: "get_sub s1 q \<noteq> None" if "prefix q path" "is_element s1 q" for q
    using element_prefix [OF subs_invD(1) [OF F(1)] same(1) that] F(5) by metis
  have "subs_inv P (put_sub path (snd (subscribe s1 path pat)) (fst (subscribe s1 path pat)))"
    using subscribe_plain_inv [OF F(1) same(1) pre refl refl] .
  then have "subs_inv P s'"
    by (rule subs_inv_cong) (simp_all add: finish(4) subscribe_facts subs_invD(2) [OF F(1)])
  moreover have "permit_inv (of_bool pm') s'"
    using permit_inv_subscribe [OF F(2) subs_invD(2) [OF F(1)]] by (simp add: finish(4))
  moreover have "\<not> last q < next_of s (butlast q)"
    if q: "get_sub s q = None" "get_sub s' q \<noteq> None" "is_element s q" for q
  proof (cases "get_sub s1 q = None")
    case True
    with q have "q = path" by (auto simp: finish(4) subscribe_facts split: if_splits)
    with pre [of path] True q same(2) show ?thesis by simp
  qed (use F(6) q in blast)
  ultimately show ?thesis using F(3,4) by (simp add: finish(4) subscribe_facts)
qed

subsection \<open>Handles\<close>

text \<open>A path is indexed if every element it lies in has a handle.\<close>

definition indexed :: "subscriptions \<Rightarrow> path \<Rightarrow> bool" where
  "indexed s path \<longleftrightarrow> (\<forall>q. prefix q path \<and> is_element s q \<longrightarrow> claimed s q)"

lemma retain_elements_facts:
  assumes "subs_inv P s" and "permit_inv h s" and "\<forall>k \<in> set ks. claimed s (take (Suc k) path)"
  shows "subs_inv P (fold (retain_element path) ks s) \<and> permit_inv h (fold (retain_element path) ks s) \<and>
    patterns (fold (retain_element path) ks s) = patterns s \<and>
    next_index (fold (retain_element path) ks s) = next_index s \<and>
    (\<forall>q. get_sub (fold (retain_element path) ks s) q = None \<longleftrightarrow> get_sub s q = None)"
  using assms
proof (induction ks arbitrary: s)
  case (Cons k ks)
  let ?q = "take (Suc k) path"
  obtain e where e: "get_sub s ?q = Some e" "handles e > 0"
    using Cons.prems(3) by (auto simp: claimed_def split: option.splits)
  let ?s = "put_sub ?q (e\<lparr>handles := handles e + 1\<rparr>) s"
  have "subs_inv P ?s" using Cons.prems(1) e by (intro put_same_inv [of P s ?q e]) simp_all
  moreover have "permit_inv h ?s"
    using permit_inv_put [OF Cons.prems(2) subs_invD(2) [OF Cons.prems(1)] e(1)] by simp
  moreover have "\<forall>k \<in> set ks. claimed ?s (take (Suc k) path)"
    using Cons.prems(3) by (auto simp: claimed_def)
  moreover have "retain_element path k s = ?s" using e by (simp add: retain_element_def)
  ultimately show ?case using Cons.IH [of ?s] e by auto
qed simp

lemma retain_facts:
  assumes inv: "subs_inv P s" and pm: "permit_inv h s" and idx: "indexed s path"
  shows "subs_inv P (retain s path) \<and> permit_inv h (retain s path) \<and> patterns (retain s path) = patterns s \<and>
    next_index (retain s path) = next_index s \<and> (\<forall>q. get_sub (retain s path) q = None \<longleftrightarrow> get_sub s q = None)"
proof (cases "resolve s path")
  case None
  with assms show ?thesis by (simp add: retain_def)
next
  case (Some r)
  obtain n pat where r: "resolve s path = Some (n, pat)" using Some by (cases r) auto
  have "\<forall>k \<in> set (elements pat). claimed s (take (Suc k) path)"
    using idx element_parts(1) [OF subs_invD(1) [OF inv] r] take_is_prefix by (auto simp: indexed_def)
  from retain_elements_facts [OF inv pm this] r show ?thesis by (simp add: retain_def)
qed

lemma release_elements_facts:
  assumes "subs_inv P s" and "permit_inv h s" and "\<forall>k \<in> set ks. claimed s (take (Suc k) path)"
    and "\<forall>k \<in> set ks. k < length path \<and> is_element s (take (Suc k) path)"
    and "release_elements pd path ks s = (s', b)"
  shows "subs_inv P s' \<and> permit_inv h s' \<and> patterns s' = patterns s \<and> (\<forall>r. released s r \<longrightarrow> released s' r)"
  using assms
proof (induction ks arbitrary: s)
  case (Cons k ks)
  let ?q = "take (Suc k) path"
  obtain e where e: "get_sub s ?q = Some e" "handles e > 0"
    using Cons.prems(3) by (auto simp: claimed_def split: option.splits)
  let ?e = "e\<lparr>handles := handles e - 1\<rparr>" and ?s = "put_sub ?q (e\<lparr>handles := handles e - 1\<rparr>) s"
  have elem: "is_element s ?q" "k < length path" using Cons.prems(4) by simp_all
  have pm: "permit_inv h ?s"
    using permit_inv_put [OF Cons.prems(2) subs_invD(2) [OF Cons.prems(1)] e(1)] by simp
  show ?case
  proof (cases "handles e - 1 = 0")
    case True
    then have s': "s' = fst (remove_sub pd ?q ?s)" using Cons.prems(5) e by (simp add: Let_def)
    have "subs_inv P s'"
      unfolding s' by (rule subs_inv_cong [OF remove_inv [OF Cons.prems(1), of pd ?q]])
        (use subs_invD(2) [OF Cons.prems(1)] in \<open>simp_all add: get_sub_put\<close>)
    moreover have "permit_inv h s'" unfolding s' using pm by (rule permit_inv_remove)
    moreover have "released s' r" if "released s r" for r
    proof -
      from that obtain q where q: "prefix q r" "gone s q" by (auto simp: released_def)
      show ?thesis
      proof (cases "prefix ?q q")
        case True
        have bl: "butlast ?q = take k path" using elem(2) by (simp add: take_Suc_conv_app_nth)
        have "last ?q < next_of s (butlast ?q)"
          using subs_invD(7) [OF Cons.prems(1) e(1) elem(1)] e(2) by simp
        moreover have "\<not> prefix ?q (butlast ?q)"
          using elem(2) prefix_length_le [of ?q "butlast ?q"] by auto
        ultimately have "gone s' ?q" using elem(1) by (simp add: gone_def s')
        with True q(1) show ?thesis unfolding released_def by (meson prefix_order.trans)
      next
        case False
        have "\<not> prefix ?q (butlast q)"
          using False by (metis append_butlast_last_id butlast.simps(1) prefixI prefix_order.trans)
        with False q(2) have "gone s' q" by (auto simp: gone_def s')
        with q(1) show ?thesis by (auto simp: released_def)
      qed
    qed
    ultimately show ?thesis by (simp add: s')
  next
    case False
    have "subs_inv P ?s" using Cons.prems(1) e False by (intro put_same_inv [of P s ?q e]) simp_all
    moreover have "\<forall>k \<in> set ks. claimed ?s (take (Suc k) path)"
      using Cons.prems(3) False by (auto simp: claimed_def)
    moreover have "gone ?s q = gone s q" for q
      using e(1) by (cases "q = ?q") (auto simp: gone_def)
    then have "released ?s r = released s r" for r
      by (simp add: released_def)
    ultimately show ?thesis using Cons.IH [of ?s] pm Cons.prems(4,5) e False by (simp add: Let_def)
  qed
qed simp

lemma release_facts:
  assumes inv: "subs_inv P s" and pm: "permit_inv h s" and idx: "indexed s path"
  shows "subs_inv P (fst (release pd s path)) \<and> permit_inv h (fst (release pd s path)) \<and>
    patterns (fst (release pd s path)) = patterns s \<and>
    (\<forall>r. released s r \<longrightarrow> released (fst (release pd s path)) r)"
proof (cases "resolve s path")
  case None
  with assms show ?thesis by (simp add: release_def)
next
  case (Some r)
  obtain n pat where r: "resolve s path = Some (n, pat)" using Some by (cases r) auto
  have "\<forall>k \<in> set (elements pat). claimed s (take (Suc k) path)"
    using idx element_parts(1) [OF subs_invD(1) [OF inv] r] take_is_prefix by (auto simp: indexed_def)
  moreover have "\<forall>k \<in> set (elements pat). k < length path \<and> is_element s (take (Suc k) path)"
    using elements_iff [OF subs_invD(1) [OF inv] r] by blast
  ultimately show ?thesis
    using release_elements_facts [OF inv pm, of "elements pat" path pd] r
    by (cases "release_elements pd path (elements pat) s") (simp add: release_def)
qed

subsection \<open>Released elements stay released\<close>

lemma matches_snoc: "matches (p @ [a]) (x @ [i]) \<longleftrightarrow> matches p x \<and> (a = None \<or> a = Some i)"
proof (cases "length p = length x")
  case True
  then show ?thesis by (simp add: matches_def list_all2_append)
next
  case False
  then show ?thesis by (auto simp: matches_def dest: list_all2_lengthD)
qed

lemma element_sibling:
  assumes d: "declares P s" and el: "is_element s (b @ [i])"
  shows "is_element s (b @ [j])"
proof -
  obtain n p where p: "resolve s (b @ [i]) = Some (n, p)" "p \<noteq> []" "last p = None"
    using el by (auto simp: is_element_def split: option.splits)
  then obtain p' where p': "p = p' @ [None]" by (metis append_butlast_last_id)
  have "matches p (b @ [i])" "map_of (patterns s) p = Some n" using p d by (simp_all add: resolve_iff)
  then have "matches p (b @ [j])" unfolding p' by (simp add: matches_snoc)
  with \<open>map_of (patterns s) p = Some n\<close> d have "resolve s (b @ [j]) = Some (n, p)" by (simp add: resolve_iff)
  with p show ?thesis by (simp add: is_element_def)
qed

lemma gone_remove:
  assumes inv: "subs_inv P s" and p: "is_element s p" "\<not> claimed s p" and q: "gone s q"
  shows "gone (fst (remove_sub pd p s)) q"
proof -
  have "next_of s (butlast q) > 0" using q by (simp add: gone_def)
  then obtain i where "map_of (next_index s) (butlast q) = Some i"
    by (auto simp: next_of_def split: option.splits)
  with subs_invD(5) [OF inv this, of p] p have "\<not> prefix p (butlast q)" by blast
  with q show ?thesis by (simp add: gone_def)
qed

lemma gone_remove_all:
  "subs_inv P s \<Longrightarrow> \<forall>p \<in> set ps. is_element s p \<and> \<not> claimed s p \<Longrightarrow> gone s q \<Longrightarrow>
    gone (fst (remove_all pd ps (s, b))) q"
proof (induction ps arbitrary: s b)
  case (Cons p ps)
  let ?s = "fst (remove_sub pd p s)"
  have "\<forall>r \<in> set ps. is_element ?s r \<and> \<not> claimed ?s r"
    using Cons.prems(2) by (auto simp: claimed_def)
  with Cons gone_remove [OF Cons.prems(1), of p q pd] remove_inv [OF Cons.prems(1), of pd p] show ?case by simp
qed simp

lemma gone_skip_element:
  assumes inv: "subs_inv P s" and el: "is_element s (take (Suc k) path)" "k < length path" and q: "gone s q"
  shows "gone (fst (skip_element pd path k (s, b))) q"
proof (cases "next_of s (take k path) \<ge> path ! k")
  case False
  define L where "L = map fst (filter (\<lambda>(p, sub). length p = k + 1 \<and> take k p = take k path \<and>
    next_of s (take k path) \<le> p ! k \<and> p ! k < path ! k \<and> handles sub = 0) (subs s))"
  have "is_element s p \<and> \<not> claimed s p" if "p \<in> set L" for p
  proof -
    from that obtain e where p: "length p = Suc k" "take k p = take k path" "(p, e) \<in> set (subs s)" "handles e = 0"
      unfolding L_def by auto
    then have "p = take k path @ [p ! k]" by (metis lessI take_Suc_conv_app_nth take_all order_refl)
    moreover have "is_element s (take k path @ [path ! k])" using el by (simp add: take_Suc_conv_app_nth)
    ultimately have "is_element s p" using element_sibling [OF subs_invD(1) [OF inv]] by metis
    moreover have "get_sub s p = Some e"
      using p(3) subs_invD(2) [OF inv] by (simp add: get_sub_def)
    ultimately show ?thesis using p(4) by (simp add: claimed_def)
  qed
  with gone_remove_all [OF inv, of L q pd b] q False show ?thesis
    by (simp add: skip_element_eq L_def)
qed (use q in \<open>simp add: skip_element_eq\<close>)

lemma gone_skip:
  assumes inv: "subs_inv P s" and pm: "permit_inv h s" and q: "gone s q"
  shows "gone (fst (skip pd s path)) q"
proof (cases "resolve s path")
  case None
  with q show ?thesis by (simp add: skip_def)
next
  case (Some r)
  obtain n pat where r: "resolve s path = Some (n, pat)" using Some by (cases r) auto
  have "gone (fst (fold (skip_element pd path) ks (t, b))) q"
    if "subs_inv P t" "permit_inv h t" "gone t q" "\<forall>k \<in> set ks. is_element t (take (Suc k) path) \<and> k < length path"
    for ks t b
    using that
  proof (induction ks arbitrary: t b)
    case (Cons k ks)
    obtain t1 b1 where st: "skip_element pd path k (t, b) = (t1, b1)" by fastforce
    note F = skip_element_facts [OF Cons.prems(1,2), where pd = pd and path = path and k = k and b = b, unfolded st fst_conv]
    have "gone t1 q" using gone_skip_element [OF Cons.prems(1) _ _ Cons.prems(3), of k path pd b] Cons.prems(4) st by simp
    moreover have "\<forall>k \<in> set ks. is_element t1 (take (Suc k) path) \<and> k < length path"
      using Cons.prems(4) is_element_patterns [OF F(3)] by simp
    ultimately show ?case using Cons.IH [OF F(1,2), of b1] st by simp
  qed simp
  from this [OF inv pm q, of "elements pat" False] elements_iff [OF subs_invD(1) [OF inv] r] r show ?thesis
    by (simp add: skip_def)
qed

lemma gone_claims:
  "gone s q \<Longrightarrow> q \<notin> (\<lambda>k. take (Suc k) path) ` set ks \<Longrightarrow> gone (fold (claim_element path pat) ks s) q"
proof (induction ks arbitrary: s)
  case (Cons k ks)
  then have "gone (claim_element path pat k s) q" by (auto simp: gone_def claim_facts next_of_claim)
  with Cons show ?case by simp
qed simp

lemma gone_take_rx:
  assumes inv: "subs_inv P s" and small: "\<forall>i \<in> set path. i < usize_max"
    and skip: "\<And>n pat k. resolve s path = Some (n, pat) \<Longrightarrow> k \<in> set (elements pat) \<Longrightarrow> skipped_before s path k"
    and q: "gone s q"
  shows "gone (fst (take_rx s path)) q"
proof (cases "resolve s path")
  case None
  with q show ?thesis by (simp add: take_rx_def)
next
  case (Some r)
  obtain n pat where r: "resolve s path = Some (n, pat)" using Some by (cases r) auto
  show ?thesis
  proof (cases "blocked s path n pat")
    case True
    with q show ?thesis by (simp add: take_rx_eq [OF r])
  next
    case False
    let ?s = "claim_all path pat s"
    have "q \<noteq> take (Suc k) path" if "k \<in> set (elements pat)" for k
      using False that q element_parts [OF subs_invD(1) [OF inv] r that] by (auto simp: blocked_def gone_def)
    then have g: "gone ?s q" unfolding claim_all_def by (intro gone_claims [OF q]) auto
    have "q \<noteq> path"
    proof
      assume "q = path"
      then obtain k where "k \<in> set (elements pat)" "q = take (Suc k) path"
        using element_prefix [OF subs_invD(1) [OF inv] r, of q] q by (auto simp: gone_def)
      with \<open>\<And>k. k \<in> set (elements pat) \<Longrightarrow> q \<noteq> take (Suc k) path\<close> show False by blast
    qed
    with g have "gone (put_sub path ((snd (subscribe ?s path pat))\<lparr>rx := None\<rparr>) (fst (subscribe ?s path pat))) q"
      by (simp add: gone_def subscribe_facts)
    with g False show ?thesis by (simp add: take_rx_eq [OF r])
  qed
qed

lemma gone_route:
  assumes "subs_inv P s" and "permit_inv (of_bool pm) s" and "route s path pm = (s', pm', r)" and q: "gone s q"
  shows "gone s' q"
proof -
  from route_facts [OF assms(1-3)] have pt: "patterns s' = patterns s" and nx: "next_index s' = next_index s"
    and new: "\<And>q. get_sub s q = None \<Longrightarrow> get_sub s' q \<noteq> None \<Longrightarrow> is_element s q \<Longrightarrow> \<not> last q < next_of s (butlast q)"
    by blast+
  have "get_sub s' q = None" using new [of q] q by (cases "get_sub s' q") (simp_all add: gone_def)
  with q is_element_patterns [OF pt] nx show ?thesis by (simp add: gone_def next_of_def)
qed

section \<open>Histories of the index\<close>

text \<open>
  The steps the index takes: the operations of \<open>Incoming\<close> (\<open>index\<close> is \<open>skip\<close> followed by \<open>take_rx\<close>, under
  one lock; \<open>retain\<close> and \<open>release\<close> are for the path of an existing handle), those of ingress (acquiring and
  dropping a permit, routing a frame, closing a path) and the two ends of the connection. The boolean is
  whether ingress holds a permit; \<open>pd\<close> may change between steps.
\<close>

definition close_path :: "path \<Rightarrow> subscriptions \<Rightarrow> subscriptions" where
  "close_path p s =
    (case get_sub s p of None \<Rightarrow> s | Some sub \<Rightarrow> put_sub p (sub\<lparr>tx := Some Closed\<rparr>) s)"

definition index_path :: "(chan \<Rightarrow> bool) \<Rightarrow> subscriptions \<Rightarrow> path \<Rightarrow> subscriptions \<times> bool \<times> chan option option" where
  "index_path pd s path =
    (let (s, unprocessed) = skip pd s path; (s, r) = take_rx s path in (s, unprocessed, r))"

inductive index_step :: "subscriptions \<times> bool \<Rightarrow> subscriptions \<times> bool \<Rightarrow> bool" where
  Index: "\<forall>i \<in> set path. i < usize_max \<Longrightarrow> index_step (s, h) (fst (index_path pd s path), h)"
| Retain: "indexed s path \<Longrightarrow> index_step (s, h) (retain s path, h)"
| Release: "indexed s path \<Longrightarrow> index_step (s, h) (fst (release pd s path), h)"
| Acquire: "available s > 0 \<Longrightarrow> index_step (s, False) (s\<lparr>available := available s - 1\<rparr>, True)"
| Drop: "index_step (s, True) (s\<lparr>available := available s + 1\<rparr>, False)"
| Route: "route s path h = (s', h', r) \<Longrightarrow> index_step (s, h) (s', h')"
| Close_Path: "index_step (s, h) (close_path path s, h)"
| Close_Rx: "index_step (s, h) (fst (close_rx pd s), h)"
| Close_Tx: "index_step (s, h) (close_tx s, h)"

inductive_cases index_stepE: "index_step (s, h) (s', h')"

lemma map_sub_facts:
  assumes "subs s' = map (\<lambda>(p, sub). (p, f sub)) (subs s)" and "patterns s' = patterns s"
    and "next_index s' = next_index s" and "available s' = available s"
    and "\<And>sub. handles (f sub) = handles sub \<and> permit (f sub) = permit sub"
    and inv: "subs_inv P s" and pm: "permit_inv h s"
  shows "subs_inv P s' \<and> permit_inv h s' \<and> (\<forall>q. gone s' q = gone s q)"
proof -
  have get: "get_sub s' q = map_option f (get_sub s q)" for q
    unfolding get_sub_def assms(1) by (simp add: map_of_map)
  have same: "resolve s' q = resolve s q" "is_element s' q = is_element s q" "next_of s' q = next_of s q" for q
    using resolve_patterns [OF assms(2)] is_element_patterns [OF assms(2)] assms(3) by (simp_all add: next_of_def)
  have cl: "claimed s' q = claimed s q" for q
    using assms(5) by (auto simp: claimed_def get split: option.splits)
  note D = subs_invD [OF inv]
  have "subs_inv P s'"
  proof (rule subs_invI)
    show "declares P s'" using D(1) assms(2) by (rule declares_patterns)
    have "map fst (subs s') = map fst (subs s)" unfolding assms(1) by (simp add: case_prod_beta comp_def)
    with D(2) show "distinct (map fst (subs s'))" by simp
    show "resolve s' q \<noteq> None" if "get_sub s' q = Some e" for q e
      using that D(3) by (auto simp: get same)
    show "\<exists>y. get_sub s' q = Some y" if "get_sub s' r = Some e" "prefix q r" "is_element s' q" for q r e
      using that D(4) by (force simp: get same)
    show "claimed s' q" if "map_of (next_index s') b = Some i" "prefix q b" "is_element s' q" for b i q
      using that D(5) assms(3) by (simp add: cl same)
    show "permit e = (handles e = 0)" if "get_sub s' q = Some e" "is_element s' q" for q e
      using that D(6) assms(5) by (auto simp: get same)
    show "handles e > 0 \<longleftrightarrow> last q < next_of s' (butlast q)" if "get_sub s' q = Some e" "is_element s' q" for q e
      using that D(7) assms(5) by (auto simp: get same)
    show "\<not> permit e \<and> handles e = 0" if "get_sub s' q = Some e" "\<not> is_element s' q" for q e
      using that D(8) assms(5) by (auto simp: get same)
  qed
  moreover have "permits (map (\<lambda>(p, sub). (p, f sub)) m) = permits m" for m :: "(path \<times> subscription) list"
    using assms(5) by (induction m) (auto simp: permits_def)
  then have "permit_inv h s'" using pm assms(1,4) by (simp add: permit_inv_def)
  ultimately show ?thesis by (simp add: gone_def get same)
qed

text \<open>Every step preserves the invariant, conserves the permits and keeps released elements released.\<close>

definition index_inv :: "pattern set \<Rightarrow> subscriptions \<times> bool \<Rightarrow> bool" where
  "index_inv P st \<longleftrightarrow> subs_inv P (fst st) \<and> permit_inv (of_bool (snd st)) (fst st)"

lemma index_path_facts:
  assumes inv: "subs_inv P s" and pm: "permit_inv h s" and small: "\<forall>i \<in> set path. i < usize_max"
  shows "subs_inv P (fst (index_path pd s path))" and "permit_inv h (fst (index_path pd s path))"
    and "gone s q \<Longrightarrow> gone (fst (index_path pd s path)) q"
proof -
  let ?s = "fst (skip pd s path)"
  from skip_facts [OF inv pm, of pd path] have F: "subs_inv P ?s" "permit_inv h ?s" "patterns ?s = patterns s"
    and sk: "\<forall>n pat. resolve s path = Some (n, pat) \<longrightarrow> (\<forall>k \<in> set (elements pat). skipped_before ?s path k)"
    by blast+
  have eq: "fst (index_path pd s path) = fst (take_rx ?s path)"
    by (simp add: index_path_def case_prod_beta Let_def)
  have sk': "skipped_before ?s path k" if "resolve ?s path = Some (n, pat)" "k \<in> set (elements pat)" for n pat k
    using sk that resolve_patterns [OF F(3), of path] by auto
  show "subs_inv P (fst (index_path pd s path))" unfolding eq by (rule take_rx_inv [OF F(1) small sk'])
  show "permit_inv h (fst (index_path pd s path))"
    unfolding eq by (rule take_rx_permit [OF F(2) subs_invD(2) [OF F(1)]])
  show "gone (fst (index_path pd s path)) q" if "gone s q"
    unfolding eq by (rule gone_take_rx [OF F(1) small sk' gone_skip [OF inv pm that]])
qed

lemma close_path_facts:
  assumes "subs_inv P s" and "permit_inv h s"
  shows "subs_inv P (close_path path s) \<and> permit_inv h (close_path path s) \<and> (\<forall>q. gone s q \<longrightarrow> gone (close_path path s) q)"
proof (cases "get_sub s path")
  case None
  with assms show ?thesis by (simp add: close_path_def)
next
  case (Some e)
  let ?s = "put_sub path (e\<lparr>tx := Some Closed\<rparr>) s"
  have "subs_inv P ?s" by (rule put_same_inv [OF assms(1) Some]) simp_all
  moreover have "permit_inv h ?s"
    using permit_inv_put [OF assms(2) subs_invD(2) [OF assms(1)] Some] by simp
  moreover have "gone s q \<Longrightarrow> gone ?s q" for q using Some by (auto simp: gone_def)
  ultimately show ?thesis using Some by (simp add: close_path_def)
qed

lemma available_facts:
  assumes "s' = s\<lparr>available := a\<rparr>" and inv: "subs_inv P s"
  shows "subs_inv P s' \<and> gone s' q = gone s q"
proof -
  have "is_element s' q = is_element s q" "get_sub s' q = get_sub s q" "next_of s' = next_of s" for q
    using assms is_element_patterns [of s' s] by (auto simp: get_sub_def next_of_def)
  moreover have "subs_inv P s'"
    by (rule subs_inv_cong [OF inv]) (simp_all add: assms(1) get_sub_def subs_invD(2) [OF inv])
  ultimately show ?thesis by (simp add: gone_def)
qed

lemma index_step_facts:
  assumes "index_step st st'" and "index_inv P st"
  shows "index_inv P st' \<and> (\<forall>p. released (fst st) p \<longrightarrow> released (fst st') p)"
  using assms
proof (induction rule: index_step.induct)
  case (Index path s h pd)
  then show ?case
    using index_path_facts [where P = P and s = s and h = "of_bool h" and path = path and pd = pd] by (auto simp: index_inv_def released_def)
next
  case (Retain s path h)
  then have F: "subs_inv P (retain s path)" "permit_inv (of_bool h) (retain s path)"
    "patterns (retain s path) = patterns s" "next_index (retain s path) = next_index s"
    "\<And>q. get_sub (retain s path) q = None \<longleftrightarrow> get_sub s q = None"
    using retain_facts [of P s "of_bool h" path] by (auto simp: index_inv_def)
  then have "gone (retain s path) q = gone s q" for q
    using is_element_patterns [OF F(3)] by (simp add: gone_def next_of_def)
  with F show ?case by (simp add: index_inv_def released_def)
next
  case (Release s path h pd)
  then show ?case using release_facts [of P s "of_bool h" path pd] by (simp add: index_inv_def)
next
  case (Acquire s)
  then show ?case using available_facts [OF refl, of P s "available s - 1"]
    by (simp add: index_inv_def released_def permit_inv_def)
next
  case (Drop s)
  then show ?case using available_facts [OF refl, of P s "available s + 1"]
    by (simp add: index_inv_def released_def permit_inv_def)
next
  case (Route s path h s' h' r)
  then have "subs_inv P s" "permit_inv (of_bool h) s" by (simp_all add: index_inv_def)
  from route_facts [OF this Route(1)] gone_route [OF this Route(1)] show ?case
    by (auto simp: index_inv_def released_def)
next
  case (Close_Path s h path)
  then show ?case using close_path_facts [of P s "of_bool h" path] by (auto simp: index_inv_def released_def)
next
  case (Close_Rx s h pd)
  have "subs_inv P (fst (close_rx pd s)) \<and> permit_inv (of_bool h) (fst (close_rx pd s)) \<and>
      (\<forall>q. gone (fst (close_rx pd s)) q = gone s q)"
    by (rule map_sub_facts [of _ "\<lambda>sub. sub\<lparr>rx := None\<rparr>"])
       (use Close_Rx in \<open>simp_all add: close_rx_def index_inv_def\<close>)
  then show ?case by (simp add: index_inv_def released_def)
next
  case (Close_Tx s h)
  have "subs_inv P (close_tx s) \<and> permit_inv (of_bool h) (close_tx s) \<and> (\<forall>q. gone (close_tx s) q = gone s q)"
    by (rule map_sub_facts [of _ "\<lambda>sub. case tx sub of Some (Open c) \<Rightarrow> sub\<lparr>tx := None\<rparr> | _ \<Rightarrow> sub"])
       (use Close_Tx in \<open>simp_all add: close_tx_def index_inv_def split: option.splits tx_slot.splits\<close>)
  then show ?case by (simp add: index_inv_def released_def)
qed

lemma those_matches: "those p = Some q \<Longrightarrow> p = map Some q"
  by (induction p arbitrary: q) (auto split: option.splits)

text \<open>The subscriptions \<open>Subscriptions::new\<close> makes are for declared paths without wildcards.\<close>

lemma subs_new_entries:
  "\<forall>(p, sub) \<in> set (subs (subs_new ps)). handles sub = 0 \<and> \<not> permit sub \<and> (p = [] \<or> map Some p \<in> set ps)"
  "next_index (subs_new ps) = []" "available (subs_new ps) = MAX_UNCLAIMED_ELEMENTS"
  "distinct (map fst (subs (subs_new ps)))"
proof -
  define ok where "ok qs s \<longleftrightarrow>
    (\<forall>(p, sub) \<in> set (subs s). handles sub = 0 \<and> \<not> permit sub \<and> (p = [] \<or> map Some p \<in> set qs)) \<and>
    next_index s = [] \<and> available s = MAX_UNCLAIMED_ELEMENTS \<and> distinct (map fst (subs s))" for qs and s :: subscriptions
  have upd: "set (AList.update k v m) \<subseteq> insert (k, v) (set m)" for k :: path and v :: subscription and m
    by (induction m) auto
  have "ok qs (declare_path p s)" if s: "ok qs s" and p: "p \<in> set qs" for p s qs
  proof (cases "p \<noteq> [] \<and> (\<exists>q. those p = Some q)")
    case False
    with s show ?thesis by (auto simp: ok_def declare_path_def Let_def split: option.splits)
  next
    case True
    then obtain q where q: "p \<noteq> []" "those p = Some q" by blast
    let ?e = "sub_default\<lparr>tx := Some (Open (fresh s)), rx := Some (fresh s)\<rparr>"
    have "subs (declare_path p s) = AList.update q ?e (subs s)" "next_index (declare_path p s) = next_index s"
      "available (declare_path p s) = available s"
      using q by (simp_all add: declare_path_def sub_new_def Let_def)
    moreover have "handles ?e = 0 \<and> \<not> permit ?e" by (simp add: sub_default_def)
    moreover have "map Some q \<in> set qs" using those_matches [OF q(2)] p by simp
    ultimately show ?thesis
      using s upd [of q ?e "subs s"] unfolding ok_def by (auto simp: distinct_update)
  qed
  then have "ok qs s \<Longrightarrow> set ps \<subseteq> set qs \<Longrightarrow> ok qs (fold declare_path ps s)" for qs s ps
    by (induction ps arbitrary: s) auto
  note fold_ok = this
  have "ok ps (subs_new ps)"
    unfolding subs_new_def by (rule fold_ok) (simp_all add: ok_def sub_default_def)
  then show "\<forall>(p, sub) \<in> set (subs (subs_new ps)). handles sub = 0 \<and> \<not> permit sub \<and> (p = [] \<or> map Some p \<in> set ps)"
    "next_index (subs_new ps) = []" "available (subs_new ps) = MAX_UNCLAIMED_ELEMENTS"
    "distinct (map fst (subs (subs_new ps)))"
    by (simp_all add: ok_def)
qed

lemma index_inv_new:
  assumes "consistent (set ps)"
  shows "index_inv (set ps - {[]}) (subs_new ps, False)"
proof -
  let ?s = "subs_new ps"
  note N = subs_new_entries [of ps]
  have get: "handles e = 0 \<and> \<not> permit e \<and> (p = [] \<or> map Some p \<in> set ps)" if "get_sub ?s p = Some e" for p e
    using N(1) map_of_SomeD [OF that [unfolded get_sub_def]] by auto
  note d = declares_new [OF assms]
  have plain: "\<exists>n. resolve ?s p = Some (n, map Some p)" if "get_sub ?s p = Some e" for p e
  proof -
    have "matches (map Some p) p" by (simp add: matches_def list_all2_conv_all_nth)
    moreover have "map_of (patterns ?s) (map Some p) \<noteq> None"
      using nodes_okD(1) [OF nodes_ok_new [of ps], of "map Some p"] get [OF that] by auto
    ultimately show ?thesis using resolve_iff [OF d] by auto
  qed
  have none: "\<not> is_element ?s q" if sub: "get_sub ?s p = Some e" and pre: "prefix q p" for p e q
  proof -
    obtain n where "resolve ?s p = Some (n, map Some p)" using plain [OF sub] by blast
    from resolve_take [OF d this, of "length q"] pre
    obtain n' where r: "resolve ?s q = Some (n', map Some q)" by (auto simp: prefix_def take_map)
    then show ?thesis by (cases q rule: rev_cases) (simp_all add: is_element_def)
  qed
  have "subs_inv (set ps - {[]}) ?s"
    using d N(2,4) plain none get
    by (intro subs_invI) (auto simp: claimed_def, (metis option.distinct(1) prefix_order.refl)+)
  moreover have "permits (subs ?s) = 0"
    using N(1) by (auto simp: permits_def filter_empty_conv)
  ultimately show ?thesis by (simp add: index_inv_def permit_inv_def N(3))
qed

lemma index_reachable:
  assumes "consistent (set ps)" and "index_step\<^sup>*\<^sup>* (subs_new ps, False) st"
  shows "index_inv (set ps - {[]}) st"
  using assms(2) by induction (use index_inv_new [OF assms(1)] index_step_facts in blast)+

text \<open>
  Whatever the peer sends and however the handles are used, at most \<open>MAX_UNCLAIMED_ELEMENTS\<close> elements are
  subscribed to before they are indexed: each of them holds a permit, and the permits in the semaphore,
  in the subscriptions and in the hands of ingress always add up to that number (claim C9).
\<close>

theorem unclaimed_bounded:
  assumes "consistent (set paths)" and "index_step\<^sup>*\<^sup>* (subs_new paths, False) (s, h)"
  shows "length (filter (\<lambda>(p, sub). is_element s p \<and> handles sub = 0) (subs s)) + available s + of_bool h =
    MAX_UNCLAIMED_ELEMENTS"
proof -
  have inv: "index_inv (set paths - {[]}) (s, h)" by (rule index_reachable [OF assms])
  then have I: "subs_inv (set paths - {[]}) s" by (simp add: index_inv_def)
  have "(is_element s p \<and> handles sub = 0) = permit sub" if "(p, sub) \<in> set (subs s)" for p sub
  proof -
    have "get_sub s p = Some sub" using that subs_invD(2) [OF I] by (simp add: get_sub_def)
    with subs_invD(6,8) [OF I this] show ?thesis by blast
  qed
  then have "filter (\<lambda>(p, sub). is_element s p \<and> handles sub = 0) (subs s) = filter (\<lambda>(p, sub). permit sub) (subs s)"
    by (intro filter_cong) auto
  with inv show ?thesis by (simp add: index_inv_def permit_inv_def permits_def)
qed

text \<open>Indexing the second of the elements \<open>[None]\<close> declares, which releases the first.\<close>

definition example_index :: subscriptions where
  "example_index = fst (index_path (\<lambda>_. False) (subs_new [[None]]) [1])"

lemma example_index_step: "index_step\<^sup>*\<^sup>* (subs_new [[None]], False) (example_index, False)"
  unfolding example_index_def by (intro r_into_rtranclp index_step.Index) (simp add: usize_max_def)

lemma example_consistent: "consistent (set [[None]])"
  by (simp add: consistent_def)

theorem unclaimed_bounded_witness:
  "length (filter (\<lambda>(p, sub). is_element example_index p \<and> handles sub = 0) (subs example_index)) +
    available example_index + 0 = 64"
  using unclaimed_bounded [OF example_consistent example_index_step]
  by (simp add: MAX_UNCLAIMED_ELEMENTS_def)

lemma route_released:
  assumes inv: "subs_inv P s" and rel: "released s p"
  shows "\<exists>r. route s p h = (s, h, r) \<and> r \<in> {RouteNotFound, RouteReleased}"
proof -
  note D = subs_invD [OF inv]
  obtain q where q: "prefix q p" "gone s q" using rel by (auto simp: released_def)
  then have el: "is_element s q" "get_sub s q = None" "last q < next_of s (butlast q)" by (simp_all add: gone_def)
  have "get_sub s p = None" using D(4) [of p _ q] q(1) el by (cases "get_sub s p") auto
  then have tx: "get_tx s p = None" by (simp add: get_tx_def)
  show ?thesis
  proof (cases "\<exists>n pat. resolve s p = Some (n, pat) \<and> declared n")
    case False
    with tx show ?thesis by (auto simp: route_def split: option.splits)
  next
    case True
    then obtain n pat where r: "resolve s p = Some (n, pat)" "declared n" by blast
    obtain k where k: "k \<in> set (elements pat)" "q = take (Suc k) p" "butlast q = take k p" "last q = p ! k"
      using element_prefix [OF D(1) r(1) q(1) el(1)] by metis
    obtain ds ks where split: "elements pat = ds @ k # ks" using split_list [OF k(1)] by blast
    obtain i where nx: "map_of (next_index s) (butlast q) = Some i"
      using el(3) by (auto simp: next_of_def split: option.splits)
    have "get_sub s (take (Suc j) p) \<noteq> None" if "j \<in> set ds" for j
    proof -
      have "sorted_wrt (<) (elements pat)"
        unfolding elements_def by (intro sorted_wrt_filter) (simp add: strict_sorted_iff)
      then have "j < k" using that split by (simp add: sorted_wrt_append)
      moreover have "j \<in> set (elements pat)" using that split by simp
      moreover have "k < length p" using elements_iff [OF D(1) r(1)] k(1) by blast
      ultimately have "is_element s (take (Suc j) p)" using element_parts(1) [OF D(1) r(1)] by blast
      moreover have "prefix (take (Suc j) p) (butlast q)"
        unfolding k(3) using \<open>j < k\<close> take_is_prefix [of "Suc j" "take k p"] by (simp add: min_absorb1)
      ultimately show ?thesis using D(5) [OF nx] by (fastforce simp: claimed_def split: option.splits)
    qed
    then have "route_elements p pat (ds @ k # ks) s h = (s, h, Some RouteReleased)"
      using el k by (induction ds) auto
    with tx r split show ?thesis by (simp add: route_def)
  qed
qed

lemma take_rx_released:
  assumes inv: "subs_inv P s" and rel: "released s p"
  shows "snd (take_rx s p) = None"
proof (cases "resolve s p")
  case (Some r)
  obtain n pat where r: "resolve s p = Some (n, pat)" using Some by (cases r) auto
  obtain q where q: "prefix q p" "gone s q" using rel by (auto simp: released_def)
  then obtain k where "k \<in> set (elements pat)" "q = take (Suc k) p" "butlast q = take k p" "last q = p ! k"
    using element_prefix [OF subs_invD(1) [OF inv] r q(1)] by (metis gone_def)
  with q(2) have "blocked s p n pat" by (auto simp: blocked_def gone_def)
  then show ?thesis by (simp add: take_rx_eq [OF r])
qed (simp add: take_rx_def)

lemma released_later:
  assumes "index_step\<^sup>*\<^sup>* st st'" and "index_inv P st" and "released (fst st) p"
  shows "index_inv P st' \<and> released (fst st') p"
  using assms(1) by induction (use assms(2,3) index_step_facts in blast)+

text \<open>
  An element that was released is never subscribed to again: once a path lies in a released element it
  does so in every later state, indexing it fails, and a frame for it is not routed to a subscription
  (claim C11).
\<close>

theorem released_forever:
  assumes "consistent (set paths)" and "index_step\<^sup>*\<^sup>* (subs_new paths, False) (s, h)"
    and "released s p" and "index_step\<^sup>*\<^sup>* (s, h) (s', h')"
  shows "released s' p \<and> snd (take_rx s' p) = None \<and>
    (\<exists>r. route s' p h' = (s', h', r) \<and> r \<in> {RouteNotFound, RouteReleased})"
proof -
  from released_later [OF assms(4) index_reachable [OF assms(1,2)]] assms(3)
  have "subs_inv (set paths - {[]}) s'" and "released s' p" by (simp_all add: index_inv_def)
  with route_released [OF this] take_rx_released [OF this] show ?thesis by blast
qed

lemma example_released: "released example_index [0]"
proof -
  have "gone example_index [0]"
    by (simp add: gone_def example_index_def index_path_def subs_new_def declare_path_def set_wildcard_def
        pattern_entry_def pattern_default_def skip_def resolve_def elements_def skip_element_def next_of_def
        take_rx_def claim_element_def subscribe_def get_sub_def put_sub_def drop_permits_def sub_new_def
        sub_default_def saturating_add_def usize_max_def is_element_def Let_def)
  then show ?thesis unfolding released_def by (intro exI [of _ "[0]"]) simp
qed

theorem released_forever_witness:
  "snd (take_rx example_index [0]) = None \<and>
    (\<exists>r. route example_index [0] False = (example_index, False, r) \<and> r \<in> {RouteNotFound, RouteReleased})"
  using released_forever [OF example_consistent example_index_step example_released rtranclp.rtrancl_refl]
  by blast

end
