(* ===== verification/Values.thy ===== *)
theory Values
  imports Wasm_Tokio Paths
begin

text \<open>
  Values of the component model and the encodings shared by the two codecs for them, the one of
  \<open>crates/wave\<close> and the one of \<open>crates/wasmtime\<close>.

  \<^item> \<open>val\<close> has the constructors of \<open>wasmtime::component::Val\<close>. Integers are numbers with the range of
    their type, floats are their bit patterns, characters their scalar values, strings their UTF-8 bytes.
    Resources, futures and streams are numbers that stand for handles of the store.
  \<^item> \<open>has_type\<close> is the typing relation, with the range of each integer.
  \<^item> little-endian integers, flags as bits, discriminants as indices into the list of names.
\<close>

section \<open>Values\<close>

datatype val =
    VBool bool
  | VS8 int | VU8 nat | VS16 int | VU16 nat | VS32 int | VU32 nat | VS64 int | VU64 nat
  | VFloat32 nat | VFloat64 nat
  | VChar nat
  | VString bytes
  | VList "val list"
  | VRecord "(string \<times> val) list"
  | VTuple "val list"
  | VVariant string "val option"
  | VEnum string
  | VOption "val option"
  | VResult bool "val option"
  | VFlags "string list"
  | VResource nat
  | VFuture nat
  | VStream nat

definition is_char :: "nat \<Rightarrow> bool" where
  "is_char c \<longleftrightarrow> c < 55296 \<or> 57344 \<le> c \<and> c < 1114112"

definition srange :: "nat \<Rightarrow> int \<Rightarrow> bool" where
  "srange w i \<longleftrightarrow> - (2 ^ (w - 1)) \<le> i \<and> i < 2 ^ (w - 1)"

text \<open>The parts of a type, if it is of the given kind.\<close>

definition as_list :: "ty \<Rightarrow> ty option" where
  "as_list t = (case t of TList u \<Rightarrow> Some u | _ \<Rightarrow> None)"

definition as_record :: "ty \<Rightarrow> (string \<times> ty) list option" where
  "as_record t = (case t of TRecord fs \<Rightarrow> Some fs | _ \<Rightarrow> None)"

definition as_tuple :: "ty \<Rightarrow> ty list option" where
  "as_tuple t = (case t of TTuple ts \<Rightarrow> Some ts | _ \<Rightarrow> None)"

definition as_variant :: "ty \<Rightarrow> (string \<times> ty option) list option" where
  "as_variant t = (case t of TVariant cs \<Rightarrow> Some cs | _ \<Rightarrow> None)"

definition as_enum :: "ty \<Rightarrow> string list option" where
  "as_enum t = (case t of TEnum ns \<Rightarrow> Some ns | _ \<Rightarrow> None)"

definition as_option :: "ty \<Rightarrow> ty option" where
  "as_option t = (case t of TOption u \<Rightarrow> Some u | _ \<Rightarrow> None)"

definition as_result :: "ty \<Rightarrow> (ty option \<times> ty option) option" where
  "as_result t = (case t of TResult a b \<Rightarrow> Some (a, b) | _ \<Rightarrow> None)"

definition as_flags :: "ty \<Rightarrow> string list option" where
  "as_flags t = (case t of TFlags ns \<Rightarrow> Some ns | _ \<Rightarrow> None)"

lemma as_eq_Some [simp]:
  "as_list t = Some u \<longleftrightarrow> t = TList u" "as_record t = Some fs \<longleftrightarrow> t = TRecord fs"
  "as_tuple t = Some ts \<longleftrightarrow> t = TTuple ts" "as_variant t = Some cs \<longleftrightarrow> t = TVariant cs"
  "as_enum t = Some ns \<longleftrightarrow> t = TEnum ns" "as_option t = Some u \<longleftrightarrow> t = TOption u"
  "as_result t = Some r \<longleftrightarrow> t = TResult (fst r) (snd r)" "as_flags t = Some ns \<longleftrightarrow> t = TFlags ns"
  by (cases t; auto simp: as_list_def as_record_def as_tuple_def as_variant_def as_enum_def as_option_def
      as_result_def as_flags_def)+

lemma as_simps [simp]:
  "as_list (TList u) = Some u" "as_record (TRecord fs) = Some fs" "as_tuple (TTuple ts) = Some ts"
  "as_variant (TVariant cs) = Some cs" "as_enum (TEnum ns) = Some ns" "as_option (TOption u) = Some u"
  "as_result (TResult a b) = Some (a, b)" "as_flags (TFlags ns) = Some ns"
  by simp_all

text \<open>
  The typing of values without resources, futures and streams. A flags value lists its flags in the order
  of the type; the names of the cases of a variant, of an enum and of flags are distinct in a valid type.
\<close>

primrec has_type :: "val \<Rightarrow> ty \<Rightarrow> bool" where
  "has_type (VBool b) = (\<lambda>t. t = TBool)"
| "has_type (VS8 i) = (\<lambda>t. t = TS8 \<and> srange 8 i)"
| "has_type (VU8 n) = (\<lambda>t. t = TU8 \<and> n < 2 ^ 8)"
| "has_type (VS16 i) = (\<lambda>t. t = TS16 \<and> srange 16 i)"
| "has_type (VU16 n) = (\<lambda>t. t = TU16 \<and> n < 2 ^ 16)"
| "has_type (VS32 i) = (\<lambda>t. t = TS32 \<and> srange 32 i)"
| "has_type (VU32 n) = (\<lambda>t. t = TU32 \<and> n < 2 ^ 32)"
| "has_type (VS64 i) = (\<lambda>t. t = TS64 \<and> srange 64 i)"
| "has_type (VU64 n) = (\<lambda>t. t = TU64 \<and> n < 2 ^ 64)"
| "has_type (VFloat32 n) = (\<lambda>t. t = TFloat32 \<and> n < 2 ^ 32)"
| "has_type (VFloat64 n) = (\<lambda>t. t = TFloat64 \<and> n < 2 ^ 64)"
| "has_type (VChar c) = (\<lambda>t. t = TChar \<and> is_char c)"
| "has_type (VString s) = (\<lambda>t. t = TString \<and> utf8_valid s \<and> length s < 2 ^ 32)"
| "has_type (VList vs) =
    (\<lambda>t. case as_list t of
       Some u \<Rightarrow> length vs < 2 ^ 32 \<and> list_all (\<lambda>p. p u) (map has_type vs)
     | None \<Rightarrow> False)"
| "has_type (VRecord fs) =
    (\<lambda>t. case as_record t of
       Some ts \<Rightarrow> list_all2 (\<lambda>(n, p) (m, u). n = m \<and> p u) (map (map_prod id has_type) fs) ts
     | None \<Rightarrow> False)"
| "has_type (VTuple vs) =
    (\<lambda>t. case as_tuple t of Some ts \<Rightarrow> list_all2 (\<lambda>p u. p u) (map has_type vs) ts | None \<Rightarrow> False)"
| "has_type (VVariant c v) =
    (\<lambda>t. case as_variant t of
       Some cs \<Rightarrow> distinct (map fst cs) \<and> length cs < 2 ^ 32 \<and>
         (case map_of cs c of None \<Rightarrow> False | Some u \<Rightarrow> rel_option (\<lambda>p u. p u) (map_option has_type v) u)
     | None \<Rightarrow> False)"
| "has_type (VEnum c) =
    (\<lambda>t. case as_enum t of Some ns \<Rightarrow> distinct ns \<and> length ns < 2 ^ 32 \<and> c \<in> set ns | None \<Rightarrow> False)"
| "has_type (VOption v) =
    (\<lambda>t. case as_option t of
       Some u \<Rightarrow> (case map_option has_type v of None \<Rightarrow> True | Some p \<Rightarrow> p u)
     | None \<Rightarrow> False)"
| "has_type (VResult ok v) =
    (\<lambda>t. case as_result t of
       Some (a, b) \<Rightarrow> rel_option (\<lambda>p u. p u) (map_option has_type v) (if ok then a else b)
     | None \<Rightarrow> False)"
| "has_type (VFlags fs) =
    (\<lambda>t. case as_flags t of
       Some ns \<Rightarrow> distinct ns \<and> fs = filter (\<lambda>n. n \<in> set fs) ns
     | None \<Rightarrow> False)"
| "has_type (VResource r) = (\<lambda>t. False)"
| "has_type (VFuture r) = (\<lambda>t. False)"
| "has_type (VStream r) = (\<lambda>t. False)"

text \<open>
  The types the codecs can read, and that are valid in the component model: the names of the cases of a
  variant, of an enum and of flags are distinct, and there are less than \<open>2\<^sup>3\<^sup>2\<close> of them.
\<close>

primrec valid_ty :: "ty \<Rightarrow> bool" where
  "valid_ty TBool = True"
| "valid_ty TS8 = True" | "valid_ty TU8 = True" | "valid_ty TS16 = True" | "valid_ty TU16 = True"
| "valid_ty TS32 = True" | "valid_ty TU32 = True" | "valid_ty TS64 = True" | "valid_ty TU64 = True"
| "valid_ty TFloat32 = True" | "valid_ty TFloat64 = True" | "valid_ty TChar = True" | "valid_ty TString = True"
| "valid_ty (TList t) = valid_ty t"
| "valid_ty (TRecord fs) = list_all snd (map (map_prod id valid_ty) fs)"
| "valid_ty (TTuple ts) = list_all id (map valid_ty ts)"
| "valid_ty (TVariant cs) = (distinct (map fst cs) \<and> length cs < 2 ^ 32 \<and>
    list_all (\<lambda>(n, u). case u of None \<Rightarrow> True | Some b \<Rightarrow> b) (map (map_prod id (map_option valid_ty)) cs))"
| "valid_ty (TEnum ns) = (distinct ns \<and> length ns < 2 ^ 32)"
| "valid_ty (TOption t) = valid_ty t"
| "valid_ty (TResult a b) =
    ((case map_option valid_ty a of None \<Rightarrow> True | Some p \<Rightarrow> p) \<and>
     (case map_option valid_ty b of None \<Rightarrow> True | Some p \<Rightarrow> p))"
| "valid_ty (TFlags ns) = distinct ns"
| "valid_ty (TOwn _) = True" | "valid_ty (TBorrow _) = True" | "valid_ty (TFuture _) = True"
| "valid_ty (TStream _) = True" | "valid_ty TErrorContext = True" | "valid_ty (TMap _ _) = True"
| "valid_ty (TFixedLengthList _ _) = True"

section \<open>Readers\<close>

type_synonym 'a reader = "bytes \<Rightarrow> io_error + 'a \<times> bytes"

definition ret :: "'a \<Rightarrow> 'a reader" where
  "ret a b = Inr (a, b)"

definition fail :: "io_error \<Rightarrow> 'a reader" where
  "fail e b = Inl e"

definition bind :: "'a reader \<Rightarrow> ('a \<Rightarrow> 'b reader) \<Rightarrow> 'b reader" where
  "bind m f b = and_then (m b) (\<lambda>(a, r). f a r)"

lemma bind_cong [fundef_cong]:
  "m = m' \<Longrightarrow> (\<And>a b r. m' b = Inr (a, r) \<Longrightarrow> f a = g a) \<Longrightarrow> bind m f = bind m' g"
  unfolding bind_def by (rule ext, rule and_then_cong) auto

lemma bind_eq [simp]: "m b = Inr (a, r) \<Longrightarrow> bind m f b = f a r"
  by (simp add: bind_def)

lemma bind_eq_Inr: "bind m f b = Inr (y, s) \<longleftrightarrow> (\<exists>a r. m b = Inr (a, r) \<and> f a r = Inr (y, s))"
  by (auto simp: bind_def and_then_eq_Inr)

lemma ret_eq [simp]: "ret a b = Inr (a, b)"
  by (simp add: ret_def)

lemma fail_eq [simp]: "fail e b = Inl e"
  by (simp add: fail_def)

text \<open>A loop that reads \<open>n\<close> values.\<close>

fun read_n :: "'a reader \<Rightarrow> nat \<Rightarrow> 'a list reader" where
  "read_n f 0 = ret []"
| "read_n f (Suc n) = bind f (\<lambda>a. bind (read_n f n) (\<lambda>as. ret (a # as)))"

lemma read_n_length: "read_n f n b = Inr (xs, r) \<Longrightarrow> length xs = n"
  by (induction n arbitrary: b xs) (auto simp: bind_eq_Inr)

lemma read_n_all:
  "read_n f n b = Inr (xs, r) \<Longrightarrow> (\<And>b x r. f b = Inr (x, r) \<Longrightarrow> P x) \<Longrightarrow> \<forall>x \<in> set xs. P x"
  by (induction n arbitrary: b xs) (auto simp: bind_eq_Inr)

section \<open>Little-endian integers\<close>

definition to_le_bytes :: "nat \<Rightarrow> nat \<Rightarrow> bytes" where
  "to_le_bytes k n = map (\<lambda>j. as_u8 (n div 256 ^ j)) [0..<k]"

fun from_le_bytes :: "bytes \<Rightarrow> nat" where
  "from_le_bytes [] = 0"
| "from_le_bytes (b # bs) = unat b + 256 * from_le_bytes bs"

lemma length_to_le [simp]: "length (to_le_bytes k n) = k"
  by (simp add: to_le_bytes_def)

lemma to_le_Suc: "to_le_bytes (Suc k) n = as_u8 n # to_le_bytes k (n div 256)"
proof -
  have "[0..<Suc k] = 0 # map Suc [0..<k]" by (simp add: map_Suc_upt upt_conv_Cons)
  then show ?thesis by (simp add: to_le_bytes_def comp_def div_mult2_eq)
qed

lemma from_le_to_le: "from_le_bytes (to_le_bytes k n) = n mod 256 ^ k"
proof (induction k arbitrary: n)
  case (Suc k)
  have "n mod 256 ^ Suc k = n mod 256 + 256 * (n div 256 mod 256 ^ k)"
    by (simp add: mod_mult2_eq)
  with Suc show ?case by (simp add: to_le_Suc)
qed (simp add: to_le_bytes_def)

lemma from_le_bound: "from_le_bytes bs < 256 ^ length bs"
proof (induction bs)
  case (Cons b bs)
  from Cons unat_byte_less [of b] have "unat b + 256 * from_le_bytes bs < 256 * 256 ^ length bs" by linarith
  then show ?case by simp
qed simp

definition read_le :: "nat \<Rightarrow> nat reader" where
  "read_le k = bind (read_exact k) (\<lambda>bs. ret (from_le_bytes bs))"

lemma read_le_to_le: "n < 256 ^ k \<Longrightarrow> read_le k (to_le_bytes k n @ r) = Inr (n, r)"
  by (simp add: read_le_def from_le_to_le)

lemma read_le_bound: "read_le k b = Inr (n, r) \<Longrightarrow> n < 256 ^ k"
  using from_le_bound by (auto simp: read_le_def bind_eq_Inr read_exact_eq_Inr)

text \<open>\<open>put_i8\<close> and \<open>read_i8\<close>.\<close>

definition i8_byte :: "int \<Rightarrow> byte" where
  "i8_byte i = as_u8 (nat (i mod 256))"

definition read_i8 :: "int reader" where
  "read_i8 = bind read_u8 (\<lambda>b. ret (if unat b < 128 then int (unat b) else int (unat b) - 256))"

lemma read_i8_byte:
  assumes "srange 8 i"
  shows "read_i8 (i8_byte i # r) = Inr (i, r)"
proof -
  have "i mod 256 = (if 0 \<le> i then i else i + 256)"
  proof (cases "0 \<le> i")
    case False
    then have "i mod 256 = (i + 256) mod 256" by simp
    also have "\<dots> = i + 256" using assms False by (intro mod_pos_pos_trivial) (simp_all add: srange_def)
    finally show ?thesis using False by simp
  qed (use assms in \<open>simp add: srange_def\<close>)
  then have "unat (i8_byte i) = nat (if 0 \<le> i then i else i + 256)"
    using assms by (simp add: i8_byte_def srange_def)
  with assms show ?thesis
    by (cases "0 \<le> i") (simp_all add: read_i8_def srange_def nat_less_iff del: of_nat_unat)
qed

lemma read_i8_range:
  assumes "read_i8 b = Inr (i, r)"
  shows "srange 8 i"
proof -
  from assms obtain x where x: "read_u8 b = Inr (x, r)"
    and i: "(if unat x < 128 then int (unat x) else int (unat x) - 256) = i"
    unfolding read_i8_def bind_eq_Inr ret_eq prod.inject sum.inject by blast
  have "unat x < 384" using unat_byte_less [of x] by linarith
  with i show ?thesis by (auto simp: srange_def simp del: of_nat_unat split: if_splits)
qed

section \<open>Flags\<close>

text \<open>
  The bits of a set of flags, in the order of the names of the type: \<open>v |= 1 << i\<close> for the flag with
  index \<open>i\<close>.
\<close>

definition flag_bits :: "string list \<Rightarrow> string list \<Rightarrow> nat" where
  "flag_bits names flags =
    fold (\<lambda>(i, name) v. if name \<in> set flags then or v (push_bit i 1) else v) (enumerate 0 names) 0"

lemma bit_fold_flags:
  "bit (fold (\<lambda>(i, name) v. if name \<in> set flags then or v (push_bit i 1) else v) (enumerate m names) v) j \<longleftrightarrow>
    bit v j \<or> m \<le> j \<and> j < m + length names \<and> names ! (j - m) \<in> set flags"
  for v :: nat
proof (induction names arbitrary: m v)
  case (Cons n names)
  show ?case
    unfolding enumerate_simps fold_simps Cons.IH
    by (cases "j = m") (auto simp: bit_or_iff bit_exp_iff nth_Cons' not_less less_Suc_eq_le)
qed auto

lemma bit_flag_bits: "bit (flag_bits names flags) j \<longleftrightarrow> j < length names \<and> names ! j \<in> set flags"
  by (simp add: flag_bits_def bit_fold_flags)

text \<open>
  More than 128 flags are written byte by byte: \<open>buf[i / 8] |= 1 << (i % 8)\<close>.
\<close>

definition set_flag :: "string list \<Rightarrow> nat \<times> string \<Rightarrow> bytes \<Rightarrow> bytes" where
  "set_flag flags = (\<lambda>(i, name) buf.
    if name \<in> set flags then buf[i div 8 := or (buf ! (i div 8)) (push_bit (i mod 8) 1)] else buf)"

definition flag_buf :: "string list \<Rightarrow> string list \<Rightarrow> bytes" where
  "flag_buf names flags =
    fold (set_flag flags) (enumerate 0 names) (replicate ((length names + 7) div 8) 0)"

text \<open>The number of bytes that hold \<open>n\<close> flags; no flags take one byte.\<close>

definition flag_bytes :: "nat \<Rightarrow> nat" where
  "flag_bytes n = (if n \<le> 8 then 1 else (n + 7) div 8)"

definition encode_flags :: "string list \<Rightarrow> string list \<Rightarrow> bytes" where
  "encode_flags names flags =
    (if length names \<le> 128 then to_le_bytes (flag_bytes (length names)) (flag_bits names flags)
     else flag_buf names flags)"

definition read_flags :: "string list \<Rightarrow> bytes reader" where
  "read_flags names = read_exact (max 1 ((length names + 7) div 8))"

text \<open>The flags whose bit is set in the bytes, in the order of the type.\<close>

definition flags_of :: "string list \<Rightarrow> bytes \<Rightarrow> string list" where
  "flags_of names buf =
    map snd (filter (\<lambda>(i, name). bit (buf ! (i div 8)) (i mod 8)) (enumerate 0 names))"

lemma bit_to_le_bytes:
  assumes "j < k" and "i < 8"
  shows "bit (to_le_bytes k n ! j) i \<longleftrightarrow> bit n (8 * j + i)"
proof -
  have "(256 :: nat) ^ j = 2 ^ (8 * j)" by (simp add: power_mult)
  then have "to_le_bytes k n ! j = word_of_nat (drop_bit (8 * j) n)"
    using assms(1) by (simp add: to_le_bytes_def as_u8_def drop_bit_eq_div)
  with assms(2) show ?thesis by (simp add: bit_of_nat_iff bit_drop_bit_eq)
qed


lemma bit_set_flag:
  assumes "m div 8 < length buf"
  shows "bit (set_flag flags (m, n) buf ! (j div 8)) (j mod 8) \<longleftrightarrow>
    bit (buf ! (j div 8)) (j mod 8) \<or> j = m \<and> n \<in> set flags"
proof -
  have "bit (push_bit (m mod 8) 1 :: byte) (j mod 8) \<longleftrightarrow> m mod 8 = j mod 8"
    by (auto simp: bit_push_bit_iff bit_exp_iff)
  moreover have "j = m \<longleftrightarrow> j div 8 = m div 8 \<and> m mod 8 = j mod 8"
    by (metis div_mult_mod_eq)
  ultimately show ?thesis using assms by (auto simp: set_flag_def nth_list_update bit_or_iff)
qed

lemma length_fold_set_flag [simp]: "length (fold (set_flag flags) xs buf) = length buf"
  by (induction xs arbitrary: buf) (auto simp: set_flag_def)

lemma bit_fold_set_flag:
  assumes "m + length names \<le> 8 * length buf"
  shows "bit (fold (set_flag flags) (enumerate m names) buf ! (j div 8)) (j mod 8) \<longleftrightarrow>
    bit (buf ! (j div 8)) (j mod 8) \<or> m \<le> j \<and> j < m + length names \<and> names ! (j - m) \<in> set flags"
  using assms
proof (induction names arbitrary: m buf)
  case (Cons n names)
  have m: "m div 8 < length buf" using Cons.prems by auto
  have "Suc m + length names \<le> 8 * length (set_flag flags (m, n) buf)"
    using Cons.prems by (simp add: set_flag_def)
  from Cons.IH [OF this] show ?case
    by (auto simp: bit_set_flag [OF m] nth_Cons' not_le less_Suc_eq_le Suc_le_eq less_Suc_eq)
qed auto

lemma length_encode_flags: "length (encode_flags names flags) = max 1 ((length names + 7) div 8)"
  by (auto simp: encode_flags_def flag_bytes_def flag_buf_def max_def)

lemma bit_encode_flags:
  assumes "j < length names"
  shows "bit (encode_flags names flags ! (j div 8)) (j mod 8) \<longleftrightarrow> names ! j \<in> set flags"
proof (cases "length names \<le> 128")
  case True
  have "Suc (j div 8) \<le> (length names + 7) div 8"
    using assms div_le_mono [of "j + 8" "length names + 7" 8] div_add_self2 [of 8 j] by simp
  with assms have "j div 8 < flag_bytes (length names)" by (simp add: flag_bytes_def)
  with True assms show ?thesis by (simp add: encode_flags_def bit_to_le_bytes bit_flag_bits)
next
  case False
  have "length names + 7 < 8 * Suc ((length names + 7) div 8)" 
    using dividend_less_times_div [of 8 "length names + 7"] by simp
  with assms have "j < 8 * ((length names + 7) div 8)" by simp
  with False assms bit_fold_set_flag [of 0 names "replicate ((length names + 7) div 8) 0" flags j] show ?thesis
    by (simp add: encode_flags_def flag_buf_def less_mult_imp_div_less mult.commute)
qed

text \<open>Reading back the bytes of a set of flags gives the flags in the order of the type.\<close>

lemma flags_of_encode: "flags_of names (encode_flags names flags) = filter (\<lambda>n. n \<in> set flags) names"
proof -
  have "filter (\<lambda>(i, name). bit (encode_flags names flags ! (i div 8)) (i mod 8)) (enumerate 0 names)
      = filter (\<lambda>(i, name). name \<in> set flags) (enumerate 0 names)"
    by (rule filter_cong) (auto simp: in_set_enumerate_eq bit_encode_flags)
  also have "map snd \<dots> = filter (\<lambda>n. n \<in> set flags) (map snd (enumerate 0 names))"
    by (simp only: filter_map comp_def case_prod_unfold)
  finally show ?thesis by (simp add: flags_of_def)
qed

lemma read_encode_flags [codec_simps]:
  "read_flags names (encode_flags names flags @ r) = Inr (encode_flags names flags, r)"
  by (simp add: read_flags_def length_encode_flags)

lemma flags_of_subset: "flags_of names buf = filter (\<lambda>n. n \<in> set (flags_of names buf)) names" if "distinct names"
proof -
  have *: "map snd (filter (\<lambda>(i, n). P i) (enumerate m ns)) =
      filter (\<lambda>n. n \<in> set (map snd (filter (\<lambda>(i, n). P i) (enumerate m ns)))) ns" if "distinct ns" for P m ns
    using that
  proof (induction ns arbitrary: m)
    case (Cons n ns)
    have "n \<notin> set (map snd (filter (\<lambda>(i, n). P i) (enumerate (Suc m) ns)))"
      using Cons.prems by (auto simp: in_set_enumerate_eq)
    moreover have "filter (\<lambda>x. x = n \<or> x \<in> A) ns = filter (\<lambda>x. x \<in> A) ns" for A
      using Cons.prems by (intro filter_cong) auto
    ultimately show ?case using Cons.IH [of "Suc m"] Cons.prems by simp
  qed simp
  show ?thesis unfolding flags_of_def by (rule * [OF that])
qed

section \<open>Discriminants\<close>

text \<open>
  \<open>zip(names, 0u8..).find_map(..)\<close>: the position of the first entry with the name. The counter never leaves
  its type, since the caller chooses the type by the number of names.
\<close>

fun find_index :: "nat \<Rightarrow> string list \<Rightarrow> string \<Rightarrow> nat option" where
  "find_index i [] c = None"
| "find_index i (n # ns) c = (if n = c then Some i else find_index (Suc i) ns c)"

lemma find_index_Some:
  "find_index i ns c = Some j \<Longrightarrow> i \<le> j \<and> j < i + length ns \<and> ns ! (j - i) = c"
  by (induction ns arbitrary: i) (fastforce simp: nth_Cons' split: if_splits)+

lemma find_index_None: "find_index i ns c = None \<longleftrightarrow> c \<notin> set ns"
  by (induction ns arbitrary: i) auto

lemma find_index_map_of: "find_index i (map fst cs) c = Some j \<Longrightarrow> map_of cs c = Some (snd (cs ! (j - i)))"
proof (induction cs arbitrary: i)
  case (Cons p cs)
  then show ?case using find_index_Some [of "Suc i" "map fst cs" c j]
    by (cases p) (auto simp: nth_Cons' split: if_splits)
qed simp

text \<open>The width of the integer that holds the discriminant, by the number of cases.\<close>

definition disc_width :: "nat \<Rightarrow> nat option" where
  "disc_width n = (if n \<le> 255 then Some 8 else if n \<le> 65535 then Some 16
     else if n \<le> 4294967295 then Some 32 else None)"

lemma disc_width_Some: "disc_width n = Some w \<Longrightarrow> w \<in> {8, 16, 32} \<and> n < 2 ^ w \<and> n < 2 ^ 32"
  by (auto simp: disc_width_def split: if_splits)

lemma disc_width_small: "n < 2 ^ 32 \<Longrightarrow> \<exists>w. disc_width n = Some w"
  by (auto simp: disc_width_def)

section \<open>Encoders\<close>

text \<open>
  The failures of an encoder, \<open>anyhow\<close> errors in the code: one constructor for each message. An encoder is
  modelled by the bytes it appends to its buffer; a caller drops the buffer on an error.
\<close>

datatype encode_error =
    ListTooLong | NoElementType | UnknownCase | TooManyCases | UnexpectedPayload | MissingPayload
  | NoSomeType | NoResultTypes | UnknownFlag | LengthMismatch | NameMismatch | TypeMismatch | UnsupportedType
  | Overflow | Resource_Error | Io io_error

type_synonym encoded = "encode_error + bytes"

definition io :: "io_error + 'a \<Rightarrow> encode_error + 'a" where
  "io r = (case r of Inl e \<Rightarrow> Inl (Io e) | Inr a \<Rightarrow> Inr a)"

lemma io_simps [simp]: "io (Inr a) = Inr a" "io (Inl e) = Inl (Io e)"
  by (simp_all add: io_def)

text \<open>One encoder after the other, up to the first error.\<close>

primrec encode_seq :: "encoded list \<Rightarrow> encoded" where
  "encode_seq [] = Inr []"
| "encode_seq (e # es) = and_then e (\<lambda>b. and_then (encode_seq es) (\<lambda>c. Inr (b @ c)))"

primrec read_seq :: "'a reader list \<Rightarrow> 'a list reader" where
  "read_seq [] = ret []"
| "read_seq (f # fs) = bind f (\<lambda>a. bind (read_seq fs) (\<lambda>as. ret (a # as)))"

lemma read_n_seq: "read_n f n = read_seq (replicate n f)"
  by (induction n) auto

lemma read_seq_all2:
  "read_seq fs b = Inr (xs, r) \<Longrightarrow> (\<And>f b x r. f \<in> set fs \<Longrightarrow> f b = Inr (x, r) \<Longrightarrow> P f x) \<Longrightarrow>
   list_all2 P fs xs"
  by (induction fs arbitrary: b xs) (fastforce simp: bind_eq_Inr)+

text \<open>
  An encoder and a reader agree on a value: the encoder succeeds, and the reader gives back the value and
  leaves what follows.
\<close>

definition codes :: "'a reader \<Rightarrow> 'a \<Rightarrow> encoded \<Rightarrow> bool" where
  "codes f x e \<longleftrightarrow> (\<exists>b. e = Inr b \<and> (\<forall>r. f (b @ r) = Inr (x, r)))"

lemma codesI: "(\<And>r. f (b @ r) = Inr (x, r)) \<Longrightarrow> codes f x (Inr b)"
  by (auto simp: codes_def)

lemma codes_bind:
  "codes m a d \<Longrightarrow> codes (f a) x e \<Longrightarrow> codes (bind m f) x (and_then d (\<lambda>b. and_then e (\<lambda>c. Inr (b @ c))))"
  by (auto simp: codes_def)

lemma codes_ret: "codes m a e \<Longrightarrow> f a = ret x \<Longrightarrow> codes (bind m f) x e"
  by (auto simp: codes_def)

lemma codes_prefix:
  "codes (f a) x e \<Longrightarrow> (\<And>r. m (b @ r) = Inr (a, r)) \<Longrightarrow> codes (bind m f) x (and_then e (\<lambda>c. Inr (b @ c)))"
  using codes_bind [OF codesI, of m b a f x e] by simp

lemma codes_Nil: "codes (read_seq []) [] (encode_seq [])"
  by (simp add: codes_def)

lemma codes_Cons:
  "codes f x e \<Longrightarrow> codes (read_seq fs) xs (encode_seq es) \<Longrightarrow>
   codes (read_seq (f # fs)) (x # xs) (encode_seq (e # es))"
  unfolding read_seq.simps encode_seq.simps by (intro codes_bind) (auto intro: codes_ret)

lemma codes_seq:
  "list_all2 (\<lambda>(f, e) x. codes f x e) (zip fs es) xs \<Longrightarrow> length fs = length es \<Longrightarrow>
   codes (read_seq fs) xs (encode_seq es)"
proof (induction fs arbitrary: es xs)
  case (Cons f fs)
  from Cons.prems obtain e es' x xs' where *: "es = e # es'" "xs = x # xs'"
    by (cases es; cases xs) auto
  with Cons.prems have "codes f x e" "codes (read_seq fs) xs' (encode_seq es')"
    by (auto intro!: Cons.IH)
  then show ?case unfolding * by (rule codes_Cons)
qed (auto simp: codes_def)

end
