(* ===== verification/Wave_Codec.thy ===== *)
theory Wave_Codec
  imports Values
begin

text \<open>
  The value codec of \<open>crates/wave\<close>: \<open>ValueEncoder::encode\<close> (\<open>encode.rs\<close>), \<open>read_value\<close> and
  \<open>decode_value\<close> (\<open>decode.rs\<close>).

  The code is generic over the \<open>WasmValue\<close> and \<open>WasmType\<close> traits of the \<open>wasm-wave\<close> crate. A value of
  the trait is a \<open>val\<close>, a type a \<open>ty\<close>; the constructors \<open>make_list\<close>, \<open>make_record\<close>, .. may reject a
  value, so the reader has a parameter \<open>accepts\<close>, and the theorems assume of it only that a value of the
  type is not rejected. The iterators over the parts of a type are empty if the type is of another kind.
\<close>

section \<open>Encoding\<close>

definition record_fields :: "ty \<Rightarrow> (string \<times> ty) list" where
  "record_fields t = (case as_record t of Some fs \<Rightarrow> fs | None \<Rightarrow> [])"

definition tuple_element_types :: "ty \<Rightarrow> ty list" where
  "tuple_element_types t = (case as_tuple t of Some ts \<Rightarrow> ts | None \<Rightarrow> [])"

definition variant_cases :: "ty \<Rightarrow> (string \<times> ty option) list" where
  "variant_cases t = (case as_variant t of Some cs \<Rightarrow> cs | None \<Rightarrow> [])"

definition enum_cases :: "ty \<Rightarrow> string list" where
  "enum_cases t = (case as_enum t of Some ns \<Rightarrow> ns | None \<Rightarrow> [])"

definition flags_names :: "ty \<Rightarrow> string list" where
  "flags_names t = (case as_flags t of Some ns \<Rightarrow> ns | None \<Rightarrow> [])"

definition find_enum_discriminant :: "string list \<Rightarrow> string \<Rightarrow> encode_error + nat" where
  "find_enum_discriminant names c =
    (case find_index 0 names c of Some i \<Rightarrow> Inr i | None \<Rightarrow> Inl UnknownCase)"

definition find_variant_discriminant ::
  "(string \<times> ty option) list \<Rightarrow> string \<Rightarrow> encode_error + nat \<times> ty option" where
  "find_variant_discriminant cases c =
    (case find_index 0 (map fst cases) c of Some i \<Rightarrow> Inr (i, snd (cases ! i)) | None \<Rightarrow> Inl UnknownCase)"

text \<open>A payload is present exactly if the type has one.\<close>

definition encode_payload :: "(ty \<Rightarrow> encoded) option \<Rightarrow> ty option \<Rightarrow> encoded" where
  "encode_payload e t =
    (case (e, t) of
       (Some f, Some u) \<Rightarrow> f u
     | (None, None) \<Rightarrow> Inr []
     | (Some _, None) \<Rightarrow> Inl UnexpectedPayload
     | (None, Some _) \<Rightarrow> Inl MissingPayload)"

definition encode_variant :: "wasm_tokio \<Rightarrow> string \<Rightarrow> (ty \<Rightarrow> encoded) option \<Rightarrow> ty \<Rightarrow> encoded" where
  "encode_variant W c payload t =
    (let cases = variant_cases t in
     case disc_width (length cases) of
       None \<Rightarrow> Inl TooManyCases
     | Some w \<Rightarrow>
         and_then (find_variant_discriminant cases c) (\<lambda>(discriminant, u).
           and_then (encode_payload payload u) (\<lambda>b. Inr (leb_enc W w discriminant @ b))))"

definition encode_enum :: "wasm_tokio \<Rightarrow> string \<Rightarrow> ty \<Rightarrow> encoded" where
  "encode_enum W c t =
    (let names = enum_cases t in
     case disc_width (length names) of
       None \<Rightarrow> Inl TooManyCases
     | Some w \<Rightarrow>
         and_then (find_enum_discriminant names c) (\<lambda>discriminant. Inr (leb_enc W w discriminant)))"

definition encode_option :: "(ty \<Rightarrow> encoded) option \<Rightarrow> ty \<Rightarrow> encoded" where
  "encode_option v t =
    (case v of
       None \<Rightarrow> Inr [0]
     | Some e \<Rightarrow>
         (case as_option t of
            None \<Rightarrow> Inl NoSomeType
          | Some u \<Rightarrow> and_then (e u) (\<lambda>b. Inr (1 # b))))"

definition encode_result :: "bool \<Rightarrow> (ty \<Rightarrow> encoded) option \<Rightarrow> ty \<Rightarrow> encoded" where
  "encode_result ok v t =
    (case as_result t of
       None \<Rightarrow> Inl NoResultTypes
     | Some (ok_ty, err_ty) \<Rightarrow>
         and_then (encode_payload v (if ok then ok_ty else err_ty)) (\<lambda>b. Inr ((if ok then 0 else 1) # b)))"

definition encode_list :: "wasm_tokio \<Rightarrow> (ty \<Rightarrow> encoded) list \<Rightarrow> ty \<Rightarrow> encoded" where
  "encode_list W elements t =
    (if length elements < 2 ^ 32 then
       (case as_list t of
          None \<Rightarrow> Inl NoElementType
        | Some u \<Rightarrow>
            and_then (encode_seq (map (\<lambda>e. e u) elements)) (\<lambda>b. Inr (leb_enc W 32 (length elements) @ b)))
     else Inl ListTooLong)"

primrec wave_encode :: "wasm_tokio \<Rightarrow> val \<Rightarrow> ty \<Rightarrow> encoded" where
  "wave_encode W (VBool b) = (\<lambda>t. Inr [if b then 1 else 0])"
| "wave_encode W (VS8 i) = (\<lambda>t. Inr [i8_byte i])"
| "wave_encode W (VU8 n) = (\<lambda>t. Inr [as_u8 n])"
| "wave_encode W (VS16 i) = (\<lambda>t. Inr (sleb_enc W 16 i))"
| "wave_encode W (VU16 n) = (\<lambda>t. Inr (leb_enc W 16 n))"
| "wave_encode W (VS32 i) = (\<lambda>t. Inr (sleb_enc W 32 i))"
| "wave_encode W (VU32 n) = (\<lambda>t. Inr (leb_enc W 32 n))"
| "wave_encode W (VS64 i) = (\<lambda>t. Inr (sleb_enc W 64 i))"
| "wave_encode W (VU64 n) = (\<lambda>t. Inr (leb_enc W 64 n))"
| "wave_encode W (VFloat32 n) = (\<lambda>t. Inr (to_le_bytes 4 n))"
| "wave_encode W (VFloat64 n) = (\<lambda>t. Inr (to_le_bytes 8 n))"
| "wave_encode W (VChar c) = (\<lambda>t. Inr (char_enc W c))"
| "wave_encode W (VString s) = (\<lambda>t. io (name_enc W s))"
| "wave_encode W (VList vs) = encode_list W (map (wave_encode W) vs)"
| "wave_encode W (VRecord fs) =
    (\<lambda>t. encode_seq (map (\<lambda>((name, e), (_, u)). e u)
       (zip (map (map_prod id (wave_encode W)) fs) (record_fields t))))"
| "wave_encode W (VTuple vs) =
    (\<lambda>t. encode_seq (map (\<lambda>(e, u). e u) (zip (map (wave_encode W) vs) (tuple_element_types t))))"
| "wave_encode W (VVariant c v) = encode_variant W c (map_option (wave_encode W) v)"
| "wave_encode W (VEnum c) = encode_enum W c"
| "wave_encode W (VOption v) = encode_option (map_option (wave_encode W) v)"
| "wave_encode W (VResult ok v) = encode_result ok (map_option (wave_encode W) v)"
| "wave_encode W (VFlags fs) = (\<lambda>t. Inr (encode_flags (flags_names t) fs))"
| "wave_encode W (VResource _) = (\<lambda>t. Inl UnsupportedType)"
| "wave_encode W (VFuture _) = (\<lambda>t. Inl UnsupportedType)"
| "wave_encode W (VStream _) = (\<lambda>t. Inl UnsupportedType)"

section \<open>Decoding\<close>

type_synonym accepts = "ty \<Rightarrow> val \<Rightarrow> bool"

definition make :: "accepts \<Rightarrow> ty \<Rightarrow> val \<Rightarrow> val reader" where
  "make A t v = (if A t v then ret v else fail InvalidData)"

definition read_variant :: "wasm_tokio \<Rightarrow> accepts \<Rightarrow> (string \<times> ty option) list \<Rightarrow> val reader option list \<Rightarrow> val reader"
where
  "read_variant W A cs payloads =
    bind (leb_read W 32) (\<lambda>discriminant.
      if discriminant < length cs then
        (case payloads ! discriminant of
           Some f \<Rightarrow> bind f (\<lambda>v. make A (TVariant cs) (VVariant (fst (cs ! discriminant)) (Some v)))
         | None \<Rightarrow> make A (TVariant cs) (VVariant (fst (cs ! discriminant)) None))
      else fail InvalidData)"

definition read_enum :: "wasm_tokio \<Rightarrow> accepts \<Rightarrow> string list \<Rightarrow> val reader" where
  "read_enum W A names =
    bind (leb_read W 32) (\<lambda>discriminant.
      if discriminant < length names then make A (TEnum names) (VEnum (names ! discriminant))
      else fail InvalidData)"

definition read_result ::
  "wasm_tokio \<Rightarrow> accepts \<Rightarrow> ty \<Rightarrow> val reader option \<Rightarrow> val reader option \<Rightarrow> val reader" where
  "read_result W A t ok_read err_read =
    bind (read_result_status W) (\<lambda>ok.
      case (if ok then ok_read else err_read) of
        Some f \<Rightarrow> bind f (\<lambda>v. make A t (VResult ok (Some v)))
      | None \<Rightarrow> make A t (VResult ok None))"

primrec wave_read :: "wasm_tokio \<Rightarrow> accepts \<Rightarrow> ty \<Rightarrow> val reader" where
  "wave_read W A TBool = bind (read_bool W) (\<lambda>b. ret (VBool b))"
| "wave_read W A TS8 = bind read_i8 (\<lambda>i. ret (VS8 i))"
| "wave_read W A TU8 = bind read_u8 (\<lambda>b. ret (VU8 (unat b)))"
| "wave_read W A TS16 = bind (sleb_read W 16) (\<lambda>i. ret (VS16 i))"
| "wave_read W A TU16 = bind (leb_read W 16) (\<lambda>n. ret (VU16 n))"
| "wave_read W A TS32 = bind (sleb_read W 32) (\<lambda>i. ret (VS32 i))"
| "wave_read W A TU32 = bind (leb_read W 32) (\<lambda>n. ret (VU32 n))"
| "wave_read W A TS64 = bind (sleb_read W 64) (\<lambda>i. ret (VS64 i))"
| "wave_read W A TU64 = bind (leb_read W 64) (\<lambda>n. ret (VU64 n))"
| "wave_read W A TFloat32 = bind (read_le 4) (\<lambda>n. ret (VFloat32 n))"
| "wave_read W A TFloat64 = bind (read_le 8) (\<lambda>n. ret (VFloat64 n))"
| "wave_read W A TChar = bind (char_read W) (\<lambda>c. ret (VChar c))"
| "wave_read W A TString = bind (name_read W) (\<lambda>s. ret (VString s))"
| "wave_read W A (TList t) =
    bind (leb_read W 32) (\<lambda>n. bind (read_n (wave_read W A t) n) (\<lambda>vs. make A (TList t) (VList vs)))"
| "wave_read W A (TRecord fs) =
    bind (read_seq (map snd (map (map_prod id (wave_read W A)) fs)))
      (\<lambda>vs. make A (TRecord fs) (VRecord (zip (map fst fs) vs)))"
| "wave_read W A (TTuple ts) =
    bind (read_seq (map (wave_read W A) ts)) (\<lambda>vs. make A (TTuple ts) (VTuple vs))"
| "wave_read W A (TVariant cs) =
    read_variant W A cs (map snd (map (map_prod id (map_option (wave_read W A))) cs))"
| "wave_read W A (TEnum names) = read_enum W A names"
| "wave_read W A (TOption t) =
    bind (read_option_status W) (\<lambda>some.
      if some then bind (wave_read W A t) (\<lambda>v. make A (TOption t) (VOption (Some v)))
      else make A (TOption t) (VOption None))"
| "wave_read W A (TResult a b) =
    read_result W A (TResult a b) (map_option (wave_read W A) a) (map_option (wave_read W A) b)"
| "wave_read W A (TFlags names) =
    bind (read_flags names) (\<lambda>buf. make A (TFlags names) (VFlags (flags_of names buf)))"
| "wave_read W A (TOwn _) = fail InvalidData"
| "wave_read W A (TBorrow _) = fail InvalidData"
| "wave_read W A (TFuture _) = fail InvalidData"
| "wave_read W A (TStream _) = fail InvalidData"
| "wave_read W A TErrorContext = fail InvalidData"
| "wave_read W A (TMap _ _) = fail InvalidData"
| "wave_read W A (TFixedLengthList _ _) = fail InvalidData"

definition decode_value :: "wasm_tokio \<Rightarrow> accepts \<Rightarrow> bytes \<Rightarrow> ty \<Rightarrow> io_error + val" where
  "decode_value W A buf t =
    and_then (wave_read W A t buf) (\<lambda>(v, rest). if rest \<noteq> [] then Inl InvalidData else Inr v)"

section \<open>Round trip\<close>

lemmas part_defs = record_fields_def tuple_element_types_def variant_cases_def enum_cases_def flags_names_def

lemma codes_leb:
  assumes "wasm_tokio_values W" and "disc_width n = Some w" and "i < n"
  shows "leb_read W 32 (leb_enc W w i @ r) = Inr (i, r)"
proof -
  from disc_width_Some [OF assms(2)] have "w \<in> {8, 16, 32, 64}" "n < 2 ^ w" "n < 2 ^ 32" by auto
  with assms(3) have "leb_enc W w i = leb_enc W 32 i"
    by (intro wasm_tokio_values.enc_width [OF assms(1)]) auto
  with assms(3) \<open>n < 2 ^ 32\<close> show ?thesis by (simp add: wasm_tokio_values.read_enc [OF assms(1)])
qed

lemma codes_make: "codes f v e \<Longrightarrow> A t (g v) \<Longrightarrow> codes (bind f (\<lambda>v. make A t (g v))) (g v) e"
  by (rule codes_ret [where a = v]) (simp_all add: make_def)

lemma wave_codes_variant:
  assumes W: "wasm_tokio_values W"
    and IH: "\<And>v' u. v' \<in> set_option v \<Longrightarrow> has_type v' u \<Longrightarrow> codes (wave_read W A u) v' (wave_encode W v' u)"
    and ty: "has_type (VVariant c v) (TVariant cs)" and A: "A (TVariant cs) (VVariant c v)"
  shows "codes (wave_read W A (TVariant cs)) (VVariant c v) (wave_encode W (VVariant c v) (TVariant cs))"
proof -
  from ty obtain u where u: "map_of cs c = Some u" "rel_option (\<lambda>p u. p u) (map_option has_type v) u"
    and n: "length cs < 2 ^ 32"
    by (auto split: option.splits)
  obtain w where w: "disc_width (length cs) = Some w" using disc_width_small [OF n] by blast
  from u(1) have "c \<in> set (map fst cs)" by (force dest: map_of_SomeD)
  then obtain i where i: "find_index 0 (map fst cs) c = Some i" by (metis find_index_None not_Some_eq)
  with find_index_Some [OF i] find_index_map_of [OF i] u(1)
  have i': "i < length cs" "fst (cs ! i) = c" "snd (cs ! i) = u" by auto
  have "codes (if i < length cs then
        (case map snd (map (map_prod id (map_option (wave_read W A))) cs) ! i of
           Some f \<Rightarrow> bind f (\<lambda>v. make A (TVariant cs) (VVariant (fst (cs ! i)) (Some v)))
         | None \<Rightarrow> make A (TVariant cs) (VVariant (fst (cs ! i)) None))
      else fail InvalidData) (VVariant c v) (encode_payload (map_option (wave_encode W) v) u)"
    using u(2) A i' by (cases v; cases u)
      (auto simp: encode_payload_def make_def intro!: codesI codes_ret [OF IH])
  moreover have "wave_encode W (VVariant c v) (TVariant cs) =
      and_then (encode_payload (map_option (wave_encode W) v) u) (\<lambda>b. Inr (leb_enc W w i @ b))"
    by (simp add: encode_variant_def variant_cases_def w find_variant_discriminant_def i i')
  ultimately show ?thesis
    unfolding wave_read.simps read_variant_def by (simp only:) (rule codes_prefix [OF _ codes_leb [OF W w i'(1)]])
qed

lemma wave_codes_enum:
  assumes W: "wasm_tokio_values W" and ty: "has_type (VEnum c) (TEnum ns)" and A: "A (TEnum ns) (VEnum c)"
  shows "codes (wave_read W A (TEnum ns)) (VEnum c) (wave_encode W (VEnum c) (TEnum ns))"
proof -
  from ty have n: "length ns < 2 ^ 32" and c: "c \<in> set ns" by auto
  obtain w where w: "disc_width (length ns) = Some w" using disc_width_small [OF n] by blast
  from c obtain i where i: "find_index 0 ns c = Some i" by (metis find_index_None not_Some_eq)
  with find_index_Some [OF i] have "i < length ns" "ns ! i = c" by auto
  with A i show ?thesis
    by (auto simp: read_enum_def encode_enum_def enum_cases_def find_enum_discriminant_def w make_def
        codes_leb [OF W w] intro!: codesI)
qed

lemma wave_codes_fields:
  assumes "\<And>v u. v \<in> snd ` set fs \<Longrightarrow> has_type v u \<Longrightarrow> codes (wave_read W A u) v (wave_encode W v u)"
    and "list_all2 (\<lambda>(n, p) (m, u). n = m \<and> p u) (map (map_prod id has_type) fs) ts"
  shows "codes (read_seq (map snd (map (map_prod id (wave_read W A)) ts))) (map snd fs)
      (encode_seq (map (\<lambda>((name, e), (_, u)). e u) (zip (map (map_prod id (wave_encode W)) fs) ts))) \<and>
    map fst fs = map fst ts"
  using assms
proof (induction fs arbitrary: ts)
  case (Cons f fs)
  obtain n v where f: "f = (n, v)" by (cases f)
  from Cons.prems(2) f obtain u ts' where ts: "ts = (n, u) # ts'" and v: "has_type v u"
    and rest: "list_all2 (\<lambda>(n, p) (m, u). n = m \<and> p u) (map (map_prod id has_type) fs) ts'"
    by (cases ts) (auto simp: id_def)
  have "codes (wave_read W A u) v (wave_encode W v u)" using Cons.prems(1) f v by auto
  moreover have
    "codes (read_seq (map snd (map (map_prod id (wave_read W A)) ts'))) (map snd fs)
      (encode_seq (map (\<lambda>((name, e), (_, u)). e u) (zip (map (map_prod id (wave_encode W)) fs) ts'))) \<and>
    map fst fs = map fst ts'"
    by (rule Cons.IH [OF _ rest]) (simp add: Cons.prems(1))
  ultimately show ?case
    by (auto simp: f ts id_def simp del: read_seq.simps encode_seq.simps intro: codes_Cons)
qed (auto simp: codes_def)

lemma wave_codes_elements:
  assumes "\<And>v u. v \<in> set vs \<Longrightarrow> has_type v u \<Longrightarrow> codes (wave_read W A u) v (wave_encode W v u)"
    and "list_all2 (\<lambda>p u. p u) (map has_type vs) ts"
  shows "codes (read_seq (map (wave_read W A) ts)) vs
      (encode_seq (map (\<lambda>(e, u). e u) (zip (map (wave_encode W) vs) ts)))"
  using assms
proof (induction vs arbitrary: ts)
  case (Cons v vs)
  from Cons.prems(2) obtain u ts' where "ts = u # ts'" "has_type v u"
    and rest: "list_all2 (\<lambda>p u. p u) (map has_type vs) ts'"
    by (cases ts) auto
  moreover have "codes (read_seq (map (wave_read W A) ts')) vs
      (encode_seq (map (\<lambda>(e, u). e u) (zip (map (wave_encode W) vs) ts')))"
    by (rule Cons.IH [OF _ rest]) (simp add: Cons.prems(1))
  ultimately show ?case
    using Cons.prems(1) by (auto simp del: read_seq.simps encode_seq.simps intro!: codes_Cons)
qed (auto simp: codes_def)

text \<open>What is written for a value of a type is read back, whatever follows.\<close>

lemma wave_codes:
  assumes W: "wasm_tokio_values W" and A: "\<And>v t. has_type v t \<Longrightarrow> A t v"
  shows "has_type v t \<Longrightarrow> codes (wave_read W A t) v (wave_encode W v t)"
proof (induction v arbitrary: t)
  case (VList vs)
  from VList.prems obtain u where t: "t = TList u" and n: "length vs < 2 ^ 32"
    and vs: "\<And>v. v \<in> set vs \<Longrightarrow> has_type v u"
    by (auto simp: list_all_iff split: option.splits)
  have "list_all2 (\<lambda>p u. p u) (map has_type vs) (replicate (length vs) u)"
    using vs by (auto simp: list_all2_conv_all_nth)
  from wave_codes_elements [OF VList.IH this]
  have "codes (read_n (wave_read W A u) (length vs)) vs (encode_seq (map (\<lambda>e. e u) (map (wave_encode W) vs)))"
    by (simp add: read_n_seq zip_replicate2 comp_def)
  from n codes_make [OF this, of A t VList] A [OF VList.prems] show ?case
    unfolding t wave_read.simps wave_encode.simps encode_list_def
    by (auto simp: wasm_tokio_values.read_enc [OF W] simp del: map_map intro!: codes_prefix)
next
  case (VRecord fs)
  then obtain ts where t: "t = TRecord ts"
    and ts: "list_all2 (\<lambda>(n, p) (m, u). n = m \<and> p u) (map (map_prod id has_type) fs) ts"
    by (auto split: option.splits)
  have "codes (wave_read W A u) v (wave_encode W v u)" if "v \<in> snd ` set fs" "has_type v u" for v u
    using VRecord.IH that by force
  from wave_codes_fields [OF this ts] have
    "codes (read_seq (map snd (map (map_prod id (wave_read W A)) ts))) (map snd fs)
      (encode_seq (map (\<lambda>((name, e), (_, u)). e u) (zip (map (map_prod id (wave_encode W)) fs) ts)))"
    and names: "map fst fs = map fst ts" by auto
  from codes_make [OF this(1), of A t "\<lambda>vs. VRecord (zip (map fst ts) vs)"] A [OF VRecord.prems] show ?case
    unfolding t wave_read.simps wave_encode.simps names [symmetric] by (simp add: record_fields_def zip_map_fst_snd)
next
  case (VTuple vs)
  then obtain ts where t: "t = TTuple ts" and ts: "list_all2 (\<lambda>p u. p u) (map has_type vs) ts"
    by (auto split: option.splits)
  from codes_make [OF wave_codes_elements [OF VTuple.IH ts], of A t VTuple] A [OF VTuple.prems] show ?case
    by (simp add: t tuple_element_types_def)
next
  case (VVariant c v)
  then obtain cs where "t = TVariant cs" by (auto split: option.splits)
  with wave_codes_variant [OF W VVariant.IH] VVariant.prems A show ?case by blast
next
  case (VEnum c)
  then obtain ns where "t = TEnum ns" by (auto split: option.splits)
  with wave_codes_enum [OF W] VEnum.prems A show ?case by blast
next
  case (VOption v)
  then obtain u where t: "t = TOption u" by (auto split: option.splits)
  show ?case
  proof (cases v)
    case None
    with A [OF VOption.prems] show ?thesis
      by (auto simp: t encode_option_def make_def bind_def wasm_tokio_values.option_bytes [OF W] intro!: codesI)
  next
    case (Some v')
    with VOption have "codes (wave_read W A u) v' (wave_encode W v' u)" by (auto simp: t)
    with A [OF VOption.prems] show ?thesis
      by (auto simp: t Some encode_option_def codes_def make_def bind_def wasm_tokio_values.option_bytes [OF W])
  qed
next
  case (VResult ok v)
  then obtain a b where t: "t = TResult a b" by (auto split: option.splits)
  define u where "u = (if ok then a else b)"
  have "rel_option (\<lambda>p u. p u) (map_option has_type v) u" using VResult.prems by (simp add: t u_def)
  then consider "v = None" "u = None"
    | v' u' where "v = Some v'" "u = Some u'" "codes (wave_read W A u') v' (wave_encode W v' u')"
    using VResult.IH by (cases v; cases u) auto
  then show ?case
    using A [OF VResult.prems] by cases (cases ok; auto simp: t u_def encode_result_def read_result_def
        encode_payload_def codes_def make_def bind_def wasm_tokio_values.result_bytes [OF W])+
next
  case (VFlags fs)
  then obtain ns where t: "t = TFlags ns" and "fs = filter (\<lambda>n. n \<in> set fs) ns"
    by (auto split: option.splits)
  then have "flags_of ns (encode_flags ns fs) = fs" by (simp add: flags_of_encode)
  with A [OF VFlags.prems] show ?case
    by (auto simp: t flags_names_def make_def bind_def read_encode_flags intro!: codesI)
qed (auto simp: codes_def bind_def is_char_def srange_def read_i8_byte wasm_tokio_values.bool_bytes [OF W]
    wasm_tokio_values.sread_senc [OF W] wasm_tokio_values.read_enc [OF W] wasm_tokio_values.char_read_enc [OF W]
    read_le_to_le leb128.name_enc_small [OF wasm_tokio_values.axioms(1) [OF W]]
    wasm_tokio_values.name_read_enc [OF W])

section \<open>Type soundness\<close>

lemma make_eq_Inr [simp]: "make A t v b = Inr (w, r) \<longleftrightarrow> A t v \<and> w = v \<and> r = b"
  by (auto simp: make_def)

lemma read_typed_variant:
  assumes IH: "\<And>n u v b r. (n, Some u) \<in> set cs \<Longrightarrow> wave_read W A u b = Inr (v, r) \<Longrightarrow> has_type v u"
    and read: "wave_read W A (TVariant cs) b = Inr (v, r)" and valid: "distinct (map fst cs)" "length cs < 2 ^ 32"
  shows "has_type v (TVariant cs)"
proof -
  from read obtain i s where i: "i < length cs"
    and v: "(case map_option (wave_read W A) (snd (cs ! i)) of
           Some f \<Rightarrow> bind f (\<lambda>v. make A (TVariant cs) (VVariant (fst (cs ! i)) (Some v)))
         | None \<Rightarrow> make A (TVariant cs) (VVariant (fst (cs ! i)) None)) s = Inr (v, r)"
    by (auto simp: read_variant_def bind_eq_Inr split: if_splits)
  obtain n u where c: "cs ! i = (n, u)" by (cases "cs ! i")
  then have "(n, u) \<in> set cs" using i by (metis nth_mem)
  with valid(1) have "map_of cs n = Some u" by (intro map_of_is_SomeI) auto
  with v valid IH [of n] \<open>(n, u) \<in> set cs\<close> show ?thesis
    by (cases u) (auto simp: c bind_eq_Inr)
qed

lemma read_seq_typed:
  "read_seq (map (wave_read W A) ts) b = Inr (vs, r) \<Longrightarrow>
   (\<And>u v b r. u \<in> set ts \<Longrightarrow> wave_read W A u b = Inr (v, r) \<Longrightarrow> has_type v u) \<Longrightarrow>
   list_all2 (\<lambda>p u. p u) (map has_type vs) ts"
  by (induction ts arbitrary: b vs) (fastforce simp: bind_eq_Inr)+

lemma zip_fields_typed:
  "list_all2 (\<lambda>p u. p u) (map has_type vs) (map snd fs) \<Longrightarrow>
   list_all2 (\<lambda>(n, p) (m, u). n = m \<and> p u) (map (map_prod id has_type) (zip (map fst fs) vs)) fs"
  by (induction fs arbitrary: vs) (auto simp: list_all2_Cons2 map_eq_Cons_conv id_def)

lemma wave_read_has_type:
  assumes W: "wasm_tokio_values W"
  shows "wave_read W A t b = Inr (v, r) \<Longrightarrow> valid_ty t \<Longrightarrow> has_type v t"
proof (induction t arbitrary: b v r)
  case (TList t)
  then obtain n s vs where n: "leb_read W 32 b = Inr (n, s)"
    and vs: "read_n (wave_read W A t) n s = Inr (vs, r)" "v = VList vs"
    by (auto simp: bind_eq_Inr)
  have "n < 2 ^ 32" using wasm_tokio_values.read_bound [OF W _ n] by simp
  moreover have "\<forall>v \<in> set vs. has_type v t"
    using read_n_all [OF vs(1), of "\<lambda>v. has_type v t"] TList by simp
  ultimately show ?case using read_n_length [OF vs(1)] vs(2) by (simp add: list_all_iff)
next
  case (TRecord fs)
  then obtain vs where vs: "read_seq (map (wave_read W A) (map snd fs)) b = Inr (vs, r)"
    and v: "v = VRecord (zip (map fst fs) vs)"
    by (auto simp: bind_eq_Inr comp_def)
  have "has_type w u" if "u \<in> set (map snd fs)" "wave_read W A u c = Inr (w, s)" for u w c s
    using that TRecord.prems(2) TRecord.IH [OF _ _ that(2)] by (force simp: list_all_iff)
  with read_seq_typed [OF vs] have "list_all2 (\<lambda>p u. p u) (map has_type vs) (map snd fs)" by blast
  from zip_fields_typed [OF this] show ?case by (simp add: v)
next
  case (TTuple ts)
  then obtain vs where "read_seq (map (wave_read W A) ts) b = Inr (vs, r)" and v: "v = VTuple vs"
    by (auto simp: bind_eq_Inr)
  from read_seq_typed [OF this(1)] TTuple show ?case by (force simp: v list_all_iff)
next
  case (TVariant cs)
  have "has_type w u" if "(n, Some u) \<in> set cs" "wave_read W A u c = Inr (w, s)" for n u w c s
    using that TVariant.prems(2) TVariant.IH [OF that(1) _ _ that(2)] by (force simp: list_all_iff)
  from read_typed_variant [OF this TVariant.prems(1)] TVariant.prems(2) show ?case by simp
next
  case (TOption t)
  then show ?case by (auto simp: bind_eq_Inr split: if_splits)
next
  case (TResult x y)
  then show ?case
    by (cases x; cases y) (auto simp: bind_eq_Inr read_result_def split: if_splits option.splits)
next
  case (TFlags ns)
  then show ?case using flags_of_subset by (auto simp: bind_eq_Inr)
qed (auto simp: bind_eq_Inr is_char_def srange_def read_enum_def dest: read_i8_range read_le_bound
    wasm_tokio_values.read_bound [OF W, rotated] wasm_tokio_values.sread_bound [OF W, rotated]
    wasm_tokio_values.name_read_bound [OF W] wasm_tokio_values.char_read_bound [OF W] split: if_splits)

section \<open>Properties\<close>

definition accepts_typed :: "accepts \<Rightarrow> bool" where
  "accepts_typed A \<longleftrightarrow> (\<forall>v t. has_type v t \<longrightarrow> A t v)"

text \<open>
  Encoding and decoding a value (claim C19). A value of a type is encoded without an error, \<open>decode_value\<close>
  gives it back, and bytes after it are an error. The assumption on \<open>accepts\<close> is that the constructors of
  the \<open>WasmValue\<close> implementation do not reject a value of the type.
\<close>

theorem wave_roundtrip:
  assumes "wasm_tokio_values W" and "accepts_typed A" and "has_type v t"
  shows "\<exists>b. wave_encode W v t = Inr b \<and>
    (\<forall>x. decode_value W A (b @ x) t = (if x = [] then Inr v else Inl InvalidData))"
proof -
  from assms obtain b where "wave_encode W v t = Inr b" and r: "\<And>r. wave_read W A t (b @ r) = Inr (v, r)"
    using wave_codes [of W A v t] unfolding codes_def accepts_typed_def by blast
  moreover from r [of "[]"] have "wave_read W A t b = Inr (v, [])" by simp
  ultimately show ?thesis by (auto simp: decode_value_def)
qed

definition example_ty :: ty where
  "example_ty = TRecord [(''a'', TList (TOption TU32)), (''b'', TVariant [(''x'', None), (''y'', Some TString)]),
     (''c'', TFlags [''r'', ''w'', ''x''])]"

definition example_val :: val where
  "example_val = VRecord [(''a'', VList [VOption (Some (VU32 300)), VOption None]),
     (''b'', VVariant ''y'' (Some (VString [104, 105]))), (''c'', VFlags [''r'', ''x''])]"

lemma example_val_typed: "has_type example_val example_ty"
  by (simp add: example_val_def example_ty_def)

theorem wave_roundtrip_witness:
  "\<exists>b. wave_encode wasm_ref example_val example_ty = Inr b \<and>
    (\<forall>x. decode_value wasm_ref (\<lambda>t v. has_type v t) (b @ x) example_ty =
      (if x = [] then Inr example_val else Inl InvalidData))"
  by (rule wave_roundtrip [OF ref.wasm_tokio_values_axioms _ example_val_typed]) (simp add: accepts_typed_def)

text \<open>
  Type soundness of \<open>read_value\<close> (claim C20). Whatever the bytes are, a value that is read has the type
  asked for: integers in their range, a list of less than \<open>2\<^sup>3\<^sup>2\<close> elements, a case of the variant with a
  payload exactly if the case has one, flags of the type in its order.
\<close>

theorem wave_read_typed:
  assumes "wasm_tokio_values W" and "valid_ty t" and "wave_read W A t b = Inr (v, r)"
  shows "has_type v t"
  using wave_read_has_type [OF assms(1,3,2)] .

theorem wave_read_typed_witness:
  "wave_read wasm_ref (\<lambda>t v. True) example_ty ([1, 1, 5, 0, 7] @ [9]) =
     Inr (VRecord [(''a'', VList [VOption (Some (VU32 5))]), (''b'', VVariant ''x'' None),
       (''c'', VFlags [''r'', ''w'', ''x''])], [9]) \<and>
   has_type (VRecord [(''a'', VList [VOption (Some (VU32 5))]), (''b'', VVariant ''x'' None),
       (''c'', VFlags [''r'', ''w'', ''x''])]) example_ty"
proof -
  have *: "wave_read wasm_ref (\<lambda>t v. True) example_ty ([1, 1, 5, 0, 7] @ [9]) =
     Inr (VRecord [(''a'', VList [VOption (Some (VU32 5))]), (''b'', VVariant ''x'' None),
       (''c'', VFlags [''r'', ''w'', ''x''])], [9])"
    by (simp add: example_ty_def bind_def read_variant_def make_def read_flags_def flags_of_def read_exact_def
        wasm_ref_def read_of_def status_read_def id_def)
  moreover have "valid_ty example_ty" by (simp add: example_ty_def)
  ultimately show ?thesis using wave_read_typed [OF ref.wasm_tokio_values_axioms] by blast
qed

end
