(* ===== verification/Value_Codec.thy ===== *)
theory Value_Codec
  imports Wasm_Tokio
begin

text \<open>
  The codecs of Rust values, \<open>crates/transport/src/value.rs\<close>.

  \<^item> An encoder appends to a buffer and may leave a deferred operation, which transmits the asynchronous
    parts of the value later. \<open>Encode::encode\<close>, which encodes and takes the deferred operation, is a
    function from the value and the buffer to the new buffer and the deferred operation.
  \<^item> A deferred operation is a tree: \<open>At\<close> is what \<open>handle_deferred\<close> does, which runs the operation at
    index \<open>i\<close> on the sub-stream \<open>i\<close>; \<open>Here\<close> transmits or receives a future or a stream. \<open>locate\<close> is
    what is run at which path.
  \<^item> A decoder is an incremental decoder (\<open>stream_decoder\<close>) with an operation that takes the deferred
    operation of the last value.
  \<^item> Lists and arrays of any codec, bytes, resource handles, strings, futures and streams are as in the
    code. The codecs of integers, names and byte vectors, and of \<open>option\<close> and \<open>result\<close> around a codec, are
    from the \<open>wasm-tokio\<close> crate; they are arguments here.
\<close>

section \<open>Deferred operations\<close>

datatype 'l deferred = Here 'l | At "'l deferred option list"

primrec locate :: "'l deferred \<Rightarrow> (path \<times> 'l) list" where
  "locate (Here l) = [([], l)]"
| "locate (At ds) =
    concat (map (\<lambda>(i, d). case d of None \<Rightarrow> [] | Some ls \<Rightarrow> map (\<lambda>(p, l). (i # p, l)) ls)
      (enumerate 0 (map (map_option locate) ds)))"

definition located :: "'l deferred option \<Rightarrow> (path \<times> 'l) list" where
  "located d = (case d of None \<Rightarrow> [] | Some d \<Rightarrow> locate d)"

definition positions :: "'l deferred option \<Rightarrow> path list" where
  "positions d = map fst (located d)"

text \<open>\<open>if deferred.iter().any(Option::is_some)\<close>, which every compound codec ends with.\<close>

definition collect :: "'l deferred option list \<Rightarrow> 'l deferred option" where
  "collect ds = (if list_ex (\<lambda>d. d \<noteq> None) ds then Some (At ds) else None)"

text \<open>The positions within the elements from index \<open>m\<close> on.\<close>

definition element_positions :: "nat \<Rightarrow> 'l deferred option list \<Rightarrow> path list" where
  "element_positions m ds = concat (map (\<lambda>(i, d). map ((#) i) (positions d)) (enumerate m ds))"

lemma positions_simps [simp]: "positions None = []" "positions (Some (Here l)) = [[]]"
  by (simp_all add: positions_def located_def)

lemma element_positions_Nil [simp]: "element_positions m [] = []"
  by (simp add: element_positions_def)

lemma element_positions_Cons [simp]:
  "element_positions m (d # ds) = map ((#) m) (positions d) @ element_positions (Suc m) ds"
  by (simp add: element_positions_def)

lemma element_positions_append:
  "element_positions m (ds @ es) = element_positions m ds @ element_positions (m + length ds) es"
  by (simp add: element_positions_def enumerate_append_eq)

lemma element_positions_None [simp]: "element_positions m (replicate n None) = []"
  by (induction n arbitrary: m) auto

lemma locate_At:
  "map fst (concat (map (\<lambda>(i, d). case d of None \<Rightarrow> [] | Some ls \<Rightarrow> map (\<lambda>(p, l). (i # p, l)) ls)
      (enumerate m (map (map_option locate) ds)))) = element_positions m ds"
  by (induction ds arbitrary: m)
    (auto simp: positions_def located_def comp_def case_prod_beta split: option.split)

lemma positions_collect: "positions (collect ds) = element_positions 0 ds"
proof (cases "list_ex (\<lambda>d. d \<noteq> None) ds")
  case True
  then show ?thesis using locate_At [of 0 ds] by (simp add: collect_def positions_def located_def)
next
  case False
  then have "ds = replicate (length ds) None"
    by (metis (mono_tags, lifting) list_ex_iff replicate_eqI)
  then have "element_positions 0 ds = []" by (metis element_positions_None)
  with False show ?thesis by (simp add: collect_def)
qed

section \<open>Encoders\<close>

type_synonym ('v, 'l) encoder = "'v \<Rightarrow> bytes \<Rightarrow> io_error + bytes \<times> 'l deferred option"

text \<open>\<open>Encode::encode_iter_own\<close>, \<open>encode_iter_ref\<close>, \<open>encode_list_own\<close> and \<open>encode_list_ref\<close>.\<close>

fun encode_items :: "('v, 'l) encoder \<Rightarrow> 'v list \<Rightarrow> bytes \<Rightarrow> io_error + bytes \<times> 'l deferred option list" where
  "encode_items enc [] dst = Inr (dst, [])"
| "encode_items enc (v # vs) dst =
    and_then (enc v dst) (\<lambda>(dst, d). and_then (encode_items enc vs dst) (\<lambda>(dst, ds). Inr (dst, d # ds)))"

definition encode_iter_own :: "('v, 'l) encoder \<Rightarrow> ('v list, 'l) encoder" where
  "encode_iter_own enc items dst = and_then (encode_items enc items dst) (\<lambda>(dst, ds). Inr (dst, collect ds))"

definition encode_list_own :: "wasm_tokio \<Rightarrow> ('v, 'l) encoder \<Rightarrow> ('v list, 'l) encoder" where
  "encode_list_own W enc items dst =
    and_then (u32_try_from (length items)) (\<lambda>n. encode_iter_own enc items (dst @ leb_enc W 32 n))"

text \<open>
  \<open>ListEncoder\<close> and \<open>ArrayEncoder\<close>: encoders with the deferred operation as state. An error leaves the
  deferred operation of an earlier value in place.
\<close>

record 'l seq_encoder =
  e_deferred :: "'l deferred option"

definition seq_encoder_take :: "'l seq_encoder \<Rightarrow> 'l deferred option \<times> 'l seq_encoder" where
  "seq_encoder_take s = (e_deferred s, s\<lparr>e_deferred := None\<rparr>)"

definition list_encoder_encode ::
  "wasm_tokio \<Rightarrow> ('v, 'l) encoder \<Rightarrow> 'l seq_encoder \<Rightarrow> 'v list \<Rightarrow> bytes \<Rightarrow> io_error + bytes \<times> 'l seq_encoder" where
  "list_encoder_encode W enc s items dst =
    and_then (encode_list_own W enc items dst) (\<lambda>(dst, d). Inr (dst, s\<lparr>e_deferred := d\<rparr>))"

definition array_encoder_encode ::
  "('v, 'l) encoder \<Rightarrow> 'l seq_encoder \<Rightarrow> 'v list \<Rightarrow> bytes \<Rightarrow> io_error + bytes \<times> 'l seq_encoder" where
  "array_encoder_encode enc s items dst =
    and_then (encode_iter_own enc items dst) (\<lambda>(dst, d). Inr (dst, s\<lparr>e_deferred := d\<rparr>))"

text \<open>
  \<open>take_deferred\<close> of the codecs of a result and of a tuple, given what the codecs inside give. That of a result
  panics (\<open>None\<close>) with debug assertions if both have one.
\<close>

definition result_take :: "bool \<Rightarrow> 'l deferred option \<Rightarrow> 'l deferred option \<Rightarrow> 'l deferred option option" where
  "result_take debug_assertions ok err =
    (case (ok, err) of
       (None, None) \<Rightarrow> Some None
     | (Some ok, None) \<Rightarrow> Some (Some ok)
     | (None, Some err) \<Rightarrow> Some (Some err)
     | (Some ok, Some _) \<Rightarrow> if debug_assertions then None else Some (Some ok))"

definition tuple_take :: "'l deferred option list \<Rightarrow> 'l deferred option" where
  "tuple_take deferred = collect deferred"

text \<open>The codecs of \<open>impl_copy_codec!\<close>, which have no deferred operations, and of \<open>u8\<close>.\<close>

fun copy_items :: "('v \<Rightarrow> bytes \<Rightarrow> io_error + bytes) \<Rightarrow> 'v list \<Rightarrow> bytes \<Rightarrow> io_error + bytes" where
  "copy_items enc [] dst = Inr dst"
| "copy_items enc (v # vs) dst = and_then (enc v dst) (copy_items enc vs)"

definition copy_encode_iter :: "('v \<Rightarrow> bytes \<Rightarrow> io_error + bytes) \<Rightarrow> ('v list, 'l) encoder" where
  "copy_encode_iter enc items dst = and_then (copy_items enc items dst) (\<lambda>dst. Inr (dst, None))"

definition u8_encode_iter :: "(byte list, 'l) encoder" where
  "u8_encode_iter items dst = Inr (dst @ items, None)"

definition u8_encode_list :: "wasm_tokio \<Rightarrow> (byte list, 'l) encoder" where
  "u8_encode_list W items dst = and_then (vec_enc W items) (\<lambda>b. Inr (dst @ b, None))"

text \<open>Resource handles, byte strings that have to be UTF-8, and \<open>()\<close>.\<close>

definition resource_encode :: "wasm_tokio \<Rightarrow> (bytes, 'l) encoder" where
  "resource_encode W repr dst = and_then (vec_enc W repr) (\<lambda>b. Inr (dst @ b, None))"

definition utf8_bytes_encode :: "wasm_tokio \<Rightarrow> (bytes, 'l) encoder" where
  "utf8_bytes_encode W item dst =
    and_then (from_utf8 item) (\<lambda>s. and_then (name_enc W s) (\<lambda>b. Inr (dst @ b, None)))"

definition unit_encode :: "(unit, 'l) encoder" where
  "unit_encode v dst = Inr (dst, None)"

text \<open>
  A future that is ready when it is encoded, or will be resolved to a value later; its deferred operation
  writes that value and knows the offset of the status byte.
\<close>

datatype 'v future = Ready 'v | Pending 'v

definition future_encode :: "(nat \<Rightarrow> 'v \<Rightarrow> 'l) \<Rightarrow> ('v, 'l) encoder \<Rightarrow> ('v future, 'l) encoder" where
  "future_encode leaf enc f dst =
    (case f of
       Ready v \<Rightarrow> enc v (dst @ [1])
     | Pending v \<Rightarrow> Inr (dst @ [0], Some (Here (leaf (length dst) v))))"

text \<open>
  A stream: the chunks that are ready when it is encoded, whether it ends with them, and the chunks that
  come later otherwise.
\<close>

datatype 'c source = Source "'c list" bool "'c list"

definition stream_encode ::
  "wasm_tokio \<Rightarrow> (nat \<Rightarrow> 'v list list \<Rightarrow> 'l) \<Rightarrow> ('v, 'l) encoder \<Rightarrow> ('v list source, 'l) encoder" where
  "stream_encode W leaf enc s dst =
    (case s of Source ready ended later \<Rightarrow>
       if ended then encode_list_own W enc (concat ready) (dst @ [1])
       else Inr (dst @ [0], Some (Here (leaf (length dst) (concat ready # later)))))"

definition encode_ready_bytes_header :: "wasm_tokio \<Rightarrow> nat \<Rightarrow> bytes \<Rightarrow> io_error + bytes" where
  "encode_ready_bytes_header W n dst =
    and_then (u32_try_from n) (\<lambda>n. Inr (dst @ [1] @ leb_enc W 32 n))"

definition encode_ready_bytes :: "wasm_tokio \<Rightarrow> bytes list \<Rightarrow> bytes \<Rightarrow> io_error + bytes" where
  "encode_ready_bytes W chunks dst =
    and_then (encode_ready_bytes_header W (sum_list (map length chunks)) dst) (\<lambda>dst. Inr (dst @ concat chunks))"

definition stream_encode_bytes ::
  "wasm_tokio \<Rightarrow> (nat \<Rightarrow> bytes list \<Rightarrow> 'l) \<Rightarrow> (bytes source, 'l) encoder" where
  "stream_encode_bytes W leaf s dst =
    (case s of Source ready ended later \<Rightarrow>
       if ended then and_then (encode_ready_bytes W ready dst) (\<lambda>dst. Inr (dst, None))
       else Inr (dst @ [0], Some (Here (leaf (length dst) (ready @ later)))))"

text \<open>
  A reader: what each poll of it gives. \<open>StreamEncoderRead\<close> polls it until it has \<open>max_ready\<close> bytes, the
  reader ends, fails or is not ready.
\<close>

datatype poll = Data bytes | Eof | Error io_error | Wait

fun read_ready :: "nat \<Rightarrow> poll list \<Rightarrow> bytes \<Rightarrow> io_error + bytes \<times> bool \<times> poll list" where
  "read_ready max_ready ps ready =
    (if max_ready - length ready = 0 then Inr (ready, False, ps)
     else (case ps of
             [] \<Rightarrow> Inr (ready, False, [])
           | Eof # ps \<Rightarrow> Inr (ready, True, ps)
           | Error e # ps \<Rightarrow> Inl e
           | Wait # ps \<Rightarrow> Inr (ready, False, ps)
           | Data c # ps \<Rightarrow>
               if length c \<le> max_ready - length ready then read_ready max_ready ps (ready @ c)
               else Inr (ready @ take (max_ready - length ready) c, False,
                      Data (drop (max_ready - length ready) c) # ps)))"

declare read_ready.simps [simp del]

definition stream_encode_read ::
  "wasm_tokio \<Rightarrow> (nat \<Rightarrow> bytes \<Rightarrow> poll list \<Rightarrow> 'l) \<Rightarrow> nat \<Rightarrow> (poll list, 'l) encoder" where
  "stream_encode_read W leaf max_ready items dst =
    and_then (read_ready max_ready items []) (\<lambda>(ready, ended, items).
      if ended then and_then (encode_ready_bytes W [ready] dst) (\<lambda>dst. Inr (dst, None))
      else Inr (dst @ [0], Some (Here (leaf (length dst) ready items))))"

section \<open>Decoders\<close>

text \<open>
  The decoders of lists and arrays around the decoder \<open>dec\<close> of an element and \<open>tk\<close>, its
  \<open>take_deferred\<close>. \<open>ret\<close> has the elements decoded so far, \<open>cap\<close> the number of elements missing.
\<close>

type_synonym ('s, 'l) taker = "'s \<Rightarrow> 'l deferred option \<times> 's"

record ('s, 'v, 'l) list_decoder =
  l_dec :: 's
  l_ret :: "'v list"
  l_cap :: nat
  l_deferred :: "'l deferred option list"

definition list_decoder_new :: "'s \<Rightarrow> ('s, 'v, 'l) list_decoder" where
  "list_decoder_new s = \<lparr>l_dec = s, l_ret = [], l_cap = 0, l_deferred = []\<rparr>"

definition resize :: "nat \<Rightarrow> 'a option list \<Rightarrow> 'a option list" where
  "resize n ds = take n ds @ replicate (n - length ds) None"

definition push_element ::
  "('s, 'l) taker \<Rightarrow> 's \<Rightarrow> 'v \<Rightarrow> ('s, 'v, 'l) list_decoder \<Rightarrow> ('s, 'v, 'l) list_decoder" where
  "push_element tk i v s =
    (let (d, i) = tk i in
     s\<lparr>l_dec := i, l_ret := l_ret s @ [v], l_cap := l_cap s - 1,
       l_deferred := (case d of None \<Rightarrow> l_deferred s
                      | Some f \<Rightarrow> resize (length (l_ret s)) (l_deferred s) @ [Some f])\<rparr>)"

function list_loop ::
  "('s, 'v) decode \<Rightarrow> ('s, 'l) taker \<Rightarrow> (('s, 'v, 'l) list_decoder, 'v list) decode" where
  "list_loop dec tk s src =
    (if l_cap s = 0 then (s\<lparr>l_ret := []\<rparr>, src, Inr (Some (l_ret s)))
     else (case dec (l_dec s) src of
             (i, src, Inr (Some v)) \<Rightarrow> list_loop dec tk (push_element tk i v s) src
           | (i, src, Inr None) \<Rightarrow> (s\<lparr>l_dec := i\<rparr>, src, Inr None)
           | (i, src, Inl e) \<Rightarrow> (s\<lparr>l_dec := i, l_cap := 0, l_ret := [], l_deferred := []\<rparr>, src, Inl e)))"
  by pat_completeness auto
termination
  by (relation "measure (\<lambda>(_, _, s, _). l_cap s)") (auto simp: push_element_def split: prod.splits)

declare list_loop.simps [simp del]

definition list_decode ::
  "wasm_tokio \<Rightarrow> ('s, 'v) decode \<Rightarrow> ('s, 'l) taker \<Rightarrow> (('s, 'v, 'l) list_decoder, 'v list) decode" where
  "list_decode W dec tk s src =
    (if l_cap s = 0 then
       (case leb_dec32 W src of
          Fail e \<Rightarrow> (s, src, Inl e)
        | More \<Rightarrow> (s, src, Inr None)
        | Done n src \<Rightarrow>
            if n = 0 then (s, src, Inr (Some []))
            else list_loop dec tk (s\<lparr>l_ret := [], l_cap := n\<rparr>) src)
     else list_loop dec tk s src)"

definition list_take :: "(('s, 'v, 'l) list_decoder, 'l) taker" where
  "list_take s = (collect (l_deferred s), s\<lparr>l_deferred := []\<rparr>)"

text \<open>
  The decoder of an array has no count of its own: it counts the elements decoded. \<open>l_cap\<close> is not used.
\<close>

function array_decode ::
  "nat \<Rightarrow> ('s, 'v) decode \<Rightarrow> ('s, 'l) taker \<Rightarrow> (('s, 'v, 'l) list_decoder, 'v list) decode" where
  "array_decode n dec tk s src =
    (if length (l_ret s) < n then
       (case dec (l_dec s) src of
          (i, src, Inr (Some v)) \<Rightarrow> array_decode n dec tk (push_element tk i v s) src
        | (i, src, Inr None) \<Rightarrow> (s\<lparr>l_dec := i\<rparr>, src, Inr None)
        | (i, src, Inl e) \<Rightarrow> (s\<lparr>l_dec := i, l_ret := [], l_deferred := []\<rparr>, src, Inl e))
     else (s\<lparr>l_ret := []\<rparr>, src, Inr (Some (l_ret s))))"
  by pat_completeness auto
termination
  by (relation "measure (\<lambda>(n, _, _, s, _). n - length (l_ret s))") (auto simp: push_element_def split: prod.splits)

declare array_decode.simps [simp del]

text \<open>
  \<open>FutureDecoder\<close> and \<open>StreamDecoder\<close> are around the \<open>OptionDecoder\<close> of the element and of a list: it
  gives the value that was ready, or nothing if the value is pending. \<open>into_inner\<close> is the state of the
  decoder inside, which the deferred operation goes on with.
\<close>

record ('o, 'l) async_decoder =
  a_dec :: 'o
  a_deferred :: "'l deferred option"

definition async_take :: "(('o, 'l) async_decoder, 'l) taker" where
  "async_take s = (a_deferred s, s\<lparr>a_deferred := None\<rparr>)"

datatype 'v received_future = Resolved 'v | Awaited

definition future_decode ::
  "('o, 'v option) decode \<Rightarrow> ('o, 'l) taker \<Rightarrow> 'o \<Rightarrow> ('o \<Rightarrow> 'l) \<Rightarrow>
   (('o, 'l) async_decoder, 'v received_future) decode" where
  "future_decode dec tk new leaf s src =
    (case dec (a_dec s) src of
       (o', src, Inl e) \<Rightarrow> (s\<lparr>a_dec := o'\<rparr>, src, Inl e)
     | (o', src, Inr None) \<Rightarrow> (s\<lparr>a_dec := o'\<rparr>, src, Inr None)
     | (o', src, Inr (Some (Some v))) \<Rightarrow>
         (let (d, o') = tk o' in (s\<lparr>a_dec := o', a_deferred := d\<rparr>, src, Inr (Some (Resolved v))))
     | (o', src, Inr (Some None)) \<Rightarrow>
         (s\<lparr>a_dec := new, a_deferred := Some (Here (leaf o'))\<rparr>, src, Inr (Some Awaited)))"

datatype 'v received_stream = Chunks "'v list list" | Receiving

definition stream_decode ::
  "('o, 'v list option) decode \<Rightarrow> ('o, 'l) taker \<Rightarrow> 'l \<Rightarrow> (('o, 'l) async_decoder, 'v received_stream) decode" where
  "stream_decode dec tk leaf s src =
    (case dec (a_dec s) src of
       (o', src, Inl e) \<Rightarrow> (s\<lparr>a_dec := o'\<rparr>, src, Inl e)
     | (o', src, Inr None) \<Rightarrow> (s\<lparr>a_dec := o'\<rparr>, src, Inr None)
     | (o', src, Inr (Some (Some chunk))) \<Rightarrow>
         (let (d, o') = tk o' in
          (s\<lparr>a_dec := o', a_deferred := d\<rparr>, src, Inr (Some (Chunks (if chunk = [] then [] else [chunk])))))
     | (o', src, Inr (Some None)) \<Rightarrow>
         (s\<lparr>a_dec := o', a_deferred := Some (Here leaf)\<rparr>, src, Inr (Some Receiving)))"

definition stream_decode_bytes ::
  "('o, bytes option) decode \<Rightarrow> 'o \<Rightarrow> ('o \<Rightarrow> 'l) \<Rightarrow> (('o, 'l) async_decoder, byte received_stream) decode" where
  "stream_decode_bytes dec new leaf s src =
    (case dec (a_dec s) src of
       (o', src, Inl e) \<Rightarrow> (s\<lparr>a_dec := o'\<rparr>, src, Inl e)
     | (o', src, Inr None) \<Rightarrow> (s\<lparr>a_dec := o'\<rparr>, src, Inr None)
     | (o', src, Inr (Some (Some chunk))) \<Rightarrow>
         (s\<lparr>a_dec := o'\<rparr>, src, Inr (Some (Chunks (if chunk = [] then [] else [chunk]))))
     | (o', src, Inr (Some None)) \<Rightarrow>
         (s\<lparr>a_dec := new, a_deferred := Some (Here (leaf o'))\<rparr>, src, Inr (Some Receiving)))"

definition unit_decode :: "(unit, unit) decode" where
  "unit_decode s src = (s, src, Inr (Some ()))"

section \<open>Lists and arrays are incremental decoders\<close>

lemma push_element_dec [simp]: "push_element tk i v (s\<lparr>l_dec := j\<rparr>) = push_element tk i v s"
  by (simp add: push_element_def split: prod.split option.split)

text \<open>
  What a compound decoder relies on: the decoder inside never looks past its input, and taking its deferred
  operation keeps its invariant.
\<close>

locale value_decoder = stream_decoder dec ok
  for dec :: "('s, 'v) decode" and ok :: "'s \<Rightarrow> bool" +
  fixes tk :: "('s, 'l) taker"
  assumes take_ok: "\<And>s. ok s \<Longrightarrow> ok (snd (tk s))"
begin

lemma push_ok: "ok i \<Longrightarrow> ok (l_dec (push_element tk i v s))"
  using take_ok [of i] by (auto simp: push_element_def split: prod.splits)

lemma push_cap [simp]: "l_cap (push_element tk i v s) = l_cap s - 1"
  by (auto simp: push_element_def split: prod.splits)

lemma push_ret [simp]: "l_ret (push_element tk i v s) = l_ret s @ [v]"
  by (auto simp: push_element_def split: prod.splits)

text \<open>One call of the loop: what it does on more input, and what it leaves.\<close>

lemma list_loop_ext:
  assumes "ok (l_dec s)" and "list_loop dec tk s b = (s', b', r)"
  shows "(\<forall>vs. r = Inr (Some vs) \<longrightarrow> list_loop dec tk s (b @ x) = (s', b' @ x, r) \<and> ok (l_dec s') \<and> l_cap s' = 0) \<and>
    (r = Inr None \<longrightarrow> list_loop dec tk s (b @ x) = list_loop dec tk s' (b' @ x) \<and> ok (l_dec s') \<and> l_cap s' > 0) \<and>
    (\<forall>e. r = Inl e \<longrightarrow> snd (snd (list_loop dec tk s (b @ x))) = Inl e)"
  using assms
proof (induction "l_cap s" arbitrary: s b)
  case 0
  then show ?case by (auto simp: list_loop.simps [of _ _ s])
next
  case (Suc n)
  have loop: "list_loop dec tk s c = (case dec (l_dec s) c of
             (i, src, Inr (Some v)) \<Rightarrow> list_loop dec tk (push_element tk i v s) src
           | (i, src, Inr None) \<Rightarrow> (s\<lparr>l_dec := i\<rparr>, src, Inr None)
           | (i, src, Inl e) \<Rightarrow> (s\<lparr>l_dec := i, l_cap := 0, l_ret := [], l_deferred := []\<rparr>, src, Inl e))" for c
    using Suc.hyps(2) by (simp add: list_loop.simps [of _ _ s])
  show ?case
  proof (cases rule: decode_cases [of dec "l_dec s" b])
    case (fail t d e)
    from fail_ext [OF Suc.prems(1) fail, of x] obtain t' d' where "dec (l_dec s) (b @ x) = (t', d', Inl e)"
      by (metis prod.collapse)
    then have "snd (snd (list_loop dec tk s (b @ x))) = Inl e" by (simp add: loop)
    moreover have "r = Inl e" using fail Suc.prems(2) by (simp add: loop)
    ultimately show ?thesis by simp
  next
    case (more t d)
    have "list_loop dec tk (s\<lparr>l_dec := t\<rparr>) (d @ x) = list_loop dec tk s (b @ x)"
      using more_ext [OF Suc.prems(1) more, of x] Suc.hyps(2)
      by (simp add: loop list_loop.simps [of _ _ "s\<lparr>l_dec := t\<rparr>"])
    moreover have "s' = s\<lparr>l_dec := t\<rparr>" "b' = d" "r = Inr None" using more Suc.prems(2) by (simp_all add: loop)
    ultimately show ?thesis using ok_more [OF Suc.prems(1) more] Suc.hyps(2) by simp
  next
    case (item t d v)
    have "ok (l_dec (push_element tk t v s))" by (rule push_ok [OF ok_item [OF Suc.prems(1) item]])
    moreover have "list_loop dec tk (push_element tk t v s) d = (s', b', r)"
      using Suc.prems(2) item by (simp add: loop)
    moreover have "list_loop dec tk s (b @ x) = list_loop dec tk (push_element tk t v s) (d @ x)"
      using item_ext [OF Suc.prems(1) item, of x] by (simp add: loop)
    moreover have "n = l_cap (push_element tk t v s)" using Suc.hyps(2) by simp
    ultimately show ?thesis using Suc.hyps(1) [of "push_element tk t v s" d] by presburger
  qed
qed

text \<open>The same for arrays.\<close>

lemma array_decode_ext:
  assumes "ok (l_dec s)" and "array_decode n dec tk s b = (s', b', r)"
  shows "(\<forall>vs. r = Inr (Some vs) \<longrightarrow> array_decode n dec tk s (b @ x) = (s', b' @ x, r) \<and> ok (l_dec s')) \<and>
    (r = Inr None \<longrightarrow> array_decode n dec tk s (b @ x) = array_decode n dec tk s' (b' @ x) \<and> ok (l_dec s')) \<and>
    (\<forall>e. r = Inl e \<longrightarrow> snd (snd (array_decode n dec tk s (b @ x))) = Inl e)"
  using assms
proof (induction "n - length (l_ret s)" arbitrary: s b)
  case 0
  then show ?case by (auto simp: array_decode.simps [of _ _ _ s])
next
  case (Suc m)
  then have n: "length (l_ret s) < n" by simp
  have loop: "array_decode n dec tk s c = (case dec (l_dec s) c of
          (i, src, Inr (Some v)) \<Rightarrow> array_decode n dec tk (push_element tk i v s) src
        | (i, src, Inr None) \<Rightarrow> (s\<lparr>l_dec := i\<rparr>, src, Inr None)
        | (i, src, Inl e) \<Rightarrow> (s\<lparr>l_dec := i, l_ret := [], l_deferred := []\<rparr>, src, Inl e))" for c
    using n by (simp add: array_decode.simps [of _ _ _ s])
  show ?case
  proof (cases rule: decode_cases [of dec "l_dec s" b])
    case (fail t d e)
    from fail_ext [OF Suc.prems(1) fail, of x] obtain t' d' where "dec (l_dec s) (b @ x) = (t', d', Inl e)"
      by (metis prod.collapse)
    then have "snd (snd (array_decode n dec tk s (b @ x))) = Inl e" by (simp add: loop)
    moreover have "r = Inl e" using fail Suc.prems(2) by (simp add: loop)
    ultimately show ?thesis by simp
  next
    case (more t d)
    have "array_decode n dec tk (s\<lparr>l_dec := t\<rparr>) (d @ x) = array_decode n dec tk s (b @ x)"
      using more_ext [OF Suc.prems(1) more, of x] n
      by (simp add: loop array_decode.simps [of _ _ _ "s\<lparr>l_dec := t\<rparr>"])
    moreover have "s' = s\<lparr>l_dec := t\<rparr>" "b' = d" "r = Inr None" using more Suc.prems(2) by (simp_all add: loop)
    ultimately show ?thesis using ok_more [OF Suc.prems(1) more] by simp
  next
    case (item t d v)
    have "ok (l_dec (push_element tk t v s))" by (rule push_ok [OF ok_item [OF Suc.prems(1) item]])
    moreover have "array_decode n dec tk (push_element tk t v s) d = (s', b', r)"
      using Suc.prems(2) item by (simp add: loop)
    moreover have "array_decode n dec tk s (b @ x) = array_decode n dec tk (push_element tk t v s) (d @ x)"
      using item_ext [OF Suc.prems(1) item, of x] by (simp add: loop)
    moreover have "m = n - length (l_ret (push_element tk t v s))" using Suc.hyps(2) by simp
    ultimately show ?thesis using Suc.hyps(1) [of "push_element tk t v s" d] by presburger
  qed
qed

end

locale list_codec = leb128 W + value_decoder dec ok tk
  for W :: wasm_tokio and dec :: "('s, 'v) decode" and ok :: "'s \<Rightarrow> bool" and tk :: "('s, 'l) taker"
begin

lemma list_decode_start: "l_cap s = 0 \<Longrightarrow> leb_dec32 W b = Done n r \<Longrightarrow> n \<noteq> 0 \<Longrightarrow>
   list_decode W dec tk s b = list_loop dec tk (s\<lparr>l_ret := [], l_cap := n\<rparr>) r"
  by (simp add: list_decode_def)

text \<open>
  On more input, a call of \<open>decode\<close> gives the same element or error, or goes on from the state it had left.
\<close>

lemma list_decode_ext:
  assumes "ok (l_dec s)" and "list_decode W dec tk s b = (s', b', r)"
  shows "(\<forall>vs. r = Inr (Some vs) \<longrightarrow> list_decode W dec tk s (b @ x) = (s', b' @ x, r) \<and> ok (l_dec s')) \<and>
    (r = Inr None \<longrightarrow> list_decode W dec tk s (b @ x) = list_decode W dec tk s' (b' @ x) \<and> ok (l_dec s')) \<and>
    (\<forall>e. r = Inl e \<longrightarrow> snd (snd (list_decode W dec tk s (b @ x))) = Inl e)"
proof (cases "l_cap s = 0")
  case False
  with list_loop_ext [OF assms(1), of b s' b' r x] assms(2) show ?thesis by (auto simp: list_decode_def)
next
  case True
  show ?thesis
  proof (cases "leb_dec32 W b")
    case (Done n c)
    show ?thesis
    proof (cases "n = 0")
      case True
      with Done assms \<open>l_cap s = 0\<close> dec_done_ext [OF Done, of x] show ?thesis by (auto simp: list_decode_def)
    next
      case False
      let ?s = "s\<lparr>l_ret := [], l_cap := n\<rparr>"
      have "ok (l_dec ?s)" using assms(1) by simp
      moreover have "list_loop dec tk ?s c = (s', b', r)"
        using assms(2) list_decode_start [OF \<open>l_cap s = 0\<close> Done False] by simp
      moreover have "list_decode W dec tk s (b @ x) = list_loop dec tk ?s (c @ x)"
        by (rule list_decode_start [OF \<open>l_cap s = 0\<close> dec_done_ext [OF Done] False])
      ultimately show ?thesis using list_loop_ext [of ?s c s' b' r x] by (auto simp: list_decode_def)
    qed
  next
    case More
    with assms \<open>l_cap s = 0\<close> show ?thesis by (auto simp: list_decode_def)
  next
    case (Fail e)
    with assms \<open>l_cap s = 0\<close> dec_fail_ext [OF Fail, of x] show ?thesis by (auto simp: list_decode_def)
  qed
qed

end

sublocale list_codec \<subseteq> lists: value_decoder "list_decode W dec tk" "\<lambda>s. ok (l_dec s)" list_take
proof
  fix s :: "('s, 'v, 'l) list_decoder" and b s' b' a e x
  assume "ok (l_dec s)"
  note * = list_decode_ext [OF this]
  show "list_decode W dec tk s b = (s', b', Inr (Some a)) \<Longrightarrow>
      list_decode W dec tk s (b @ x) = (s', b' @ x, Inr (Some a))" using * by blast
  show "list_decode W dec tk s b = (s', b', Inr None) \<Longrightarrow>
      list_decode W dec tk s (b @ x) = list_decode W dec tk s' (b' @ x)" using * by blast
  show "list_decode W dec tk s b = (s', b', Inl e) \<Longrightarrow> snd (snd (list_decode W dec tk s (b @ x))) = Inl e"
    using * by blast
  show "list_decode W dec tk s b = (s', b', Inr (Some a)) \<Longrightarrow> ok (l_dec s')" using * by blast
  show "list_decode W dec tk s b = (s', b', Inr None) \<Longrightarrow> ok (l_dec s')" using * by blast
  show "ok (l_dec (snd (list_take s)))" using \<open>ok (l_dec s)\<close> by (simp add: list_take_def)
qed

context list_codec
begin

lemma list_feed:
  assumes "ok (l_dec s)" and "list_decode W dec tk s (concat cs) = (s', b', Inr (Some vs))" and "cs \<noteq> []"
  shows "feed (list_decode W dec tk) s [] cs = (s', b', Inr (Some vs))"
  using lists.feed_item [of s "[]" cs] assms by simp

lemma list_stream_decoder: "stream_decoder (list_decode W dec tk) (\<lambda>s. ok (l_dec s))"
  by (rule lists.stream_decoder_axioms)

end

locale array_codec = value_decoder dec ok tk
  for dec :: "('s, 'v) decode" and ok :: "'s \<Rightarrow> bool" and tk :: "('s, 'l) taker" +
  fixes n :: nat

sublocale array_codec \<subseteq> arrays: value_decoder "array_decode n dec tk" "\<lambda>s. ok (l_dec s)" list_take
proof
  fix s :: "('s, 'v, 'l) list_decoder" and b s' b' a e x
  assume "ok (l_dec s)"
  note * = array_decode_ext [OF this]
  show "array_decode n dec tk s b = (s', b', Inr (Some a)) \<Longrightarrow>
      array_decode n dec tk s (b @ x) = (s', b' @ x, Inr (Some a))" using * by blast
  show "array_decode n dec tk s b = (s', b', Inr None) \<Longrightarrow>
      array_decode n dec tk s (b @ x) = array_decode n dec tk s' (b' @ x)" using * by blast
  show "array_decode n dec tk s b = (s', b', Inl e) \<Longrightarrow> snd (snd (array_decode n dec tk s (b @ x))) = Inl e"
    using * by blast
  show "array_decode n dec tk s b = (s', b', Inr (Some a)) \<Longrightarrow> ok (l_dec s')" using * by blast
  show "array_decode n dec tk s b = (s', b', Inr None) \<Longrightarrow> ok (l_dec s')" using * by blast
  show "ok (l_dec (snd (list_take s)))" using \<open>ok (l_dec s)\<close> by (simp add: list_take_def)
qed

section \<open>Encoders and decoders that belong together\<close>

text \<open>
  Whatever follows it, the decoder decodes what the encoder appended to a related value, the deferred
  operations of both are at the same positions, and taking it leaves the decoder as it was at the start.
\<close>

definition codec ::
  "('v \<Rightarrow> 'w \<Rightarrow> bool) \<Rightarrow> ('v, 'l) encoder \<Rightarrow> ('s, 'w) decode \<Rightarrow> ('s, 'm) taker \<Rightarrow> 's \<Rightarrow> bool" where
  "codec R enc dec tk s0 \<longleftrightarrow>
    (\<forall>v dst dst' d. enc v dst = Inr (dst', d) \<longrightarrow>
      (\<exists>b. dst' = dst @ b \<and>
        (\<forall>r. \<exists>s w e. dec s0 (b @ r) = (s, r, Inr (Some w)) \<and> R v w \<and> tk s = (e, s0) \<and> positions e = positions d)))"

lemma codecI:
  assumes "\<And>v dst dst' d. enc v dst = Inr (dst', d) \<Longrightarrow>
      \<exists>b. dst' = dst @ b \<and>
        (\<forall>r. \<exists>s w e. dec s0 (b @ r) = (s, r, Inr (Some w)) \<and> R v w \<and> tk s = (e, s0) \<and> positions e = positions d)"
  shows "codec R enc dec tk s0"
  using assms unfolding codec_def by blast

lemma codecE:
  assumes "codec R enc dec tk s0" and "enc v dst = Inr (dst', d)"
  obtains b where "dst' = dst @ b"
    and "\<And>r. \<exists>s w e. dec s0 (b @ r) = (s, r, Inr (Some w)) \<and> R v w \<and> tk s = (e, s0) \<and> positions e = positions d"
  using assms unfolding codec_def by blast

text \<open>The positions the decoder of a list has after one more element.\<close>

lemma push_element_take:
  assumes "tk i = (e, i0)"
  shows "push_element tk i w s = s\<lparr>l_dec := i0, l_ret := l_ret s @ [w], l_cap := l_cap s - 1,
       l_deferred := (case e of None \<Rightarrow> l_deferred s
                      | Some f \<Rightarrow> resize (length (l_ret s)) (l_deferred s) @ [Some f])\<rparr>"
  by (simp add: push_element_def assms)

lemma resize_positions:
  fixes e :: "'l deferred option"
  assumes "length ds \<le> n"
  defines "ds' \<equiv> (case e of None \<Rightarrow> ds | Some f \<Rightarrow> resize n ds @ [Some f])"
  shows "element_positions 0 ds' = element_positions 0 ds @ map ((#) n) (positions e)"
    and "length ds' \<le> Suc n"
proof -
  have "resize n ds = ds @ replicate (n - length ds) None" using assms(1) by (simp add: resize_def)
  with assms(1) show "element_positions 0 ds' = element_positions 0 ds @ map ((#) n) (positions e)"
    and "length ds' \<le> Suc n"
    by (auto simp: ds'_def element_positions_append split: option.split)
qed

text \<open>
  Decoding the elements: \<open>f\<close> stands for the loop of a list or of an array, which take an element the same way.
\<close>

lemma encode_items_append:
  assumes "codec R enc dec tk s0"
  shows "encode_items enc vs dst = Inr (dst', ds) \<Longrightarrow> \<exists>b. dst' = dst @ b"
proof (induction vs arbitrary: dst ds)
  case (Cons v vs)
  then obtain dst1 d ds' where "enc v dst = Inr (dst1, d)" "encode_items enc vs dst1 = Inr (dst', ds')"
    by (auto simp: and_then_eq_Inr)
  with Cons.IH codecE [OF assms this(1)] show ?case by (metis append.assoc)
qed simp

lemma decode_items:
  assumes codec: "codec R enc dec tk s0" and enc: "encode_items enc vs dst = Inr (dst @ b, ds)"
    and f: "\<And>s b i c w. l_dec s = s0 \<Longrightarrow> length (l_ret s) < n \<Longrightarrow> dec s0 b = (i, c, Inr (Some w)) \<Longrightarrow>
        P s \<Longrightarrow> f s b = f (push_element tk i w s) c \<and> P (push_element tk i w s)"
    and s: "l_dec s = s0" "length (l_ret s) + length vs = n" "length (l_deferred s) \<le> length (l_ret s)" "P s"
  shows "\<exists>ws s'. f s (b @ r) = f s' r \<and> list_all2 R vs ws \<and> P s' \<and>
      l_dec s' = s0 \<and> l_ret s' = l_ret s @ ws \<and>
      element_positions 0 (l_deferred s') =
        element_positions 0 (l_deferred s) @ element_positions (length (l_ret s)) ds"
  using enc s
proof (induction vs arbitrary: dst b ds s)
  case Nil
  then show ?case by auto
next
  case (Cons v vs)
  from Cons.prems(1) obtain dst1 d ds' where v: "enc v dst = Inr (dst1, d)"
    and vs: "encode_items enc vs dst1 = Inr (dst @ b, ds')" and ds: "ds = d # ds'"
    by (auto simp: and_then_eq_Inr)
  from codecE [OF codec v] obtain b1 where b1: "dst1 = dst @ b1"
    and dec: "\<And>r. \<exists>i w e. dec s0 (b1 @ r) = (i, r, Inr (Some w)) \<and> R v w \<and> tk i = (e, s0) \<and>
      positions e = positions d" by blast
  from encode_items_append [OF codec vs] b1 obtain b2 where b2: "b = b1 @ b2" by auto
  from dec [of "b2 @ r"] obtain i w e where i: "dec s0 (b1 @ b2 @ r) = (i, b2 @ r, Inr (Some w))" "R v w"
    "tk i = (e, s0)" "positions e = positions d" by blast
  define s1 where "s1 = push_element tk i w s"
  note s1 = push_element_take [where tk = tk, OF i(3), of w s, folded s1_def]
  have pos: "element_positions 0 (l_deferred s1) =
      element_positions 0 (l_deferred s) @ map ((#) (length (l_ret s))) (positions d)"
    and len: "length (l_deferred s1) \<le> Suc (length (l_ret s))"
    using resize_positions [OF Cons.prems(4), of e] i(4) by (simp_all add: s1)
  have "length (l_ret s) < n" using Cons.prems(3) by simp
  note step = f [OF Cons.prems(2) this i(1) Cons.prems(5), folded s1_def]
  have "encode_items enc vs dst1 = Inr (dst1 @ b2, ds')" using vs by (simp add: b1 b2)
  from Cons.IH [OF this, of s1] step len Cons.prems(3) obtain ws s' where
    "f s1 (b2 @ r) = f s' r" "list_all2 R vs ws" "P s'" "l_dec s' = s0" "l_ret s' = l_ret s1 @ ws"
    "element_positions 0 (l_deferred s') =
        element_positions 0 (l_deferred s1) @ element_positions (length (l_ret s1)) ds'"
    by (auto simp: s1)
  with step i(2) pos show ?case
    by (intro exI [of _ "w # ws"] exI [of _ s']) (simp add: b2 ds s1)
qed

text \<open>Lists and arrays of a codec are codecs.\<close>

lemma list_codec_codec:
  fixes dec :: "('s, 'w) decode" and tk :: "('s, 'm) taker"
  assumes W: "leb128 W" and codec: "codec R enc dec tk s0"
  shows "codec (list_all2 R) (encode_list_own W enc) (list_decode W dec tk) list_take (list_decoder_new s0)"
proof (rule codecI)
  fix vs dst dst' d
  assume "encode_list_own W enc vs dst = Inr (dst', d)"
  then obtain ds where n: "length vs < 2 ^ 32" and d: "d = collect ds"
    and ds: "encode_items enc vs (dst @ leb_enc W 32 (length vs)) = Inr (dst', ds)"
    by (auto simp: encode_list_own_def encode_iter_own_def and_then_eq_Inr)
  from encode_items_append [OF codec ds] obtain b where b: "dst' = (dst @ leb_enc W 32 (length vs)) @ b" by auto
  show "\<exists>b. dst' = dst @ b \<and> (\<forall>r. \<exists>s ws e. list_decode W dec tk (list_decoder_new s0) (b @ r) = (s, r, Inr (Some ws)) \<and>
      list_all2 R vs ws \<and> list_take s = (e, list_decoder_new s0) \<and> positions e = positions d)"
  proof (intro exI [of _ "leb_enc W 32 (length vs) @ b"] conjI allI)
    fix r
    let ?s = "(list_decoder_new s0)\<lparr>l_ret := [], l_cap := length vs\<rparr> :: ('s, 'w, 'm) list_decoder"
    let ?P = "\<lambda>s. l_cap s + length (l_ret s) = length vs"
    have "\<exists>ws s'. list_loop dec tk ?s (b @ r) = list_loop dec tk s' r \<and> list_all2 R vs ws \<and> ?P s' \<and>
      l_dec s' = s0 \<and> l_ret s' = l_ret ?s @ ws \<and>
      element_positions 0 (l_deferred s') = element_positions 0 (l_deferred ?s) @ element_positions (length (l_ret ?s)) ds"
    proof (rule decode_items [OF codec ds [unfolded b], where n = "length vs"])
      show "list_loop dec tk s b = list_loop dec tk (push_element tk i w s) c \<and> ?P (push_element tk i w s)"
        if "l_dec s = s0" "length (l_ret s) < length vs" "dec s0 b = (i, c, Inr (Some w))" "?P s" for s b i c w
        using that by (auto simp: list_loop.simps [of _ _ s] push_element_def split: prod.split)
    qed (simp_all add: list_decoder_new_def)
    then obtain ws s' where s': "list_loop dec tk ?s (b @ r) = list_loop dec tk s' r" "list_all2 R vs ws"
      "l_cap s' + length ws = length vs" "l_dec s' = s0" "l_ret s' = ws"
      "element_positions 0 (l_deferred s') = element_positions 0 ds"
      by (auto simp: list_decoder_new_def)
    from s'(2,3) have "l_cap s' = 0" by (auto dest: list_all2_lengthD)
    with s' have loop: "list_loop dec tk ?s (b @ r) = (s'\<lparr>l_ret := []\<rparr>, r, Inr (Some ws))"
      by (simp add: list_loop.simps [of _ _ s'])
    show "\<exists>s ws e. list_decode W dec tk (list_decoder_new s0) ((leb_enc W 32 (length vs) @ b) @ r) =
        (s, r, Inr (Some ws)) \<and> list_all2 R vs ws \<and> list_take s = (e, list_decoder_new s0) \<and>
        positions e = positions d"
    proof (cases "vs = []")
      case True
      then show ?thesis using ds b by (auto simp: list_decode_def list_decoder_new_def leb128.dec_enc [OF W] list_take_def d positions_collect)
    next
      case False
      then have "list_decode W dec tk (list_decoder_new s0) ((leb_enc W 32 (length vs) @ b) @ r) =
          (s'\<lparr>l_ret := []\<rparr>, r, Inr (Some ws))"
        using loop n by (simp add: list_decode_def list_decoder_new_def leb128.dec_enc [OF W])
      moreover have "list_take (s'\<lparr>l_ret := []\<rparr>) = (collect (l_deferred s'), list_decoder_new s0)"
        using s'(4) \<open>l_cap s' = 0\<close> by (cases s') (simp add: list_take_def list_decoder_new_def)
      ultimately show ?thesis using s'(2,6) by (auto simp: d positions_collect)
    qed
  qed (simp add: b)
qed

lemma array_codec_codec:
  fixes dec :: "('s, 'w) decode" and tk :: "('s, 'm) taker"
  assumes codec: "codec R enc dec tk s0"
  shows "encode_iter_own enc vs dst = Inr (dst', d) \<Longrightarrow> length vs = n \<Longrightarrow>
    \<exists>b. dst' = dst @ b \<and> (\<forall>r. \<exists>s ws e. array_decode n dec tk (list_decoder_new s0) (b @ r) = (s, r, Inr (Some ws)) \<and>
      list_all2 R vs ws \<and> list_take s = (e, list_decoder_new s0) \<and> positions e = positions d)"
proof -
  assume "encode_iter_own enc vs dst = Inr (dst', d)" and n: "length vs = n"
  then obtain ds where d: "d = collect ds" and ds: "encode_items enc vs dst = Inr (dst', ds)"
    by (auto simp: encode_iter_own_def and_then_eq_Inr)
  from encode_items_append [OF codec ds] obtain b where b: "dst' = dst @ b" by auto
  have "\<exists>s ws e. array_decode n dec tk (list_decoder_new s0) (b @ r) = (s, r, Inr (Some ws)) \<and>
      list_all2 R vs ws \<and> list_take s = (e, list_decoder_new s0) \<and> positions e = positions d" for r
  proof -
    let ?s = "list_decoder_new s0 :: ('s, 'w, 'm) list_decoder" and ?P = "\<lambda>s. l_cap s = 0"
    have "\<exists>ws s'. array_decode n dec tk ?s (b @ r) = array_decode n dec tk s' r \<and> list_all2 R vs ws \<and> ?P s' \<and>
      l_dec s' = s0 \<and> l_ret s' = l_ret ?s @ ws \<and>
      element_positions 0 (l_deferred s') = element_positions 0 (l_deferred ?s) @ element_positions (length (l_ret ?s)) ds"
    proof (rule decode_items [OF codec ds [unfolded b], where n = n])
      show "array_decode n dec tk s b = array_decode n dec tk (push_element tk i w s) c \<and> ?P (push_element tk i w s)"
        if "l_dec s = s0" "length (l_ret s) < n" "dec s0 b = (i, c, Inr (Some w))" "?P s" for s b i c w
        using that by (auto simp: array_decode.simps [of _ _ _ s] push_element_def split: prod.split)
    qed (simp_all add: list_decoder_new_def n)
    then obtain ws s' where s': "array_decode n dec tk ?s (b @ r) = array_decode n dec tk s' r" "list_all2 R vs ws"
      "l_cap s' = 0" "l_dec s' = s0" "l_ret s' = ws" "element_positions 0 (l_deferred s') = element_positions 0 ds"
      by (auto simp: list_decoder_new_def)
    from s'(2,5) n have "array_decode n dec tk s' r = (s'\<lparr>l_ret := []\<rparr>, r, Inr (Some ws))"
      by (auto simp: array_decode.simps [of _ _ _ s'] dest: list_all2_lengthD)
    moreover have "list_take (s'\<lparr>l_ret := []\<rparr>) = (collect (l_deferred s'), list_decoder_new s0)"
      using s'(3,4) by (cases s') (simp add: list_take_def list_decoder_new_def)
    ultimately show ?thesis using s'(1,2,6) by (auto simp: d positions_collect)
  qed
  with b show ?thesis by blast
qed

section \<open>Futures and streams\<close>

text \<open>
  What \<open>FutureDecoder\<close> and \<open>StreamDecoder\<close> rely on: \<open>OptionDecoder\<close> gives nothing for a status byte of
  zero, and what the decoder inside gives after a status byte of one, with its deferred operation; it is
  then as it was at the start.
\<close>

definition option_decoder ::
  "('s, 'w) decode \<Rightarrow> ('s, 'm) taker \<Rightarrow> 's \<Rightarrow> ('o, 'w option) decode \<Rightarrow> ('o, 'm) taker \<Rightarrow> 'o \<Rightarrow> bool" where
  "option_decoder dec tk s0 odec otk o0 \<longleftrightarrow>
    (\<forall>r. odec o0 (0 # r) = (o0, r, Inr (Some None))) \<and>
    (\<forall>b r s w e. dec s0 (b @ r) = (s, r, Inr (Some w)) \<longrightarrow> tk s = (e, s0) \<longrightarrow>
      (\<exists>o1. odec o0 (1 # b @ r) = (o1, r, Inr (Some (Some w))) \<and> otk o1 = (e, o0)))"

fun future_rel :: "('v \<Rightarrow> 'w \<Rightarrow> bool) \<Rightarrow> 'v future \<Rightarrow> 'w received_future \<Rightarrow> bool" where
  "future_rel R (Ready v) (Resolved w) = R v w"
| "future_rel R (Pending v) Awaited = True"
| "future_rel R _ _ = False"

fun stream_rel :: "('v \<Rightarrow> 'w \<Rightarrow> bool) \<Rightarrow> 'v list source \<Rightarrow> 'w received_stream \<Rightarrow> bool" where
  "stream_rel R (Source ready True later) (Chunks cs) = list_all2 R (concat ready) (concat cs)"
| "stream_rel R (Source ready False later) Receiving = True"
| "stream_rel R _ _ = False"

definition async_new :: "'o \<Rightarrow> ('o, 'l) async_decoder" where
  "async_new o0 = \<lparr>a_dec = o0, a_deferred = None\<rparr>"

lemma future_codec:
  assumes codec: "codec R enc dec tk s0" and option: "option_decoder dec tk s0 odec otk o0"
  shows "codec (future_rel R) (future_encode leaf enc) (future_decode odec otk o0 leaf') async_take (async_new o0)"
proof (rule codecI)
  fix f dst dst' d
  assume enc: "future_encode leaf enc f dst = Inr (dst', d)"
  show "\<exists>b. dst' = dst @ b \<and> (\<forall>r. \<exists>s w e. future_decode odec otk o0 leaf' (async_new o0) (b @ r) = (s, r, Inr (Some w)) \<and>
      future_rel R f w \<and> async_take s = (e, async_new o0) \<and> positions e = positions d)"
  proof (cases f)
    case (Ready v)
    with enc have "enc v (dst @ [1]) = Inr (dst', d)" by (simp add: future_encode_def)
    from codecE [OF codec this] obtain b where b: "dst' = (dst @ [1]) @ b"
      and dec: "\<And>r. \<exists>s w e. dec s0 (b @ r) = (s, r, Inr (Some w)) \<and> R v w \<and> tk s = (e, s0) \<and> positions e = positions d"
      by blast
    show ?thesis
    proof (intro exI [of _ "1 # b"] conjI allI)
      fix r
      from dec [of r] obtain s w e where w: "dec s0 (b @ r) = (s, r, Inr (Some w))" "R v w" "tk s = (e, s0)"
        "positions e = positions d" by blast
      with option obtain o1 where "odec o0 (1 # b @ r) = (o1, r, Inr (Some (Some w)))" "otk o1 = (e, o0)"
        unfolding option_decoder_def by blast
      with w show "\<exists>s w e. future_decode odec otk o0 leaf' (async_new o0) ((1 # b) @ r) = (s, r, Inr (Some w)) \<and>
          future_rel R f w \<and> async_take s = (e, async_new o0) \<and> positions e = positions d"
        by (simp add: future_decode_def async_new_def async_take_def Ready)
    qed (simp add: b)
  next
    case (Pending v)
    with enc option show ?thesis
      by (auto simp: future_encode_def future_decode_def async_new_def async_take_def option_decoder_def
          intro!: exI [of _ "[0]"])
  qed
qed

lemma stream_codec:
  assumes W: "leb128 W" and codec: "codec R enc dec tk s0"
    and option: "option_decoder (list_decode W dec tk) list_take (list_decoder_new s0) odec otk o0"
  shows "codec (stream_rel R) (stream_encode W leaf enc) (stream_decode odec otk leaf') async_take (async_new o0)"
proof (rule codecI)
  fix x dst dst' d
  assume enc: "stream_encode W leaf enc x dst = Inr (dst', d)"
  obtain ready ended later where x: "x = Source ready ended later" by (cases x)
  show "\<exists>b. dst' = dst @ b \<and> (\<forall>r. \<exists>s w e. stream_decode odec otk leaf' (async_new o0) (b @ r) = (s, r, Inr (Some w)) \<and>
      stream_rel R x w \<and> async_take s = (e, async_new o0) \<and> positions e = positions d)"
  proof (cases ended)
    case True
    with enc x have "encode_list_own W enc (concat ready) (dst @ [1]) = Inr (dst', d)" by (simp add: stream_encode_def)
    from codecE [OF list_codec_codec [OF W codec] this] obtain b where b: "dst' = (dst @ [1]) @ b"
      and dec: "\<And>r. \<exists>s ws e. list_decode W dec tk (list_decoder_new s0) (b @ r) = (s, r, Inr (Some ws)) \<and>
        list_all2 R (concat ready) ws \<and> list_take s = (e, list_decoder_new s0) \<and> positions e = positions d"
      by blast
    show ?thesis
    proof (intro exI [of _ "1 # b"] conjI allI)
      fix r
      from dec [of r] obtain s ws e where w: "list_decode W dec tk (list_decoder_new s0) (b @ r) = (s, r, Inr (Some ws))"
        "list_all2 R (concat ready) ws" "list_take s = (e, list_decoder_new s0)" "positions e = positions d" by blast
      with option obtain o1 where "odec o0 (1 # b @ r) = (o1, r, Inr (Some (Some ws)))" "otk o1 = (e, o0)"
        unfolding option_decoder_def by blast
      with w True x show "\<exists>s w e. stream_decode odec otk leaf' (async_new o0) ((1 # b) @ r) = (s, r, Inr (Some w)) \<and>
          stream_rel R x w \<and> async_take s = (e, async_new o0) \<and> positions e = positions d"
        by (auto simp: stream_decode_def async_new_def async_take_def)
    qed (simp add: b)
  next
    case False
    with enc x option show ?thesis
      by (auto simp: stream_encode_def stream_decode_def async_new_def async_take_def option_decoder_def
          intro!: exI [of _ "[0]"])
  qed
qed

section \<open>Specialised encoders\<close>

lemma encode_items_sync:
  "encode_items (\<lambda>v dst. and_then (enc v dst) (\<lambda>dst. Inr (dst, None))) vs dst =
    and_then (copy_items enc vs dst) (\<lambda>dst. Inr (dst, replicate (length vs) None))"
  by (induction vs arbitrary: dst) (auto simp: and_then_assoc)

lemma collect_None [simp]: "collect (replicate n None) = None"
  by (simp add: collect_def list_ex_iff)

lemma copy_items_bytes: "copy_items (\<lambda>b dst. Inr (dst @ [b])) bs dst = Inr (dst @ bs)"
  by (induction bs arbitrary: dst) auto

lemma copy_encode_iter_default:
  "copy_encode_iter enc vs dst = encode_iter_own (\<lambda>v dst. and_then (enc v dst) (\<lambda>dst. Inr (dst, None))) vs dst"
  by (simp add: copy_encode_iter_def encode_iter_own_def encode_items_sync and_then_assoc)

lemma u8_encode_iter_default:
  "u8_encode_iter bs dst = encode_iter_own (\<lambda>b dst. and_then (Inr (dst @ [b])) (\<lambda>dst. Inr (dst, None))) bs dst"
  unfolding copy_encode_iter_default [symmetric]
  by (simp add: u8_encode_iter_def copy_encode_iter_def copy_items_bytes)

lemma u8_encode_list_eq:
  "wasm_tokio_values W \<Longrightarrow> length bs < 2 ^ 32 \<Longrightarrow>
   u8_encode_list W bs dst = u8_encode_iter bs (dst @ leb_enc W 32 (length bs))"
  by (simp add: u8_encode_list_def u8_encode_iter_def wasm_tokio_values.vec_enc_small)

section \<open>Reading what is ready\<close>

fun poll_data :: "poll list \<Rightarrow> bytes" where
  "poll_data [] = []"
| "poll_data (Data c # ps) = c @ poll_data ps"
| "poll_data (_ # ps) = poll_data ps"

lemma read_ready_Nil: "read_ready n [] ready = Inr (ready, False, [])"
  by (simp add: read_ready.simps)

lemma read_ready_Cons:
  "read_ready n (p # ps) ready =
    (if n - length ready = 0 then Inr (ready, False, p # ps)
     else (case p of
             Eof \<Rightarrow> Inr (ready, True, ps)
           | Error e \<Rightarrow> Inl e
           | Wait \<Rightarrow> Inr (ready, False, ps)
           | Data c \<Rightarrow>
               if length c \<le> n - length ready then read_ready n ps (ready @ c)
               else Inr (ready @ take (n - length ready) c, False, Data (drop (n - length ready) c) # ps)))"
  by (subst read_ready.simps) (simp split: poll.split)

lemma read_ready_conserves:
  "read_ready n ps ready = Inr (ready', ended, ps') \<Longrightarrow> ready' @ poll_data ps' = ready @ poll_data ps"
  by (induction ps arbitrary: ready)
    (auto simp: read_ready_Nil read_ready_Cons split: if_splits poll.splits)

lemma read_ready_bound:
  "read_ready n ps ready = Inr (ready', ended, ps') \<Longrightarrow> length ready \<le> n \<Longrightarrow> length ready' \<le> n"
  by (induction ps arbitrary: ready)
    (auto simp: read_ready_Nil read_ready_Cons split: if_splits poll.splits)

section \<open>Properties\<close>

text \<open>
  Lists on the wire (claim C21). If the elements have a codec, then what \<open>encode_list_own\<close> appends, in
  whatever pieces it arrives, is decoded by \<open>ListDecoder\<close> to the list of related elements with nothing left
  over, and the deferred operations of the receiver are at the positions of those of the sender.
\<close>

theorem list_delivery:
  assumes "leb128 W" and "value_decoder dec ok tk" and "ok s0" and "codec R enc dec tk s0"
    and "encode_list_own W enc vs dst = Inr (dst', d)"
  shows "\<exists>b. dst' = dst @ b \<and> (\<forall>cs. cs \<noteq> [] \<longrightarrow> concat cs = b \<longrightarrow>
    (\<exists>s ws. feed (list_decode W dec tk) (list_decoder_new s0) [] cs = (s, [], Inr (Some ws)) \<and>
      list_all2 R vs ws \<and> positions (fst (list_take s)) = positions d))"
proof -
  have "list_codec W dec ok tk" using assms(1,2) by (simp add: list_codec_def)
  note feed = list_codec.list_feed [OF this, of "list_decoder_new s0"]
  from codecE [OF list_codec_codec [OF assms(1,4)] assms(5)] obtain b where b: "dst' = dst @ b"
    and dec: "\<And>r. \<exists>s ws e. list_decode W dec tk (list_decoder_new s0) (b @ r) = (s, r, Inr (Some ws)) \<and>
        list_all2 R vs ws \<and> list_take s = (e, list_decoder_new s0) \<and> positions e = positions d"
    by blast
  from dec [of "[]"] obtain s ws e where *: "list_decode W dec tk (list_decoder_new s0) b = (s, [], Inr (Some ws))"
    "list_all2 R vs ws" "list_take s = (e, list_decoder_new s0)" "positions e = positions d" by auto
  have "feed (list_decode W dec tk) (list_decoder_new s0) [] cs = (s, [], Inr (Some ws))"
    if "cs \<noteq> []" "concat cs = b" for cs
    using feed [of cs s "[]" ws] * that assms(3) by (simp add: list_decoder_new_def)
  with b * show ?thesis by auto
qed

text \<open>
  The codec used in the examples: \<open>list<()>\<close>, and \<open>future<()>\<close> with the \<open>OptionDecoder\<close> of a value that
  takes no bytes.
\<close>

definition no_take :: "('s, 'l) taker" where
  "no_take s = (None, s)"

interpretation units: list_codec wasm_ref unit_decode "\<lambda>_. True" no_take
  by unfold_locales (auto simp: unit_decode_def)

interpretation pairs: array_codec unit_decode "\<lambda>_. True" no_take 2
  by unfold_locales

lemma unit_codec: "codec (=) unit_encode unit_decode no_take ()"
  by (rule codecI) (auto simp: unit_encode_def unit_decode_def no_take_def)

fun unit_option_decode :: "(unit, unit option) decode" where
  "unit_option_decode s [] = (s, [], Inr None)"
| "unit_option_decode s (b # src) =
    (if b = 0 then (s, src, Inr (Some None)) else if b = 1 then (s, src, Inr (Some (Some ())))
     else (s, src, Inl InvalidData))"

lemma unit_option: "option_decoder unit_decode no_take () unit_option_decode no_take ()"
  by (auto simp: option_decoder_def unit_decode_def no_take_def)

theorem list_delivery_witness:
  "\<exists>b. leb_enc wasm_ref 32 2 = [] @ b \<and> (\<forall>cs. cs \<noteq> [] \<longrightarrow> concat cs = b \<longrightarrow>
    (\<exists>s ws. feed (list_decode wasm_ref unit_decode no_take) (list_decoder_new ()) [] cs = (s, [], Inr (Some ws)) \<and>
      list_all2 (=) [(), ()] ws \<and> positions (fst (list_take s) :: nat deferred option) = positions (None :: nat deferred option)))"
proof (rule list_delivery [OF ref.leb128_axioms units.value_decoder_axioms _ unit_codec])
  show "encode_list_own wasm_ref unit_encode [(), ()] [] = Inr (leb_enc wasm_ref 32 2, None)"
    by (simp add: encode_list_own_def encode_iter_own_def unit_encode_def collect_def flip: numeral_2_eq_2)
qed simp

text \<open>
  Futures and streams on the wire (claim C23). A future or a stream, whether it is ready when it is encoded or
  pending, is decoded to a future or a stream of the same kind, and the receiver listens for a pending one
  at exactly the position at which the sender transmits it. Sender and receiver agree on positions inside
  of the value as well.
\<close>

theorem async_value_positions:
  assumes "leb128 W" and "codec R enc dec tk s0" and "option_decoder dec tk s0 odec otk o0"
    and "option_decoder (list_decode W dec tk) list_take (list_decoder_new s0) ldec ltk l0"
  shows "codec (future_rel R) (future_encode fleaf enc) (future_decode odec otk o0 fleaf') async_take (async_new o0) \<and>
    codec (stream_rel R) (stream_encode W sleaf enc) (stream_decode ldec ltk sleaf') async_take (async_new l0)"
  using future_codec [OF assms(2,3)] stream_codec [OF assms(1,2,4)] by blast

text \<open>An \<open>OptionDecoder\<close> of a list of values that take no bytes, which waits for the whole list.\<close>

definition units_option_decode ::
  "((unit, unit, nat) list_decoder, unit list option) decode" where
  "units_option_decode s src =
    (case src of
       [] \<Rightarrow> (s, src, Inr None)
     | b # c \<Rightarrow>
         if b = 0 then (s, c, Inr (Some None))
         else (case list_decode wasm_ref unit_decode no_take s c of
                 (s', c', Inr (Some vs)) \<Rightarrow> (s', c', Inr (Some (Some vs)))
               | (s', c', Inr None) \<Rightarrow> (s, src, Inr None)
               | (s', c', Inl e) \<Rightarrow> (s', c', Inl e)))"

lemma units_option:
  "option_decoder (list_decode wasm_ref unit_decode no_take) list_take (list_decoder_new ())
    units_option_decode list_take (list_decoder_new ())"
  by (auto simp: option_decoder_def units_option_decode_def)

theorem async_value_positions_witness:
  "codec (future_rel (=)) (future_encode (\<lambda>i v. i) unit_encode) (future_decode unit_option_decode no_take () (\<lambda>_. 7 :: nat))
     async_take (async_new ()) \<and>
   codec (stream_rel (=)) (stream_encode wasm_ref (\<lambda>i v. i) unit_encode) (stream_decode units_option_decode list_take 7)
     async_take (async_new (list_decoder_new ()))"
  by (rule async_value_positions [OF ref.leb128_axioms unit_codec unit_option units_option])

text \<open>
  Specialised encoders (claim C34). The encoders of \<open>impl_copy_codec!\<close> and of bytes, which skip the deferred
  operations, append the same bytes as the default ones of \<open>Encode\<close>: element by element for
  iterators, the length and the elements for a \<open>Vec<u8>\<close>, and a resource handle is encoded as its bytes are.
\<close>

theorem specialised_encoders:
  assumes "wasm_tokio_values W" and "length bs < 2 ^ 32"
  defines "u8 \<equiv> (\<lambda>b dst. Inr (dst @ [b]))"
  shows "copy_encode_iter enc vs dst = encode_iter_own (\<lambda>v dst. and_then (enc v dst) (\<lambda>dst. Inr (dst, None))) vs dst \<and>
    u8_encode_iter bs dst = encode_iter_own (\<lambda>b dst. and_then (u8 b dst) (\<lambda>dst. Inr (dst, None))) bs dst \<and>
    u8_encode_list W bs dst = encode_list_own W (\<lambda>b dst. and_then (u8 b dst) (\<lambda>dst. Inr (dst, None))) bs dst \<and>
    resource_encode W bs dst = u8_encode_list W bs dst"
  unfolding u8_def encode_list_own_def u8_encode_list_eq [OF assms(1,2)] u8_encode_iter_default [symmetric]
    copy_encode_iter_default [symmetric] resource_encode_def u8_encode_list_def [symmetric]
  using assms(2) by simp

theorem specialised_encoders_witness:
  "u8_encode_list wasm_ref [7, 9] [] = encode_list_own wasm_ref (\<lambda>b dst. and_then (Inr (dst @ [b])) (\<lambda>dst. Inr (dst, None))) [7, 9] []"
proof -
  have "length [7, 9 :: byte] < 2 ^ 32" by simp
  from specialised_encoders [OF ref.wasm_tokio_values_axioms this, THEN conjunct2, THEN conjunct2, THEN conjunct1]
  show ?thesis .
qed

text \<open>
  Reading ahead (claim C36). \<open>StreamEncoderRead\<close> takes at most \<open>MAX_READY\<close> bytes of what is ready, and what it
  took followed by what is left for the deferred operation is what the reader had.
\<close>

theorem read_ahead_bounded:
  assumes "read_ready max_ready items [] = Inr (ready, ended, later)"
  shows "length ready \<le> max_ready \<and> ready @ poll_data later = poll_data items"
  using read_ready_bound [OF assms] read_ready_conserves [OF assms] by simp

theorem read_ahead_bounded_witness:
  "read_ready 3 [Data [1, 2], Data [3, 4], Eof] [] = Inr ([1, 2, 3], False, [Data [4], Eof]) \<and>
   length [1, 2, 3 :: byte] \<le> 3 \<and> [1, 2, 3] @ poll_data [Data [4], Eof] = poll_data [Data [1, 2], Data [3, 4], Eof]"
proof -
  have *: "read_ready 3 [Data [1, 2], Data [3, 4], Eof] [] = Inr ([1, 2, 3], False, [Data [4], Eof])"
    by (simp add: read_ready_Cons)
  show ?thesis using * read_ahead_bounded [OF *] by blast
qed

end
