(* ===== verification/Streams.thy ===== *)
theory Streams
  imports Value_Codec
begin

text \<open>
  The transmission of a pending stream (\<open>crates/transport/src/value.rs\<close>): \<open>write_stream\<close>,
  \<open>write_stream_bytes\<close> and \<open>write_stream_read\<close> of the sender, \<open>handle_deferred_stream\<close> and the deferred
  operation of \<open>StreamDecoderBytes\<close> on the other end.

  Both ends are loops around \<open>select!\<close>, so the model is a transition system. The sender takes the next chunk
  of the stream and appends it to its buffer, or writes out the buffer; how much is written at a time, and
  when, depends on when the connection has room. The receiver gets what was written in pieces of any size
  and decodes it as far as possible. \<open>p_wire\<close> is what was written and has not been read yet.

  The elements of a stream have a codec; \<open>chunk\<close>, what the sender does with a chunk, and \<open>dec\<close> and
  \<open>rchunk\<close>, the decoder of the receiver and what it does with a chunk, are arguments of the system. The
  interface between them is the locale \<open>pending_stream\<close>, and it is interpreted for streams of bytes and
  of elements.
\<close>

section \<open>The transition system\<close>

definition MAX_PENDING_STREAM_BATCH :: nat where
  "MAX_PENDING_STREAM_BATCH = 1048576"

text \<open>
  \<open>Inr False\<close>: the end is running; \<open>Inr True\<close>: it wrote or received the end of the stream; \<open>Inl\<close>: it failed.
  \<open>p_spawned\<close> and \<open>p_rspawned\<close> are the paths below the stream for which the sender and the receiver started a
  deferred operation. \<open>p_readable\<close> is set if the buffer of the receiver may have another chunk.
\<close>

record ('a, 'w, 's) pending =
  p_items :: "'a list list"
  p_buf :: bytes
  p_index :: nat
  p_spawned :: "path list"
  p_sender :: "io_error + bool"
  p_wire :: bytes
  p_dec :: 's
  p_rbuf :: bytes
  p_readable :: bool
  p_got :: "'w list list"
  p_rindex :: nat
  p_rspawned :: "path list"
  p_receiver :: "io_error + bool"

definition pending_new :: "'s \<Rightarrow> 'a list list \<Rightarrow> ('a, 'w, 's) pending" where
  "pending_new s0 items =
    \<lparr>p_items = items, p_buf = [], p_index = 0, p_spawned = [], p_sender = Inr False, p_wire = [],
     p_dec = s0, p_rbuf = [], p_readable = False, p_got = [], p_rindex = 0, p_rspawned = [], p_receiver = Inr False\<rparr>"

type_synonym 'a chunk_encoder = "'a list \<Rightarrow> nat \<Rightarrow> bytes \<Rightarrow> io_error + bytes \<times> path list"
type_synonym ('w, 'd) chunk_receiver = "'w list \<Rightarrow> 'd \<Rightarrow> nat \<Rightarrow> io_error + path list"

text \<open>The sender: the branch of \<open>select!\<close> that takes a chunk, or the end of the stream.\<close>

definition take_chunk :: "'a chunk_encoder \<Rightarrow> ('a, 'w, 's) pending \<Rightarrow> ('a, 'w, 's) pending" where
  "take_chunk chunk s =
    (case p_items s of
       [] \<Rightarrow> s\<lparr>p_wire := p_wire s @ p_buf s @ [0], p_buf := [], p_sender := Inr True\<rparr>
     | c # cs \<Rightarrow>
         if c = [] then s\<lparr>p_items := cs\<rparr>
         else (case chunk c (p_index s) (p_buf s) of
                 Inl e \<Rightarrow> s\<lparr>p_sender := Inl e\<rparr>
               | Inr (buf, spawned) \<Rightarrow>
                   s\<lparr>p_items := cs, p_buf := buf, p_index := p_index s + length c,
                     p_spawned := p_spawned s @ spawned\<rparr>))"

text \<open>The receiver: one result of the decoder.\<close>

definition receive_chunk ::
  "('s, 'w list \<times> 'd) decode \<Rightarrow> ('w, 'd) chunk_receiver \<Rightarrow> ('a, 'w, 's) pending \<Rightarrow> ('a, 'w, 's) pending" where
  "receive_chunk dec rchunk s =
    (case dec (p_dec s) (p_rbuf s) of
       (d, b, Inl e) \<Rightarrow> s\<lparr>p_dec := d, p_rbuf := b, p_receiver := Inl e\<rparr>
     | (d, b, Inr None) \<Rightarrow> s\<lparr>p_dec := d, p_rbuf := b, p_readable := False\<rparr>
     | (d, b, Inr (Some (c, ds))) \<Rightarrow>
         if c = [] then
           s\<lparr>p_dec := d, p_rbuf := b, p_receiver := (if b = [] then Inr True else Inl InvalidData)\<rparr>
         else (case rchunk c ds (p_rindex s) of
                 Inl e \<Rightarrow> s\<lparr>p_dec := d, p_rbuf := b, p_receiver := Inl e\<rparr>
               | Inr spawned \<Rightarrow>
                   s\<lparr>p_dec := d, p_rbuf := b, p_got := p_got s @ [c], p_rindex := p_rindex s + length c,
                     p_rspawned := p_rspawned s @ spawned\<rparr>))"

inductive pstep ::
  "'a chunk_encoder \<Rightarrow> ('s, 'w list \<times> 'd) decode \<Rightarrow> ('w, 'd) chunk_receiver \<Rightarrow>
   ('a, 'w, 's) pending \<Rightarrow> ('a, 'w, 's) pending \<Rightarrow> bool"
  for chunk dec rchunk where
  take: "p_sender s = Inr False \<Longrightarrow> length (p_buf s) < MAX_PENDING_STREAM_BATCH \<Longrightarrow>
    pstep chunk dec rchunk s (take_chunk chunk s)"
| flush: "p_sender s = Inr False \<Longrightarrow> p_buf s \<noteq> [] \<Longrightarrow>
    pstep chunk dec rchunk s (s\<lparr>p_wire := p_wire s @ p_buf s, p_buf := []\<rparr>)"
| deliver: "p_receiver s = Inr False \<Longrightarrow> \<not> p_readable s \<Longrightarrow> 0 < n \<Longrightarrow> n \<le> length (p_wire s) \<Longrightarrow>
    pstep chunk dec rchunk s
      (s\<lparr>p_rbuf := p_rbuf s @ take n (p_wire s), p_wire := drop n (p_wire s), p_readable := True\<rparr>)"
| decode: "p_receiver s = Inr False \<Longrightarrow> p_readable s \<Longrightarrow> pstep chunk dec rchunk s (receive_chunk dec rchunk s)"
| eof: "p_receiver s = Inr False \<Longrightarrow> \<not> p_readable s \<Longrightarrow> p_wire s = [] \<Longrightarrow> p_sender s \<noteq> Inr False \<Longrightarrow>
    pstep chunk dec rchunk s (s\<lparr>p_receiver := Inl (if p_rbuf s = [] then UnexpectedEof else Other)\<rparr>)"

text \<open>
  What can go wrong otherwise: the connection fails under the sender, and the stream is dropped by whoever
  received it.
\<close>

inductive pfault :: "('s, 'w list \<times> 'd) decode \<Rightarrow> ('a, 'w, 's) pending \<Rightarrow> ('a, 'w, 's) pending \<Rightarrow> bool"
  for dec where
  egress_failed: "p_sender s = Inr False \<Longrightarrow> pfault dec s (s\<lparr>p_sender := Inl e\<rparr>)"
| stream_dropped: "p_receiver s = Inr False \<Longrightarrow> p_readable s \<Longrightarrow>
    dec (p_dec s) (p_rbuf s) = (d, b, Inr (Some (c, ds))) \<Longrightarrow> c \<noteq> [] \<Longrightarrow>
    pfault dec s (s\<lparr>p_dec := d, p_rbuf := b, p_receiver := Inl BrokenPipe\<rparr>)"

inductive_cases pstepE: "pstep chunk dec rchunk s s'"
inductive_cases pfaultE: "pfault dec s s'"

section \<open>The chunks of the code\<close>

text \<open>
  The sender of a stream of elements. The index of an element with a deferred operation has to fit into a
  \<open>u32\<close>, or \<open>Outgoing::index\<close> fails.
\<close>

definition stream_chunk :: "wasm_tokio \<Rightarrow> ('v, 'l) encoder \<Rightarrow> 'v chunk_encoder" where
  "stream_chunk W enc c i buf =
    and_then (u32_try_from (length c)) (\<lambda>n.
      if i + n \<ge> 2 ^ 64 then Inl InvalidInput
      else and_then (encode_items enc c (buf @ leb_enc W 32 n)) (\<lambda>(buf, ds).
        if list_ex (\<lambda>(k, d). d \<noteq> None \<and> k \<ge> 2 ^ 32) (enumerate i ds) then Inl InvalidInput
        else Inr (buf, element_positions i ds)))"

definition bytes_chunk :: "wasm_tokio \<Rightarrow> byte chunk_encoder" where
  "bytes_chunk W c i buf = and_then (u32_try_from (length c)) (\<lambda>n. Inr (buf @ leb_enc W 32 n @ c, []))"

text \<open>A decoder of which the receiver changes the state after each item, and the item.\<close>

definition map_decode :: "('s \<Rightarrow> 's) \<Rightarrow> ('s \<Rightarrow> 'v \<Rightarrow> 'w) \<Rightarrow> ('s, 'v) decode \<Rightarrow> ('s, 'w) decode" where
  "map_decode g h dec s src =
    (case dec s src of
       (s, src, Inl e) \<Rightarrow> (s, src, Inl e)
     | (s, src, Inr None) \<Rightarrow> (s, src, Inr None)
     | (s, src, Inr (Some v)) \<Rightarrow> (g s, src, Inr (Some (h s v))))"

lemma map_decode_simps [simp]:
  "dec s src = (s', src', Inl e) \<Longrightarrow> map_decode g h dec s src = (s', src', Inl e)"
  "dec s src = (s', src', Inr None) \<Longrightarrow> map_decode g h dec s src = (s', src', Inr None)"
  "dec s src = (s', src', Inr (Some v)) \<Longrightarrow> map_decode g h dec s src = (g s', src', Inr (Some (h s' v)))"
  by (simp_all add: map_decode_def)

lemma map_decode_cases:
  assumes "map_decode g h dec s b = (s', b', r)"
  obtains (fail) e where "r = Inl e" "dec s b = (s', b', Inl e)"
  | (more) "r = Inr None" "dec s b = (s', b', Inr None)"
  | (item) t v where "r = Inr (Some (h t v))" "s' = g t" "dec s b = (t, b', Inr (Some v))"
  using assms by (cases rule: decode_cases [of dec s b]) auto

lemma stream_decoder_map:
  assumes dec: "stream_decoder dec ok" and g: "\<And>s. ok s \<Longrightarrow> ok (g s)"
  shows "stream_decoder (map_decode g h dec) ok"
proof
  fix s b s' b' x assume s: "ok s"
  show "map_decode g h dec s (b @ x) = (s', b' @ x, Inr (Some a))"
    if "map_decode g h dec s b = (s', b', Inr (Some a))" for a
    using that by (cases rule: map_decode_cases) (auto simp: stream_decoder.item_ext [OF dec s])
  show "map_decode g h dec s (b @ x) = map_decode g h dec s' (b' @ x)"
    if "map_decode g h dec s b = (s', b', Inr None)"
    using that by (cases rule: map_decode_cases) (auto simp: map_decode_def stream_decoder.more_ext [OF dec s, of b s' b'])
  show "snd (snd (map_decode g h dec s (b @ x))) = Inl e" if "map_decode g h dec s b = (s', b', Inl e)" for e
  proof -
    from that have "dec s b = (s', b', Inl e)" by (cases rule: map_decode_cases) auto
    from stream_decoder.fail_ext [OF dec s this, of x] show ?thesis
      by (cases rule: decode_cases [of dec s "b @ x"]) auto
  qed
  show "ok s'" if "map_decode g h dec s b = (s', b', Inr (Some a))" for a
    using that by (cases rule: map_decode_cases) (use stream_decoder.ok_item [OF dec s] g in auto)
  show "ok s'" if "map_decode g h dec s b = (s', b', Inr None)"
    using that by (cases rule: map_decode_cases) (use stream_decoder.ok_more [OF dec s] in auto)
qed

text \<open>
  The receiver of a stream of elements: the deferred operations are taken from the list decoder, and each is
  started on the sub-stream of its element, if \<open>index_ok\<close> gives one.
\<close>

definition list_decode_taking ::
  "wasm_tokio \<Rightarrow> ('s, 'w) decode \<Rightarrow> ('s, 'l) taker \<Rightarrow>
   (('s, 'w, 'l) list_decoder, 'w list \<times> 'l deferred option list) decode" where
  "list_decode_taking W dec tk =
    map_decode (\<lambda>s. s\<lparr>l_deferred := []\<rparr>) (\<lambda>s ws. (ws, l_deferred s)) (list_decode W dec tk)"

definition stream_rchunk :: "(nat \<Rightarrow> bool) \<Rightarrow> ('w, 'l deferred option list) chunk_receiver" where
  "stream_rchunk index_ok c ds i =
    (if i + length c \<ge> 2 ^ 64 then Inl InvalidInput
     else if list_all (\<lambda>(k, d). d = None \<or> index_ok k) (enumerate i ds) then Inr (element_positions i ds)
     else Inl Other)"

definition bytes_decode :: "('s, bytes) decode \<Rightarrow> ('s, bytes \<times> unit) decode" where
  "bytes_decode = map_decode id (\<lambda>s c. (c, ()))"

definition bytes_rchunk :: "(byte, unit) chunk_receiver" where
  "bytes_rchunk c ds i = Inr []"

text \<open>
  \<open>write_stream_read\<close> starts by writing the length of the bytes that were ready, which are in its buffer, and
  then goes on as for a stream of the chunks it reads.
\<close>

definition read_new :: "wasm_tokio \<Rightarrow> 's \<Rightarrow> bytes \<Rightarrow> bytes list \<Rightarrow> io_error + (byte, byte, 's) pending" where
  "read_new W s0 ready items =
    (if ready = [] then Inr (pending_new s0 items)
     else and_then (u32_try_from (length ready)) (\<lambda>n.
       Inr ((pending_new s0 items)\<lparr>p_wire := leb_enc W 32 n, p_buf := ready, p_index := length ready\<rparr>)))"

section \<open>The interface of sender and receiver\<close>

locale pending_stream = stream_decoder dec ok
  for dec :: "('s, 'w list \<times> 'd) decode" and ok :: "'s \<Rightarrow> bool" +
  fixes chunk :: "'a chunk_encoder" and rchunk :: "('w, 'd) chunk_receiver" and s0 :: 's
    and R :: "'a \<Rightarrow> 'w \<Rightarrow> bool"
  assumes ok0: "ok s0"
    and dec_end: "\<And>r. \<exists>ds. dec s0 (0 # r) = (s0, r, Inr (Some ([], ds)))"
    and dec_chunk: "\<And>c i buf buf' ps. chunk c i buf = Inr (buf', ps) \<Longrightarrow> c \<noteq> [] \<Longrightarrow>
      \<exists>b. buf' = buf @ b \<and> (\<forall>r. \<exists>w ds. dec s0 (b @ r) = (s0, r, Inr (Some (w, ds))) \<and> list_all2 R c w \<and>
        rchunk w ds i = Inr ps)"
begin

text \<open>The decoder needs more at the start, and in the middle of a chunk.\<close>

lemma dec_Nil: "\<exists>t b. dec s0 [] = (t, b, Inr None)"
proof (cases rule: decode_cases [of dec s0 "[]"])
  case (fail t d e)
  with fail_ext [OF ok0 fail, of "[0]"] dec_end [of "[]"] show ?thesis by auto
next
  case (more t d)
  then show ?thesis by blast
next
  case (item t d x)
  with item_ext [OF ok0 item, of "[0]"] dec_end [of "[]"] show ?thesis by auto
qed

end

section \<open>Invariant\<close>

text \<open>
  Chunks on their way: the bytes \<open>B\<close> are those of the chunks, of which the first has index \<open>i\<close>, and the
  receiver will start the deferred operations at the paths \<open>P\<close>.
\<close>

inductive flight ::
  "('s, 'w list \<times> 'd) decode \<Rightarrow> ('w, 'd) chunk_receiver \<Rightarrow> 's \<Rightarrow> ('a \<Rightarrow> 'w \<Rightarrow> bool) \<Rightarrow>
   nat \<Rightarrow> 'a list list \<Rightarrow> bytes \<Rightarrow> path list \<Rightarrow> bool"
  for dec rchunk s0 R where
  none: "flight dec rchunk s0 R i [] [] []"
| chunk: "c \<noteq> [] \<Longrightarrow>
    (\<forall>r. \<exists>w ds. dec s0 (b @ r) = (s0, r, Inr (Some (w, ds))) \<and> list_all2 R c w \<and> rchunk w ds i = Inr ps) \<Longrightarrow>
    flight dec rchunk s0 R (i + length c) cs B P \<Longrightarrow> flight dec rchunk s0 R i (c # cs) (b @ B) (ps @ P)"

inductive_cases flight_NilE: "flight dec rchunk s0 R i [] B P"
inductive_cases flight_ConsE: "flight dec rchunk s0 R i (c # cs) B P"

lemma flight_append:
  "flight dec rchunk s0 R i cs B P \<Longrightarrow> flight dec rchunk s0 R (i + length (concat cs)) ds C Q \<Longrightarrow>
   flight dec rchunk s0 R i (cs @ ds) (B @ C) (P @ Q)"
proof (induction rule: flight.induct)
  case (chunk c b i ps cs B P)
  then show ?case using flight.chunk [of c dec s0 b R rchunk i ps "cs @ ds" "B @ C" "P @ Q"] by (simp add: add.assoc)
qed simp

lemma flight_one:
  assumes "c \<noteq> []"
    and "\<forall>r. \<exists>w ds. dec s0 (b @ r) = (s0, r, Inr (Some (w, ds))) \<and> list_all2 R c w \<and> rchunk w ds i = Inr ps"
  shows "flight dec rchunk s0 R i [c] b ps"
proof -
  have "flight dec rchunk s0 R i [c] (b @ []) (ps @ [])" by (rule flight.chunk) (use assms flight.none in auto)
  then show ?thesis by simp
qed

text \<open>
  \<open>got\<close> are the chunks received, \<open>pend\<close> those on their way. While the receiver runs, it is as if it had
  started afresh on \<open>u\<close> when it was last done with a chunk.
\<close>

definition receiving ::
  "('s, 'w list \<times> 'd) decode \<Rightarrow> 's \<Rightarrow> ('s \<Rightarrow> bool) \<Rightarrow> bytes \<Rightarrow> ('a, 'w, 's) pending \<Rightarrow> bool" where
  "receiving dec s0 ok B s \<longleftrightarrow>
    (\<exists>u. ok (p_dec s) \<and> (\<forall>x. dec (p_dec s) (p_rbuf s @ x) = dec s0 (u @ x)) \<and>
      u @ p_wire s @ p_buf s = B @ (if p_sender s = Inr True then [0] else []) \<and>
      (\<not> p_readable s \<longrightarrow> (\<exists>t b. dec s0 u = (t, b, Inr None))))"

definition pinv ::
  "('s, 'w list \<times> 'd) decode \<Rightarrow> ('w, 'd) chunk_receiver \<Rightarrow> 's \<Rightarrow> ('s \<Rightarrow> bool) \<Rightarrow> ('a \<Rightarrow> 'w \<Rightarrow> bool) \<Rightarrow>
   'a list list \<Rightarrow> ('a, 'w, 's) pending \<Rightarrow> bool" where
  "pinv dec rchunk s0 ok R items s \<longleftrightarrow>
    (\<exists>got pend B P.
      filter (\<lambda>c. c \<noteq> []) items = got @ pend @ filter (\<lambda>c. c \<noteq> []) (p_items s) \<and>
      list_all2 (list_all2 R) got (p_got s) \<and>
      p_rindex s = length (concat got) \<and> p_index s = p_rindex s + length (concat pend) \<and>
      p_spawned s = p_rspawned s @ P \<and> flight dec rchunk s0 R (p_rindex s) pend B P \<and>
      (p_sender s = Inr True \<longrightarrow> p_items s = [] \<and> p_buf s = []) \<and>
      (p_receiver s = Inr False \<longrightarrow> receiving dec s0 ok B s) \<and>
      (p_receiver s = Inr True \<longrightarrow> pend = [] \<and> p_sender s = Inr True))"

lemma pinvI:
  assumes "filter (\<lambda>c. c \<noteq> []) items = got @ pend @ filter (\<lambda>c. c \<noteq> []) (p_items s)"
    and "list_all2 (list_all2 R) got (p_got s)"
    and "p_rindex s = length (concat got)" and "p_index s = p_rindex s + length (concat pend)"
    and "p_spawned s = p_rspawned s @ P" and "flight dec rchunk s0 R (p_rindex s) pend B P"
    and "p_sender s = Inr True \<Longrightarrow> p_items s = [] \<and> p_buf s = []"
    and "p_receiver s = Inr False \<Longrightarrow> receiving dec s0 ok B s"
    and "p_receiver s = Inr True \<Longrightarrow> pend = [] \<and> p_sender s = Inr True"
  shows "pinv dec rchunk s0 ok R items s"
  using assms unfolding pinv_def by blast

lemma pinvE:
  assumes "pinv dec rchunk s0 ok R items s"
  obtains got pend B P where "filter (\<lambda>c. c \<noteq> []) items = got @ pend @ filter (\<lambda>c. c \<noteq> []) (p_items s)"
    and "list_all2 (list_all2 R) got (p_got s)"
    and "p_rindex s = length (concat got)" and "p_index s = p_rindex s + length (concat pend)"
    and "p_spawned s = p_rspawned s @ P" and "flight dec rchunk s0 R (p_rindex s) pend B P"
    and "p_sender s = Inr True \<longrightarrow> p_items s = [] \<and> p_buf s = []"
    and "p_receiver s = Inr False \<longrightarrow> receiving dec s0 ok B s"
    and "p_receiver s = Inr True \<longrightarrow> pend = [] \<and> p_sender s = Inr True"
  using assms unfolding pinv_def by blast

lemma receiving_cong:
  assumes "receiving dec s0 ok B s" and "p_dec s' = p_dec s" and "p_rbuf s' = p_rbuf s"
    and "p_readable s' = p_readable s" and "p_wire s' @ p_buf s' = p_wire s @ p_buf s @ C"
    and "B' @ (if p_sender s' = Inr True then [0] else []) = B @ (if p_sender s = Inr True then [0] else []) @ C"
  shows "receiving dec s0 ok B' s'"
proof -
  from assms(1) obtain u where u: "ok (p_dec s)" "\<forall>x. dec (p_dec s) (p_rbuf s @ x) = dec s0 (u @ x)"
    "u @ p_wire s @ p_buf s = B @ (if p_sender s = Inr True then [0] else [])"
    "\<not> p_readable s \<longrightarrow> (\<exists>t b. dec s0 u = (t, b, Inr None))"
    unfolding receiving_def by blast
  from u(3) have "u @ p_wire s' @ p_buf s' = B' @ (if p_sender s' = Inr True then [0] else [])"
    unfolding assms(5,6) by (metis append.assoc)
  with u(1,2,4) show ?thesis unfolding receiving_def assms(2-4) by blast
qed

text \<open>What every step of the system makes less of, the most important first; \<open>n\<close> is the number of chunks.\<close>

definition progress :: "nat \<Rightarrow> (('a, 'w, 's) pending \<times> ('a, 'w, 's) pending) set" where
  "progress n = measures
    [\<lambda>s. length (p_items s) + (if p_sender s = Inr False then 1 else 0), \<lambda>s. length (p_buf s),
     \<lambda>s. length (p_wire s), \<lambda>s. if p_receiver s = Inr False then 1 else 0, \<lambda>s. n - length (p_got s),
     \<lambda>s. if p_readable s then 1 else 0]"

context pending_stream
begin

abbreviation inv :: "'a list list \<Rightarrow> ('a, 'w, 's) pending \<Rightarrow> bool" where
  "inv \<equiv> pinv dec rchunk s0 ok R"

lemma inv_take:
  assumes inv: "inv items s" and run: "p_sender s = Inr False"
  shows "inv items (take_chunk chunk s)"
proof -
  obtain got pend B P where i:
    "filter (\<lambda>c. c \<noteq> []) items = got @ pend @ filter (\<lambda>c. c \<noteq> []) (p_items s)"
    "list_all2 (list_all2 R) got (p_got s)"
    "p_rindex s = length (concat got)" "p_index s = p_rindex s + length (concat pend)"
    "p_spawned s = p_rspawned s @ P" "flight dec rchunk s0 R (p_rindex s) pend B P"
    "p_sender s = Inr True \<longrightarrow> p_items s = [] \<and> p_buf s = []"
    "p_receiver s = Inr False \<longrightarrow> receiving dec s0 ok B s"
    "p_receiver s = Inr True \<longrightarrow> pend = [] \<and> p_sender s = Inr True" by (rule pinvE [OF inv])
  note r = i(8) [rule_format]
  show ?thesis
  proof (cases "p_items s")
    case Nil
    then have s': "take_chunk chunk s = s\<lparr>p_wire := p_wire s @ p_buf s @ [0], p_buf := [], p_sender := Inr True\<rparr>"
      by (simp add: take_chunk_def)
    show ?thesis unfolding s'
    proof (rule pinvI [where got = got and pend = pend and B = B and P = P])
      show "receiving dec s0 ok B (s\<lparr>p_wire := p_wire s @ p_buf s @ [0], p_buf := [], p_sender := Inr True\<rparr>)"
        if "p_receiver (s\<lparr>p_wire := p_wire s @ p_buf s @ [0], p_buf := [], p_sender := Inr True\<rparr>) = Inr False"
        using that run by (intro receiving_cong [where C = "[0]" and s = s, OF r]) simp_all
    qed (use Nil i run in simp_all)
  next
    case (Cons c cs)
    show ?thesis
    proof (cases "c = []")
      case True
      then have s': "take_chunk chunk s = s\<lparr>p_items := cs\<rparr>" by (simp add: take_chunk_def Cons)
      show ?thesis unfolding s'
      proof (rule pinvI [where got = got and pend = pend and B = B and P = P])
        show "receiving dec s0 ok B (s\<lparr>p_items := cs\<rparr>)" if "p_receiver (s\<lparr>p_items := cs\<rparr>) = Inr False"
          using that by (intro receiving_cong [where C = "[]" and s = s, OF r]) simp_all
      qed (use Cons True i run in simp_all)
    next
      case c: False
      show ?thesis
      proof (cases "chunk c (p_index s) (p_buf s)")
        case (Inl e)
        with c have s': "take_chunk chunk s = s\<lparr>p_sender := Inl e\<rparr>" by (simp add: take_chunk_def Cons)
        show ?thesis unfolding s'
        proof (rule pinvI [where got = got and pend = pend and B = B and P = P])
          show "receiving dec s0 ok B (s\<lparr>p_sender := Inl e\<rparr>)" if "p_receiver (s\<lparr>p_sender := Inl e\<rparr>) = Inr False"
            using that run by (intro receiving_cong [where C = "[]" and s = s, OF r]) simp_all
        qed (use i run in simp_all)
      next
        case (Inr br)
        obtain buf ps where br: "br = (buf, ps)" by (cases br)
        define s' where "s' = s\<lparr>p_items := cs, p_buf := buf, p_index := p_index s + length c,
          p_spawned := p_spawned s @ ps\<rparr>"
        from Inr br c have eq: "take_chunk chunk s = s'" by (simp add: take_chunk_def Cons s'_def)
        from dec_chunk [OF Inr [unfolded br] c] obtain b where b: "buf = p_buf s @ b"
          and dec: "\<forall>x. \<exists>w ds. dec s0 (b @ x) = (s0, x, Inr (Some (w, ds))) \<and> list_all2 R c w \<and>
            rchunk w ds (p_index s) = Inr ps" by blast
        have "flight dec rchunk s0 R (p_index s) [c] b ps"
          by (rule flight_one) (use c dec in auto)
        note fl = flight_append [OF i(6) this [unfolded i(4)]]
        show ?thesis unfolding eq
        proof (rule pinvI [where got = got and pend = "pend @ [c]" and B = "B @ b" and P = "P @ ps"])
          show "receiving dec s0 ok (B @ b) s'" if "p_receiver s' = Inr False"
            using that run by (intro receiving_cong [where C = b and s = s, OF r]) (simp_all add: s'_def b)
          show "flight dec rchunk s0 R (p_rindex s') (pend @ [c]) (B @ b) (P @ ps)" using fl by (simp add: s'_def)
          show "filter (\<lambda>c. c \<noteq> []) items = got @ (pend @ [c]) @ filter (\<lambda>c. c \<noteq> []) (p_items s')"
            using i(1) c by (simp add: s'_def Cons)
        qed (use i run in \<open>simp_all add: s'_def\<close>)
      qed
    qed
  qed
qed

lemma inv_flush:
  assumes inv: "inv items s" and run: "p_sender s = Inr False"
  shows "inv items (s\<lparr>p_wire := p_wire s @ p_buf s, p_buf := []\<rparr>)"
proof -
  obtain got pend B P where i:
    "filter (\<lambda>c. c \<noteq> []) items = got @ pend @ filter (\<lambda>c. c \<noteq> []) (p_items s)"
    "list_all2 (list_all2 R) got (p_got s)"
    "p_rindex s = length (concat got)" "p_index s = p_rindex s + length (concat pend)"
    "p_spawned s = p_rspawned s @ P" "flight dec rchunk s0 R (p_rindex s) pend B P"
    "p_sender s = Inr True \<longrightarrow> p_items s = [] \<and> p_buf s = []"
    "p_receiver s = Inr False \<longrightarrow> receiving dec s0 ok B s"
    "p_receiver s = Inr True \<longrightarrow> pend = [] \<and> p_sender s = Inr True" by (rule pinvE [OF inv])
  let ?s = "s\<lparr>p_wire := p_wire s @ p_buf s, p_buf := []\<rparr>"
  show ?thesis
  proof (rule pinvI [where got = got and pend = pend and B = B and P = P])
    show "receiving dec s0 ok B ?s" if "p_receiver ?s = Inr False"
      using that by (intro receiving_cong [where C = "[]" and s = s, OF i(8) [rule_format]]) simp_all
  qed (use i run in simp_all)
qed

lemma inv_deliver:
  assumes inv: "inv items s" and run: "p_receiver s = Inr False"
  shows "inv items (s\<lparr>p_rbuf := p_rbuf s @ take n (p_wire s), p_wire := drop n (p_wire s), p_readable := True\<rparr>)"
proof -
  obtain got pend B P where i:
    "filter (\<lambda>c. c \<noteq> []) items = got @ pend @ filter (\<lambda>c. c \<noteq> []) (p_items s)"
    "list_all2 (list_all2 R) got (p_got s)"
    "p_rindex s = length (concat got)" "p_index s = p_rindex s + length (concat pend)"
    "p_spawned s = p_rspawned s @ P" "flight dec rchunk s0 R (p_rindex s) pend B P"
    "p_sender s = Inr True \<longrightarrow> p_items s = [] \<and> p_buf s = []"
    "p_receiver s = Inr False \<longrightarrow> receiving dec s0 ok B s"
    "p_receiver s = Inr True \<longrightarrow> pend = [] \<and> p_sender s = Inr True" by (rule pinvE [OF inv])
  let ?s = "s\<lparr>p_rbuf := p_rbuf s @ take n (p_wire s), p_wire := drop n (p_wire s), p_readable := True\<rparr>"
  from i(8) run obtain u where u: "ok (p_dec s)" "\<forall>x. dec (p_dec s) (p_rbuf s @ x) = dec s0 (u @ x)"
    "u @ p_wire s @ p_buf s = B @ (if p_sender s = Inr True then [0] else [])"
    unfolding receiving_def by blast
  have "(u @ take n (p_wire s)) @ drop n (p_wire s) @ p_buf s = B @ (if p_sender s = Inr True then [0] else [])"
    using u(3) by (metis append.assoc append_take_drop_id)
  with u(1,2) have rec: "receiving dec s0 ok B ?s"
    unfolding receiving_def by (intro exI [of _ "u @ take n (p_wire s)"]) simp
  show ?thesis
  proof (rule pinvI [where got = got and pend = pend and B = B and P = P])
    show "receiving dec s0 ok B ?s" by (rule rec)
  qed (use i run in simp_all)
qed

text \<open>The decoder has something to decode if anything was sent.\<close>

lemma flight_decode:
  assumes "flight dec rchunk s0 R i pend B P" and "u @ v = B @ e" and "e = [] \<or> e = [0]"
    and "dec s0 u = (d, b, Inr (Some (c, ds)))"
  shows "if c = [] then pend = [] \<and> e = [0] \<and> d = s0 \<and> b = [] \<and> v = []
    else \<exists>c0 pend' ps B' P'. pend = c0 # pend' \<and> list_all2 R c0 c \<and> rchunk c ds i = Inr ps \<and> P = ps @ P' \<and>
      flight dec rchunk s0 R (i + length c0) pend' B' P' \<and> d = s0 \<and> b @ v = B' @ e"
proof (cases pend)
  case Nil
  with assms(1) have B: "B = []" by (auto elim: flight_NilE)
  show ?thesis
  proof (cases "u = []")
    case True
    with assms(4) dec_Nil show ?thesis by auto
  next
    case False
    with assms(2,3) B have "u = [0]" "v = []" "e = [0]" by (auto simp: Cons_eq_append_conv append_eq_Cons_conv)
    with assms(4) dec_end [of "[]"] Nil show ?thesis by auto
  qed
next
  case (Cons c0 pend')
  with assms(1) obtain b0 ps B' P' where B: "B = b0 @ B'" and P: "P = ps @ P'" and "c0 \<noteq> []"
    and dec0: "\<And>r. \<exists>w ds. dec s0 (b0 @ r) = (s0, r, Inr (Some (w, ds))) \<and> list_all2 R c0 w \<and> rchunk w ds i = Inr ps"
    and fl: "flight dec rchunk s0 R (i + length c0) pend' B' P'"
    by (auto elim!: flight_ConsE)
  from dec0 [of "B' @ e"] obtain w ws where w: "dec s0 (u @ v) = (s0, B' @ e, Inr (Some (w, ws)))"
    "list_all2 R c0 w" "rchunk w ws i = Inr ps"
    using assms(2) B by auto
  from item_ext [OF ok0 assms(4), of v] w(1) have "d = s0" "b @ v = B' @ e" "w = c" "ws = ds" by auto
  with w \<open>c0 \<noteq> []\<close> fl Cons P show ?thesis by auto
qed

lemma flight_first:
  assumes "flight dec rchunk s0 R i pend B P" and "pend = c0 # pend'"
  shows "\<exists>b x. dec s0 (B @ r) = (s0, b, Inr (Some x))"
  using assms
proof cases
  case (chunk c b ps cs B' P')
  then obtain w ds where "dec s0 (b @ B' @ r) = (s0, B' @ r, Inr (Some (w, ds)))" by blast
  with chunk show ?thesis by simp
qed simp

lemma flight_no_fail:
  assumes "flight dec rchunk s0 R i pend B P" and "u @ v = B @ e" and "e = [] \<or> e = [0]"
  shows "dec s0 u \<noteq> (d, b, Inl err)"
proof
  assume fail: "dec s0 u = (d, b, Inl err)"
  show False
  proof (cases pend)
    case Nil
    with assms(1) have B: "B = []" by (auto elim: flight_NilE)
    show False
    proof (cases "u = []")
      case True
      with fail dec_Nil show False by auto
    next
      case False
      with assms(2,3) B have "u = [0]" by (auto simp: Cons_eq_append_conv append_eq_Cons_conv)
      with fail dec_end [of "[]"] show False by auto
    qed
  next
    case (Cons c0 pend')
    from flight_first [OF assms(1) Cons, of e] assms(2)
    obtain b' x where "dec s0 (u @ v) = (s0, b', Inr (Some x))" by metis
    with fail_ext [OF ok0 fail, of v] show False by simp
  qed
qed

lemma flight_complete:
  assumes "flight dec rchunk s0 R i pend B P"
  shows "\<exists>d b x. dec s0 (B @ [0]) = (d, b, Inr (Some x))"
proof (cases pend)
  case Nil
  with assms have "B = []" by (auto elim: flight_NilE)
  with dec_end [of "[]"] show ?thesis by auto
next
  case (Cons c0 pend')
  from flight_first [OF assms Cons] show ?thesis by blast
qed

lemma inv_receive:
  assumes inv: "inv items s" and run: "p_receiver s = Inr False" and readable: "p_readable s"
  shows "inv items (receive_chunk dec rchunk s) \<and> (\<forall>e. p_receiver (receive_chunk dec rchunk s) \<noteq> Inl e)"
proof -
  obtain got pend B P where i:
    "filter (\<lambda>c. c \<noteq> []) items = got @ pend @ filter (\<lambda>c. c \<noteq> []) (p_items s)"
    "list_all2 (list_all2 R) got (p_got s)"
    "p_rindex s = length (concat got)" "p_index s = p_rindex s + length (concat pend)"
    "p_spawned s = p_rspawned s @ P" "flight dec rchunk s0 R (p_rindex s) pend B P"
    "p_sender s = Inr True \<longrightarrow> p_items s = [] \<and> p_buf s = []"
    "p_receiver s = Inr False \<longrightarrow> receiving dec s0 ok B s"
    "p_receiver s = Inr True \<longrightarrow> pend = [] \<and> p_sender s = Inr True" by (rule pinvE [OF inv])
  define e :: bytes where "e = (if p_sender s = Inr True then [0] else [])"
  have e: "e = [] \<or> e = [0]" by (simp add: e_def)
  from i(8) run obtain u where ok: "ok (p_dec s)" and u: "\<And>x. dec (p_dec s) (p_rbuf s @ x) = dec s0 (u @ x)"
    and w: "u @ p_wire s @ p_buf s = B @ e"
    unfolding receiving_def e_def by blast
  have dec_u: "dec (p_dec s) (p_rbuf s) = dec s0 u" using u [of "[]"] by simp
  show ?thesis
  proof (cases rule: decode_cases [of dec s0 u])
    case (fail d b err)
    with flight_no_fail [OF i(6) w e] show ?thesis by blast
  next
    case (more d b)
    then have s': "receive_chunk dec rchunk s = s\<lparr>p_dec := d, p_rbuf := b, p_readable := False\<rparr>"
      by (simp add: receive_chunk_def dec_u)
    have "ok d" using ok_more [OF ok] more dec_u by simp
    moreover have "dec d (b @ x) = dec s0 (u @ x)" for x
      using more_ext [OF ok, of "p_rbuf s" d b x] more dec_u u [of x] by simp
    ultimately have rec: "receiving dec s0 ok B (s\<lparr>p_dec := d, p_rbuf := b, p_readable := False\<rparr>)"
      using w more unfolding receiving_def e_def by (intro exI [of _ u]) simp
    show ?thesis unfolding s'
    proof (intro conjI pinvI [where got = got and pend = pend and B = B and P = P])
      show "receiving dec s0 ok B (s\<lparr>p_dec := d, p_rbuf := b, p_readable := False\<rparr>)" by (rule rec)
    qed (use i run in simp_all)
  next
    case (item d b x)
    obtain c ds where x: "x = (c, ds)" by (cases x)
    note fd = flight_decode [OF i(6) w e item [unfolded x]]
    show ?thesis
    proof (cases "c = []")
      case True
      with fd have *: "pend = []" "e = [0]" "b = []" by auto
      with True item x have s': "receive_chunk dec rchunk s = s\<lparr>p_dec := d, p_rbuf := [], p_receiver := Inr True\<rparr>"
        by (simp add: receive_chunk_def dec_u)
      from * have "p_sender s = Inr True" by (auto simp: e_def split: if_splits)
      with i * show ?thesis unfolding s'
        by (intro conjI pinvI [where got = got and pend = pend and B = B and P = P]) simp_all
    next
      case False
      with fd obtain c0 pend' ps B' P' where f: "pend = c0 # pend'" "list_all2 R c0 c" "rchunk c ds (p_rindex s) = Inr ps"
        "P = ps @ P'" "flight dec rchunk s0 R (p_rindex s + length c0) pend' B' P'" "d = s0"
        "b @ p_wire s @ p_buf s = B' @ e" by auto
      define s' where "s' = s\<lparr>p_dec := d, p_rbuf := b, p_got := p_got s @ [c], p_rindex := p_rindex s + length c,
        p_rspawned := p_rspawned s @ ps\<rparr>"
      have eq: "receive_chunk dec rchunk s = s'" using False item x f(3) by (simp add: receive_chunk_def dec_u s'_def)
      have len: "length c = length c0" using f(2) by (simp add: list_all2_lengthD)
      have "receiving dec s0 ok B' s'"
        using f(6,7) ok0 readable unfolding receiving_def s'_def by (intro exI [of _ b]) (simp add: e_def)
      then show ?thesis unfolding eq
        by (intro conjI pinvI [where got = "got @ [c0]" and pend = pend' and B = B' and P = P'])
          (use i f run in \<open>simp_all add: s'_def len list_all2_appendI\<close>)
    qed
  qed
qed

text \<open>
  The receiver fails only if the sender did, or if the stream was dropped.
\<close>

abbreviation inv' :: "'a list list \<Rightarrow> ('a, 'w, 's) pending \<Rightarrow> bool" where
  "inv' items s \<equiv> inv items s \<and> (\<forall>e. p_receiver s = Inl e \<longrightarrow> e = BrokenPipe \<or> (\<exists>e'. p_sender s = Inl e'))"

lemma inv_receiver_fails:
  assumes "inv items s"
  shows "inv items (s\<lparr>p_dec := d, p_rbuf := b, p_receiver := Inl e\<rparr>)"
proof -
  obtain got pend B P where i:
    "filter (\<lambda>c. c \<noteq> []) items = got @ pend @ filter (\<lambda>c. c \<noteq> []) (p_items s)"
    "list_all2 (list_all2 R) got (p_got s)"
    "p_rindex s = length (concat got)" "p_index s = p_rindex s + length (concat pend)"
    "p_spawned s = p_rspawned s @ P" "flight dec rchunk s0 R (p_rindex s) pend B P"
    "p_sender s = Inr True \<longrightarrow> p_items s = [] \<and> p_buf s = []"
    "p_receiver s = Inr False \<longrightarrow> receiving dec s0 ok B s"
    "p_receiver s = Inr True \<longrightarrow> pend = [] \<and> p_sender s = Inr True" by (rule pinvE [OF assms])
  show ?thesis
    by (rule pinvI [where got = got and pend = pend and B = B and P = P]) (use i in simp_all)
qed

lemma inv_sender_fails:
  assumes "inv items s" and "p_sender s = Inr False"
  shows "inv items (s\<lparr>p_sender := Inl e\<rparr>)"
proof -
  obtain got pend B P where i:
    "filter (\<lambda>c. c \<noteq> []) items = got @ pend @ filter (\<lambda>c. c \<noteq> []) (p_items s)"
    "list_all2 (list_all2 R) got (p_got s)"
    "p_rindex s = length (concat got)" "p_index s = p_rindex s + length (concat pend)"
    "p_spawned s = p_rspawned s @ P" "flight dec rchunk s0 R (p_rindex s) pend B P"
    "p_sender s = Inr True \<longrightarrow> p_items s = [] \<and> p_buf s = []"
    "p_receiver s = Inr False \<longrightarrow> receiving dec s0 ok B s"
    "p_receiver s = Inr True \<longrightarrow> pend = [] \<and> p_sender s = Inr True" by (rule pinvE [OF assms(1)])
  show ?thesis
  proof (rule pinvI [where got = got and pend = pend and B = B and P = P])
    show "receiving dec s0 ok B (s\<lparr>p_sender := Inl e\<rparr>)" if "p_receiver (s\<lparr>p_sender := Inl e\<rparr>) = Inr False"
      using that assms(2) by (intro receiving_cong [where C = "[]" and s = s, OF i(8) [rule_format]]) simp_all
  qed (use i assms(2) in simp_all)
qed

text \<open>The sender has not written the end if the receiver runs out of input.\<close>

lemma inv_starved:
  assumes "inv items s" and "p_receiver s = Inr False" and "\<not> p_readable s" and "p_wire s = []"
  shows "p_sender s \<noteq> Inr True"
proof
  assume sent: "p_sender s = Inr True"
  from assms(1,2) obtain pend B P where fl: "flight dec rchunk s0 R (p_rindex s) pend B P"
    and rec: "receiving dec s0 ok B s" and buf: "p_sender s = Inr True \<longrightarrow> p_buf s = []"
    unfolding pinv_def by blast
  from rec assms(3,4) sent buf obtain u t b where "u = B @ [0]" "dec s0 u = (t, b, Inr None)"
    unfolding receiving_def by auto
  with flight_complete [OF fl] show False by auto
qed

lemma inv_step:
  assumes "inv' items s" and "pstep chunk dec rchunk s s'"
  shows "inv' items s'"
  using assms(2)
proof cases
  case take
  have "p_receiver (take_chunk chunk s) = p_receiver s"
    by (simp add: take_chunk_def split: list.split sum.split prod.split)
  with inv_take assms(1) take show ?thesis by auto
next
  case flush
  with inv_flush assms(1) show ?thesis by auto
next
  case (deliver n)
  with inv_deliver assms(1) show ?thesis by auto
next
  case decode
  with inv_receive assms(1) show ?thesis by blast
next
  case eof
  with assms(1) inv_starved have "p_sender s \<noteq> Inr True" by blast
  with eof(5) obtain e where "p_sender s = Inl e" by (cases "p_sender s") auto
  with eof(1) assms(1) inv_receiver_fails [where d = "p_dec s" and b = "p_rbuf s" and s = s and items = items] show ?thesis by simp
qed

lemma inv_fault:
  assumes "inv' items s" and "pfault dec s s'"
  shows "inv' items s'"
  using assms(2)
proof cases
  case (egress_failed e)
  with inv_sender_fails assms(1) show ?thesis by auto
next
  case (stream_dropped d b c ds)
  with inv_receiver_fails assms(1) show ?thesis by auto
qed

lemma inv_new: "inv' items (pending_new s0 items)"
proof -
  have "receiving dec s0 ok [] (pending_new s0 items)"
    unfolding receiving_def using dec_Nil ok0 by (intro exI [of _ "[]"]) (simp add: pending_new_def)
  then have "inv items (pending_new s0 items)"
    using flight.none by (intro pinvI [where got = "[]" and pend = "[]" and B = "[]" and P = "[]"])
      (auto simp: pending_new_def)
  then show ?thesis by (simp add: pending_new_def)
qed

lemma inv_run:
  assumes "(sup (pstep chunk dec rchunk) (pfault dec))\<^sup>*\<^sup>* s s'" and "inv' items s"
  shows "inv' items s'"
  using assms
proof (induction rule: rtranclp_induct)
  case (step y z)
  then show ?case using inv_step [of items y z] inv_fault [of items y z] by blast
qed

text \<open>What the invariant says of what was received.\<close>

lemma inv_received:
  assumes "inv items s"
  shows "(\<exists>got rest. filter (\<lambda>c. c \<noteq> []) items = got @ rest \<and> list_all2 (list_all2 R) got (p_got s) \<and>
      (p_receiver s = Inr True \<longrightarrow> rest = [])) \<and>
    (\<exists>P. p_spawned s = p_rspawned s @ P \<and> (p_receiver s = Inr True \<longrightarrow> P = []))"
proof -
  obtain got pend B P where i:
    "filter (\<lambda>c. c \<noteq> []) items = got @ pend @ filter (\<lambda>c. c \<noteq> []) (p_items s)"
    "list_all2 (list_all2 R) got (p_got s)"
    "p_rindex s = length (concat got)" "p_index s = p_rindex s + length (concat pend)"
    "p_spawned s = p_rspawned s @ P" "flight dec rchunk s0 R (p_rindex s) pend B P"
    "p_sender s = Inr True \<longrightarrow> p_items s = [] \<and> p_buf s = []"
    "p_receiver s = Inr False \<longrightarrow> receiving dec s0 ok B s"
    "p_receiver s = Inr True \<longrightarrow> pend = [] \<and> p_sender s = Inr True" by (rule pinvE [OF assms])
  have "P = []" if "p_receiver s = Inr True" using i(6,9) that by (auto elim: flight_NilE)
  moreover have "pend @ filter (\<lambda>c. c \<noteq> []) (p_items s) = []" if "p_receiver s = Inr True" using i(7,9) that by simp
  ultimately show ?thesis using i(1,2,5) by blast
qed

text \<open>The system makes progress.\<close>

lemma step_progress:
  assumes "inv' items s" and "pstep chunk dec rchunk s s'"
  shows "(s', s) \<in> progress (length (filter (\<lambda>c. c \<noteq> []) items))"
  using assms(2)
proof cases
  case take
  then show ?thesis
  proof (cases "p_items s")
    case (Cons c cs)
    with take show ?thesis
      by (cases "chunk c (p_index s) (p_buf s)") (auto simp: progress_def take_chunk_def)
  qed (simp add: progress_def take_chunk_def)
next
  case flush
  then show ?thesis by (auto simp: progress_def)
next
  case (deliver n)
  then show ?thesis by (auto simp: progress_def)
next
  case decode
  then have "inv items s'" using inv_receive assms(1) by blast
  from inv_received [OF this] have got: "length (p_got s') \<le> length (filter (\<lambda>c. c \<noteq> []) items)"
    by (auto dest: list_all2_lengthD)
  show ?thesis
  proof (cases rule: decode_cases [of dec "p_dec s" "p_rbuf s"])
    case (fail t d e)
    with decode show ?thesis by (simp add: progress_def receive_chunk_def)
  next
    case (more t d)
    with decode show ?thesis by (simp add: progress_def receive_chunk_def)
  next
    case (item t d x)
    obtain c ds where "x = (c, ds)" by (cases x)
    with item decode got show ?thesis
      by (cases "rchunk c ds (p_rindex s)"; cases "c = []") (auto simp: progress_def receive_chunk_def)
  qed
next
  case eof
  then show ?thesis by (auto simp: progress_def)
qed

lemma run_progress: "wf {(s', s). inv' items s \<and> pstep chunk dec rchunk s s'}"
proof (rule wf_subset)
  show "wf (progress (length (filter (\<lambda>c. c \<noteq> []) items)) :: (('a, 'w, 's) pending \<times> ('a, 'w, 's) pending) set)"
    by (simp add: progress_def)
  show "{(s', s). inv' items s \<and> pstep chunk dec rchunk s s'} \<subseteq> progress (length (filter (\<lambda>c. c \<noteq> []) items))"
    using step_progress by auto
qed

text \<open>A system that cannot make a step is done.\<close>

lemma stuck_done:
  assumes "\<not> (\<exists>s'. pstep chunk dec rchunk s s')"
  shows "p_sender s \<noteq> Inr False \<and> p_receiver s \<noteq> Inr False"
proof
  show "p_sender s \<noteq> Inr False"
  proof
    assume run: "p_sender s = Inr False"
    have "pstep chunk dec rchunk s (take_chunk chunk s)" if "p_buf s = []"
      by (rule pstep.take [OF run]) (simp add: that MAX_PENDING_STREAM_BATCH_def)
    with assms pstep.flush [OF run] show False by blast
  qed
  show "p_receiver s \<noteq> Inr False"
  proof
    assume run: "p_receiver s = Inr False"
    with assms pstep.decode [OF run] have readable: "\<not> p_readable s" by blast
    have "1 \<le> length (p_wire s)" if "p_wire s \<noteq> []" using that by (simp add: Suc_le_eq)
    with assms pstep.deliver [OF run readable, of 1] have "p_wire s = []" by auto
    with assms pstep.eof [OF run readable] \<open>p_sender s \<noteq> Inr False\<close> show False by blast
  qed
qed

lemma no_fault_no_drop:
  assumes "(pstep chunk dec rchunk)\<^sup>*\<^sup>* (pending_new s0 items) s"
  shows "inv' items s \<and> (\<forall>e. p_receiver s = Inl e \<longrightarrow> (\<exists>e'. p_sender s = Inl e'))"
  using assms
proof (induction rule: rtranclp_induct)
  case base
  show ?case using inv_new [of items] by (simp add: pending_new_def)
next
  case (step y z)
  then have inv: "inv' items y" and z: "inv' items z" using inv_step by blast+
  from step.hyps(2) show ?case
  proof cases
    case take
    have "p_receiver (take_chunk chunk y) = p_receiver y"
      by (simp add: take_chunk_def split: list.split sum.split prod.split)
    with take step.IH z show ?thesis by auto
  next
    case decode
    with inv_receive [of items y] inv z show ?thesis by blast
  next
    case eof
    with inv inv_starved have "p_sender y \<noteq> Inr True" by blast
    with eof(5) obtain e where "p_sender y = Inl e" by (cases "p_sender y") auto
    with eof z show ?thesis by simp
  qed (use step.IH z in auto)
qed

text \<open>The sender fails on its own only at a chunk that cannot be encoded.\<close>

lemma sender_ok:
  assumes "(pstep chunk dec rchunk)\<^sup>*\<^sup>* (pending_new s0 items) s"
    and "\<And>c i buf. c \<in> set items \<Longrightarrow> c \<noteq> [] \<Longrightarrow> \<exists>x. chunk c i buf = Inr x"
  shows "set (p_items s) \<subseteq> set items \<and> (\<forall>e. p_sender s \<noteq> Inl e)"
  using assms(1)
proof (induction rule: rtranclp_induct)
  case (step y z)
  from step.hyps(2) show ?case
  proof cases
    case take
    show ?thesis
    proof (cases "p_items y")
      case (Cons c cs)
      then have "c \<in> set items" using step.IH by auto
      from assms(2) [OF this, of "p_index y" "p_buf y"] Cons take step.IH show ?thesis
        by (auto simp: take_chunk_def subset_iff)
    qed (use take step.IH in \<open>auto simp: take_chunk_def\<close>)
  next
    case decode
    then show ?thesis using step.IH
      by (auto simp: receive_chunk_def split: prod.split sum.split option.split)
  qed (use step.IH in auto)
qed (auto simp: pending_new_def)

text \<open>A stream of which the first chunk was written before.\<close>

lemma inv_started:
  assumes "\<forall>r. \<exists>w ds. dec s0 ((x @ y) @ r) = (s0, r, Inr (Some (w, ds))) \<and> list_all2 R c w \<and> rchunk w ds 0 = Inr []"
    and "c \<noteq> []"
  shows "inv' (c # items) ((pending_new s0 items)\<lparr>p_wire := x, p_buf := y, p_index := length c\<rparr>)"
proof -
  let ?s = "(pending_new s0 items)\<lparr>p_wire := x, p_buf := y, p_index := length c\<rparr>"
  have "receiving dec s0 ok (x @ y) ?s"
    unfolding receiving_def using dec_Nil ok0 by (intro exI [of _ "[]"]) (simp add: pending_new_def)
  moreover have "flight dec rchunk s0 R 0 [c] (x @ y) []" by (rule flight_one [OF assms(2)]) (rule assms(1))
  ultimately have "inv (c # items) ?s" using assms(2)
    by (intro pinvI [where got = "[]" and pend = "[c]" and B = "x @ y" and P = "[]"]) (auto simp: pending_new_def)
  then show ?thesis by (simp add: pending_new_def)
qed

end

section \<open>Streams of bytes and of elements\<close>

lemma leb_zero: "leb128 W \<Longrightarrow> leb_enc W 32 0 = [0]"
  using leb128.enc_byte [of W 0] by (simp add: as_u8_def)

lemma pending_bytes:
  assumes W: "wasm_tokio_values W" and dec: "stream_decoder vdec ok" and ok: "ok v0"
    and codec: "codec (=) (resource_encode W :: (bytes, nat) encoder) vdec (no_take :: ('s, nat) taker) v0"
  shows "pending_stream (bytes_decode vdec) ok (bytes_chunk W) bytes_rchunk v0 (=)"
proof -
  have leb: "leb128 W" using W by (rule wasm_tokio_values.axioms(1))
  have vec: "vdec v0 (leb_enc W 32 (length c) @ c @ r) = (v0, r, Inr (Some c))" if n: "length c < 2 ^ 32" for c r
  proof -
    have "resource_encode W c [] = Inr ([] @ leb_enc W 32 (length c) @ c, None :: nat deferred option)"
      using n by (simp add: resource_encode_def wasm_tokio_values.vec_enc_small [OF W])
    with codec [unfolded codec_def, rule_format, OF this, rule_format] obtain b where b: "leb_enc W 32 (length c) @ c = b"
      and *: "\<forall>r. \<exists>s w e. vdec v0 (b @ r) = (s, r, Inr (Some w)) \<and> c = w \<and> (no_take :: ('s, nat) taker) s = (e, v0)"
      by (metis append_Nil)
    from * [rule_format, of r] b show ?thesis by (auto simp: no_take_def)
  qed
  show ?thesis
  proof (rule pending_stream.intro [OF _ pending_stream_axioms.intro])
    show "stream_decoder (bytes_decode vdec) ok"
      unfolding bytes_decode_def by (rule stream_decoder_map [OF dec]) simp
    show "\<exists>ds. bytes_decode vdec v0 (0 # r) = (v0, r, Inr (Some ([], ds)))" for r
      using vec [of "[]" r] by (simp add: bytes_decode_def leb_zero [OF leb])
    show "\<exists>b. buf' = buf @ b \<and> (\<forall>r. \<exists>w ds. bytes_decode vdec v0 (b @ r) = (v0, r, Inr (Some (w, ds))) \<and>
        list_all2 (=) c w \<and> bytes_rchunk w ds i = Inr ps)"
      if "bytes_chunk W c i buf = Inr (buf', ps)" for c i buf buf' ps
    proof -
      from that have n: "length c < 2 ^ 32" and "buf' = buf @ leb_enc W 32 (length c) @ c" "ps = []"
        by (auto simp: bytes_chunk_def and_then_eq_Inr)
      moreover have "bytes_decode vdec v0 ((leb_enc W 32 (length c) @ c) @ r) = (v0, r, Inr (Some (c, ())))" for r
        using vec [OF n, of r] by (simp add: bytes_decode_def)
      ultimately show ?thesis by (auto simp: bytes_rchunk_def list.rel_eq)
    qed
  qed (rule ok)
qed

lemma element_positions_shift:
  "element_positions i ds = map (\<lambda>p. (hd p + i) # tl p) (element_positions 0 ds)"
proof -
  have "element_positions (m + i) ds = map (\<lambda>p. (hd p + i) # tl p) (element_positions m ds)" for m
  proof (induction ds arbitrary: m)
    case (Cons d ds)
    from Cons.IH [of "Suc m"] show ?case by simp
  qed simp
  from this [of 0] show ?thesis by simp
qed

lemma pending_elements:
  fixes dec :: "('s, 'w) decode" and tk :: "('s, 'm) taker"
  assumes W: "leb128 W" and dec: "value_decoder dec ok tk" and ok: "ok s0"
    and codec: "codec R enc dec tk s0" and idx: "\<And>k. index_ok k"
  shows "pending_stream (list_decode_taking W dec tk) (\<lambda>s. ok (l_dec s)) (stream_chunk W enc) (stream_rchunk index_ok)
    (list_decoder_new s0) R"
proof (rule pending_stream.intro [OF _ pending_stream_axioms.intro])
  have lc: "list_codec W dec ok tk" using W dec by (simp add: list_codec_def)
  show "stream_decoder (list_decode_taking W dec tk) (\<lambda>s. ok (l_dec s))"
    unfolding list_decode_taking_def by (rule stream_decoder_map [OF list_codec.list_stream_decoder [OF lc]]) simp
  show "ok (l_dec (list_decoder_new s0))" using ok by (simp add: list_decoder_new_def)
  show "\<exists>ds. list_decode_taking W dec tk (list_decoder_new s0) (0 # r) = (list_decoder_new s0, r, Inr (Some ([], ds)))" for r
    using leb128.dec_enc [OF W, of 0 r]
    by (simp add: list_decode_taking_def list_decode_def list_decoder_new_def leb_zero [OF W] map_decode_def)
  show "\<exists>b. buf' = buf @ b \<and> (\<forall>r. \<exists>w ds. list_decode_taking W dec tk (list_decoder_new s0) (b @ r) =
      (list_decoder_new s0, r, Inr (Some (w, ds))) \<and> list_all2 R c w \<and> stream_rchunk index_ok w ds i = Inr ps)"
    if "stream_chunk W enc c i buf = Inr (buf', ps)" for c i buf buf' ps
  proof -
    from that obtain ds where n: "length c < 2 ^ 32" "i + length c < 2 ^ 64"
      and ds: "encode_items enc c (buf @ leb_enc W 32 (length c)) = Inr (buf', ds)" and ps: "ps = element_positions i ds"
      by (auto simp: stream_chunk_def and_then_eq_Inr not_le split: if_splits)
    have "encode_list_own W enc c buf = Inr (buf', collect ds)"
      using n ds by (simp add: encode_list_own_def encode_iter_own_def)
    from codecE [OF list_codec_codec [OF W codec] this] obtain b where b: "buf' = buf @ b"
      and *: "\<And>r. \<exists>s w e. list_decode W dec tk (list_decoder_new s0) (b @ r) = (s, r, Inr (Some w)) \<and> list_all2 R c w \<and>
        list_take s = (e, list_decoder_new s0) \<and> positions e = positions (collect ds)" by blast
    have "\<exists>w es. list_decode_taking W dec tk (list_decoder_new s0) (b @ r) = (list_decoder_new s0, r, Inr (Some (w, es))) \<and>
        list_all2 R c w \<and> stream_rchunk index_ok w es i = Inr ps" for r
    proof -
      from * [of r] obtain s w e where s: "list_decode W dec tk (list_decoder_new s0) (b @ r) = (s, r, Inr (Some w))"
        "list_all2 R c w" "list_take s = (e, list_decoder_new s0)" "positions e = positions (collect ds)" by blast
      from s(3,4) have "element_positions 0 (l_deferred s) = element_positions 0 ds" "s\<lparr>l_deferred := []\<rparr> = list_decoder_new s0"
        by (auto simp: list_take_def positions_collect)
      then have "element_positions i (l_deferred s) = ps" "s\<lparr>l_deferred := []\<rparr> = list_decoder_new s0"
        using element_positions_shift [of i ds] element_positions_shift [of i "l_deferred s"] ps by simp_all
      with s(1,2) n idx show ?thesis
        by (auto simp: list_decode_taking_def stream_rchunk_def list_all_iff dest: list_all2_lengthD)
    qed
    with b show ?thesis by blast
  qed
qed

section \<open>The reference encodings\<close>

text \<open>A decoder of byte vectors for the encodings of the WebAssembly specification, without a state of its own.\<close>

definition vec_decode_ref :: "(unit, bytes) decode" where
  "vec_decode_ref s src =
    (case leb_dec32 wasm_ref src of
       Done n r \<Rightarrow> if n \<le> length r then (s, drop n r, Inr (Some (take n r))) else (s, src, Inr None)
     | More \<Rightarrow> (s, src, Inr None)
     | Fail e \<Rightarrow> (s, src, Inl e))"

lemma vec_decode_ref_decoder: "stream_decoder vec_decode_ref (\<lambda>_. True)"
proof
  fix s s' b b' x and a :: bytes and e
  show "vec_decode_ref s b = (s', b', Inr (Some a)) \<Longrightarrow> vec_decode_ref s (b @ x) = (s', b' @ x, Inr (Some a))"
    using ref.dec_done_ext [of b _ _ x]
    by (auto simp: vec_decode_ref_def simp del: wasm_ref_simps split: decoded.splits if_splits)
  show "vec_decode_ref s b = (s', b', Inr None) \<Longrightarrow> vec_decode_ref s (b @ x) = vec_decode_ref s' (b' @ x)"
    by (auto simp: vec_decode_ref_def simp del: wasm_ref_simps split: decoded.splits if_splits)
  show "vec_decode_ref s b = (s', b', Inl e) \<Longrightarrow> snd (snd (vec_decode_ref s (b @ x))) = Inl e"
    using ref.dec_fail_ext [of b e x]
    by (auto simp: vec_decode_ref_def simp del: wasm_ref_simps split: decoded.splits if_splits)
qed simp_all

lemma vec_decode_ref_codec:
  "codec (=) (resource_encode wasm_ref) vec_decode_ref no_take ()"
proof (rule codecI)
  fix v dst dst' d
  assume enc: "resource_encode wasm_ref v dst = Inr (dst', d :: 'l deferred option)"
  have n: "length v < 2 ^ 32"
  proof (rule ccontr)
    assume "\<not> length v < 2 ^ 32"
    then obtain err where "vec_enc wasm_ref v = Inl err" using ref.vec_enc_big [of v] by (auto simp del: wasm_ref_simps)
    with enc show False by (simp add: resource_encode_def del: wasm_ref_simps)
  qed
  from enc have "dst' = dst @ leb_enc wasm_ref 32 (length v) @ v" "d = None"
    by (auto simp: resource_encode_def ref.vec_enc_small [OF n] simp del: wasm_ref_simps)
  moreover have "vec_decode_ref () ((leb_enc wasm_ref 32 (length v) @ v) @ r) = ((), r, Inr (Some v))" for r
    by (simp add: vec_decode_ref_def ref.dec_enc [OF n] del: wasm_ref_simps)
  ultimately show "\<exists>b. dst' = dst @ b \<and> (\<forall>r. \<exists>s w e. vec_decode_ref () (b @ r) = (s, r, Inr (Some w)) \<and> v = w \<and>
      no_take s = (e :: 'm deferred option, ()) \<and> positions e = positions d)"
    by (auto simp: no_take_def simp del: wasm_ref_simps)
qed

interpretation ref_bytes: pending_stream "bytes_decode vec_decode_ref" "\<lambda>_. True" "bytes_chunk wasm_ref" bytes_rchunk "()" "(=)"
  by (rule pending_bytes [OF ref.wasm_tokio_values_axioms vec_decode_ref_decoder _ vec_decode_ref_codec]) simp

interpretation ref_units: pending_stream "list_decode_taking wasm_ref unit_decode no_take" "\<lambda>s. True"
  "stream_chunk wasm_ref unit_encode" "stream_rchunk (\<lambda>_. True)" "list_decoder_new ()" "(=)"
  by (rule pending_elements [OF ref.leb128_axioms units.value_decoder_axioms _ unit_codec]) simp_all

section \<open>Properties\<close>


definition units_stream :: "(unit, unit, (unit, unit, nat) list_decoder) pending" where
  "units_stream = take_chunk (stream_chunk wasm_ref (unit_encode :: (unit, nat) encoder)) (pending_new (list_decoder_new ()) [[(), ()]])"



text \<open>A run that transmits a stream of one byte: the chunk, the end, both read at once, and two items decoded.\<close>

definition byte_stream :: "nat \<Rightarrow> (byte, byte, unit) pending" where
  "byte_stream k =
    (let s0 = pending_new () [[7]];
         s1 = s0\<lparr>p_items := [], p_buf := [1, 7], p_index := 1\<rparr>;
         s2 = s1\<lparr>p_wire := [1, 7, 0], p_buf := [], p_sender := Inr True\<rparr>;
         s3 = s2\<lparr>p_rbuf := [1, 7, 0], p_wire := [], p_readable := True\<rparr>;
         s4 = s3\<lparr>p_rbuf := [0], p_got := [[7]], p_rindex := 1\<rparr>;
         s5 = s4\<lparr>p_rbuf := [], p_receiver := Inr True\<rparr>
     in [s0, s1, s2, s3, s4, s5] ! k)"

lemma byte_stream_run:
  "(pstep (bytes_chunk wasm_ref) (bytes_decode vec_decode_ref) bytes_rchunk)\<^sup>*\<^sup>* (byte_stream 0) (byte_stream 5)"
proof -
  let ?step = "pstep (bytes_chunk wasm_ref) (bytes_decode vec_decode_ref) bytes_rchunk"
  have "take_chunk (bytes_chunk wasm_ref) (byte_stream 0) = byte_stream 1"
    "take_chunk (bytes_chunk wasm_ref) (byte_stream 1) = byte_stream 2"
    by (simp_all add: byte_stream_def pending_new_def take_chunk_def bytes_chunk_def uleb.simps as_u8_def)
  then have "?step (byte_stream 0) (byte_stream 1)" "?step (byte_stream 1) (byte_stream 2)"
    using pstep.take [of "byte_stream 0" "bytes_chunk wasm_ref"] pstep.take [of "byte_stream 1" "bytes_chunk wasm_ref"]
    by (simp_all add: byte_stream_def pending_new_def MAX_PENDING_STREAM_BATCH_def)
  moreover have "?step (byte_stream 2) (byte_stream 3)"
    using pstep.deliver [of "byte_stream 2" 3] by (simp add: byte_stream_def pending_new_def)
  moreover have "receive_chunk (bytes_decode vec_decode_ref) bytes_rchunk (byte_stream 3) = byte_stream 4"
    "receive_chunk (bytes_decode vec_decode_ref) bytes_rchunk (byte_stream 4) = byte_stream 5"
    by (simp_all add: byte_stream_def pending_new_def receive_chunk_def bytes_decode_def map_decode_def
        vec_decode_ref_def bytes_rchunk_def)
  then have "?step (byte_stream 3) (byte_stream 4)" "?step (byte_stream 4) (byte_stream 5)"
    using pstep.decode [of "byte_stream 3" "bytes_chunk wasm_ref" "bytes_decode vec_decode_ref" bytes_rchunk]
      pstep.decode [of "byte_stream 4" "bytes_chunk wasm_ref" "bytes_decode vec_decode_ref" bytes_rchunk]
    by (simp_all add: byte_stream_def pending_new_def)
  ultimately show ?thesis by (meson converse_rtranclp_into_rtranclp rtranclp.rtrancl_refl)
qed






end
