(* ===== verification/Conn.thy ===== *)
theory Conn
  imports Frame_Codec Subscriptions
begin

text \<open>
  The framed connection of \<open>transport/src/frame/conn/mod.rs\<close>: the handles of the two sides
  (\<open>Outgoing\<close> and \<open>Incoming\<close>), the egress task that writes queued frames to the transport, and the
  ingress task that reads frames off the transport, routes them through the index of
  \<open>Subscriptions\<close> and hands their data to the channels the handles read.

  A channel is its buffered chunks and whether its receiver is gone. Its senders are the slots of the
  index and the clone ingress holds while it sends the data of a frame. The bound of the queue of
  egress only delays writers and is left out; the one of the channels of ingress is kept, since ingress
  blocks on it. \<open>cap\<close> stands for \<open>DEFAULT_MAX_INITIAL_CAPACITY\<close> of \<open>wasm_tokio\<close>.
\<close>

section \<open>Outgoing\<close>

definition MAX_FRAME_DATA :: nat where
  "MAX_FRAME_DATA = 2 ^ 32 - 1"

record outgoing =
  o_path :: path
  o_path_buf :: bytes

text \<open>The queue of frames, and the result egress leaves once it ended.\<close>

record egress_queue =
  q_frames :: "(bytes \<times> bytes) list"
  q_done :: "(io_error + unit) option"

definition outgoing_new :: "outgoing \<times> egress_queue" where
  "outgoing_new = (\<lparr>o_path = [], o_path_buf = [0]\<rparr>, \<lparr>q_frames = [], q_done = None\<rparr>)"

definition outgoing_index :: "wasm_tokio \<Rightarrow> outgoing \<Rightarrow> path \<Rightarrow> io_error + outgoing" where
  "outgoing_index W self path =
    (if path = [] then Inl InvalidInput
     else
      (let path = (if o_path self = [] then path else o_path self @ path) in
       and_then (u32_try_from (length path)) (\<lambda>n.
       and_then (encode_path W path (leb_enc W 32 n)) (\<lambda>buf.
       Inr \<lparr>o_path = path, o_path_buf = buf\<rparr>))))"

definition error_egress :: "egress_queue \<Rightarrow> io_error" where
  "error_egress q = (case q_done q of Some (Inl e) \<Rightarrow> e | _ \<Rightarrow> BrokenPipe)"

text \<open>The queue is closed once egress ended, which drops its receiver.\<close>

definition reserve :: "egress_queue \<Rightarrow> io_error + unit" where
  "reserve q = (if q_done q = None then Inr () else Inl (error_egress q))"

definition send_reserved :: "outgoing \<Rightarrow> bytes \<Rightarrow> egress_queue \<Rightarrow> egress_queue \<times> (io_error + unit)" where
  "send_reserved self buf q =
    (if q_done q = None then (q\<lparr>q_frames := q_frames q @ [(o_path_buf self, buf)]\<rparr>, Inr ())
     else (q, Inl (error_egress q)))"

definition send_frame :: "outgoing \<Rightarrow> bytes \<Rightarrow> egress_queue \<Rightarrow> egress_queue \<times> (io_error + unit)" where
  "send_frame self buf q =
    (case reserve q of Inl e \<Rightarrow> (q, Inl e) | Inr _ \<Rightarrow> send_reserved self buf q)"

function write_bytes :: "outgoing \<Rightarrow> bytes \<Rightarrow> egress_queue \<Rightarrow> egress_queue \<times> (io_error + unit)" where
  "write_bytes self buf q =
    (if buf = [] then (q, Inr ())
     else
      (let n = min (length buf) MAX_FRAME_DATA in
       case send_frame self (take n buf) q of
         (q, Inl e) \<Rightarrow> (q, Inl e)
       | (q, Inr _) \<Rightarrow> write_bytes self (drop n buf) q))"
  by pat_completeness auto
termination
  by (relation "measure (\<lambda>(self, buf, q). length buf)") (auto simp: MAX_FRAME_DATA_def)

definition outgoing_close :: "outgoing \<Rightarrow> egress_queue \<Rightarrow> egress_queue \<times> (io_error + unit)" where
  "outgoing_close self q = send_frame self [] q"

definition poll_write :: "outgoing \<Rightarrow> bytes \<Rightarrow> egress_queue \<Rightarrow> egress_queue \<times> (io_error + nat)" where
  "poll_write self buf q =
    (if buf = [] then (q, Inr 0)
     else
      (let n = min (length buf) MAX_FRAME_DATA in
       case send_frame self (take n buf) q of
         (q, Inl e) \<Rightarrow> (q, Inl e)
       | (q, Inr _) \<Rightarrow> (q, Inr n)))"

text \<open>
  Egress on the frames of its queue, given what was written before: the bytes on the transport and the
  result. The transport accepts everything, or the first \<open>k\<close> bytes and fails then.
\<close>

fun egress ::
  "wasm_tokio \<Rightarrow> (nat \<times> io_error) option \<Rightarrow> (bytes \<times> bytes) list \<Rightarrow> bytes \<Rightarrow> bytes \<times> (io_error + unit)" where
  "egress W fault [] out = (out, Inr ())"
| "egress W fault ((path, data) # next) out =
    (case u32_try_from (length data) of
       Inl e \<Rightarrow> (out, Inl e)
     | Inr n \<Rightarrow>
         (let out = out @ path @ leb_enc W 32 n @ data in
          case fault of
            None \<Rightarrow> egress W fault next out
          | Some (k, e) \<Rightarrow> if k < length out then (take k out, Inl e) else egress W fault next out))"

section \<open>Incoming\<close>

text \<open>
  Where ingress is: at the start of a frame; routing a frame with a path, a length and the input after
  its header; waiting for elements to be indexed; sending the data of a frame to a channel; returned.
\<close>

datatype phase =
    Frames bytes
  | Routing path nat bytes
  | Waiting path nat bytes
  | Sending path chan nat bytes
  | Returned "io_error + unit"

text \<open>
  The state shared by the tasks and the handles (\<open>IngressState\<close>, the channels and where the tasks are).
  Of the spawned task, \<open>c_reported\<close> holds once the error of ingress was set, \<open>c_io\<close> is its result once
  the subscriptions were shut down as well, \<open>c_drained\<close> holds once \<open>close_rx\<close> succeeded before that.
  \<open>c_sent\<close> and \<open>c_read\<close> are the chunks sent to the channels and the bytes read off them so far.
\<close>

record conn =
  c_index :: subscriptions
  c_permit :: bool
  c_phase :: phase
  c_bufs :: "chan \<Rightarrow> bytes list"
  c_closed :: "chan \<Rightarrow> bool"
  c_err :: "io_error option"
  c_failed :: bool
  c_reported :: bool
  c_io :: "(io_error + unit) option"
  c_drained :: bool
  c_done :: "(io_error + unit) option"
  c_sent :: "(path \<times> chan \<times> bytes) list"
  c_read :: "chan \<Rightarrow> bytes"

record incoming =
  i_rx :: "(chan \<times> bytes) option"
  i_subscribed :: bool
  i_path :: path

datatype 'a poll = Pending | Ready 'a

definition incoming_new :: "pattern list \<Rightarrow> bytes \<Rightarrow> conn \<times> incoming" where
  "incoming_new paths input =
    (\<lparr>c_index = subs_new paths, c_permit = False, c_phase = Frames input, c_bufs = (\<lambda>_. []),
      c_closed = (\<lambda>_. False), c_err = None, c_failed = False, c_reported = False, c_io = None,
      c_drained = False, c_done = None, c_sent = [], c_read = (\<lambda>_. [])\<rparr>,
     \<lparr>i_rx = Some (0, []), i_subscribed = True, i_path = []\<rparr>)"

text \<open>Storing the index drops the receivers that are no longer in it; \<open>taken\<close> moved to a handle.\<close>

definition rx_chans :: "subscriptions \<Rightarrow> chan list" where
  "rx_chans s = List.map_filter (\<lambda>(p, sub). rx sub) (subs s)"

definition store :: "subscriptions \<Rightarrow> chan option \<Rightarrow> conn \<Rightarrow> conn" where
  "store s taken c =
    c\<lparr>c_index := s,
      c_closed := (\<lambda>ch. c_closed c ch \<or>
        ch \<in> set (rx_chans (c_index c)) \<and> ch \<notin> set (rx_chans s) \<and> taken \<noteq> Some ch)\<rparr>"

definition set_err :: "io_error \<Rightarrow> conn \<Rightarrow> conn" where
  "set_err e c = (case c_err c of None \<Rightarrow> c\<lparr>c_err := Some e\<rparr> | Some _ \<Rightarrow> c)"

definition fail_unprocessed :: "conn \<Rightarrow> conn" where
  "fail_unprocessed c = (set_err BrokenPipe c)\<lparr>c_failed := True\<rparr>"

definition nonempty :: "conn \<Rightarrow> chan \<Rightarrow> bool" where
  "nonempty c ch \<longleftrightarrow> c_bufs c ch \<noteq> []"

definition incoming_index :: "incoming \<Rightarrow> path \<Rightarrow> conn \<Rightarrow> conn \<times> (io_error + incoming)" where
  "incoming_index self path c =
    (if path = [] then (c, Inl InvalidInput)
     else
      (let path = (if i_path self = [] then path else i_path self @ path);
           (s, unprocessed) = skip (nonempty c) (c_index c) path;
           c = (if unprocessed then fail_unprocessed c else c);
           (s, r) = take_rx s path
       in case r of
            None \<Rightarrow> (store s None c, Inl NotFound)
          | Some taken \<Rightarrow>
              (store s taken c,
               Inr \<lparr>i_rx = map_option (\<lambda>ch. (ch, [])) taken, i_subscribed = (taken \<noteq> None), i_path = path\<rparr>)))"

definition take_reader :: "incoming \<Rightarrow> conn \<Rightarrow> conn \<times> incoming \<times> incoming option" where
  "take_reader self c =
    (case i_rx self of
       None \<Rightarrow> (c, self, None)
     | Some r \<Rightarrow>
         (if i_path self = [] then c else store (retain (c_index c) (i_path self)) None c,
          self\<lparr>i_rx := None\<rparr>,
          Some \<lparr>i_rx = Some r, i_subscribed = True, i_path = i_path self\<rparr>))"

definition is_closed :: "conn \<Rightarrow> path \<Rightarrow> bool" where
  "is_closed c path = (get_tx (c_index c) path = Some Closed)"

text \<open>Whether a sender of a channel is left.\<close>

definition sender_alive :: "conn \<Rightarrow> chan \<Rightarrow> bool" where
  "sender_alive c ch \<longleftrightarrow>
    list_ex (\<lambda>(p, sub). tx sub = Some (Open ch)) (subs (c_index c)) \<or>
    (case c_phase c of Sending _ ch' _ _ \<Rightarrow> ch' = ch | _ \<Rightarrow> False)"

text \<open>\<open>poll_read\<close> of \<open>StreamReader\<close>: it reads off the current chunk, or else off the next one.\<close>

definition reader_poll :: "chan \<Rightarrow> bytes \<Rightarrow> nat \<Rightarrow> conn \<Rightarrow> conn \<times> bytes \<times> bytes poll" where
  "reader_poll ch chunk n c =
    (if chunk \<noteq> [] then (c, drop n chunk, Ready (take n chunk))
     else
      (case dropWhile (\<lambda>d. d = []) (c_bufs c ch) of
         d # ds \<Rightarrow> (c\<lparr>c_bufs := (c_bufs c)(ch := ds)\<rparr>, drop n d, Ready (take n d))
       | [] \<Rightarrow>
           (c\<lparr>c_bufs := (c_bufs c)(ch := [])\<rparr>, [], if sender_alive c ch then Pending else Ready [])))"

definition poll_read :: "incoming \<Rightarrow> nat \<Rightarrow> conn \<Rightarrow> conn \<times> incoming \<times> (io_error + bytes) poll" where
  "poll_read self n c =
    (if n = 0 then (c, self, Ready (Inr []))
     else
      (case i_rx self of
         None \<Rightarrow> (c, self, Ready (if \<not> i_subscribed self then Inl NotFound else Inr []))
       | Some (ch, chunk) \<Rightarrow>
           (case reader_poll ch chunk n c of
              (c, chunk, Pending) \<Rightarrow> (c, self\<lparr>i_rx := Some (ch, chunk)\<rparr>, Pending)
            | (c, chunk, Ready d) \<Rightarrow>
                if d = [] then
                 (c\<lparr>c_closed := (c_closed c)(ch := True)\<rparr>, self\<lparr>i_rx := None\<rparr>,
                  Ready (case c_err c of
                           Some e \<Rightarrow> if is_closed c (i_path self) then Inr [] else Inl e
                         | None \<Rightarrow> Inr []))
                else
                 (c\<lparr>c_read := (c_read c)(ch := c_read c ch @ d)\<rparr>, self\<lparr>i_rx := Some (ch, chunk)\<rparr>,
                  Ready (Inr d)))))"

definition incoming_drop :: "incoming \<Rightarrow> conn \<Rightarrow> conn" where
  "incoming_drop self c =
    (let c = (case i_rx self of
                None \<Rightarrow> c
              | Some (ch, chunk) \<Rightarrow>
                  (let c = c\<lparr>c_closed := (c_closed c)(ch := True)\<rparr> in
                   if chunk \<noteq> [] \<or> nonempty c ch then fail_unprocessed c else c))
     in if i_path self = [] then c
        else
         (let (s, unprocessed) = release (nonempty c) (c_index c) (i_path self);
              c = store s None c
          in if unprocessed then fail_unprocessed c else c))"

section \<open>Ingress\<close>

text \<open>Reading the elements of a path of \<open>k\<close>: all are read, the first \<open>d\<close> of them are kept.\<close>

fun read_path :: "wasm_tokio \<Rightarrow> nat \<Rightarrow> nat \<Rightarrow> path \<Rightarrow> bytes \<Rightarrow> io_error + path \<times> bytes" where
  "read_path W d 0 path input = Inr (path, input)"
| "read_path W d (Suc k) path input =
    and_then (leb_read W 32 input) (\<lambda>(p, input).
      read_path W d k (if length path < d then path @ [p] else path) input)"

text \<open>The header of the next frame: \<open>None\<close> at the end of the stream.\<close>

definition read_frame :: "wasm_tokio \<Rightarrow> nat \<Rightarrow> bytes \<Rightarrow> io_error + (path \<times> nat \<times> bytes) option" where
  "read_frame W d input =
    (if input = [] then Inr None
     else
      and_then (leb_read W 32 input) (\<lambda>(path_len, input).
      and_then (read_path W d path_len [] input) (\<lambda>(path, input).
      and_then (leb_read W 32 input) (\<lambda>(n, input).
      if path_len > d then Inl NotFound else Inr (Some (path, n, input))))))"

definition drop_permit :: "conn \<Rightarrow> conn" where
  "drop_permit c =
    (if c_permit c then c\<lparr>c_permit := False, c_index := (c_index c)\<lparr>available := available (c_index c) + 1\<rparr>\<rparr>
     else c)"

definition next_frame :: "wasm_tokio \<Rightarrow> nat \<Rightarrow> bytes \<Rightarrow> phase" where
  "next_frame W d input =
    (case read_frame W d input of
       Inl e \<Rightarrow> Returned (Inl e)
     | Inr None \<Rightarrow> Returned (Inr ())
     | Inr (Some (path, n, input)) \<Rightarrow> Routing path n input)"

text \<open>One round of the routing loop.\<close>

definition route_frame :: "path \<Rightarrow> nat \<Rightarrow> bytes \<Rightarrow> conn \<Rightarrow> conn" where
  "route_frame path n input c =
    (let (s, permit, r) = route (c_index c) path (c_permit c); c = c\<lparr>c_index := s, c_permit := permit\<rparr> in
     case r of
       RouteTx Closed \<Rightarrow> (drop_permit c)\<lparr>c_phase := Returned (Inl InvalidData)\<rparr>
     | RouteTx (Open ch) \<Rightarrow>
         if n = 0 then (drop_permit (c\<lparr>c_index := close_path path s\<rparr>))\<lparr>c_phase := Frames input\<rparr>
         else (drop_permit c)\<lparr>c_phase := Sending path ch n input\<rparr>
     | RouteNotFound \<Rightarrow> (drop_permit c)\<lparr>c_phase := Returned (Inl NotFound)\<rparr>
     | RouteReleased \<Rightarrow> (drop_permit c)\<lparr>c_phase := Returned (Inl BrokenPipe)\<rparr>
     | RouteUnclaimed \<Rightarrow> c\<lparr>c_phase := Waiting path n input\<rparr>)"

text \<open>One round of the loop over the data of a frame; \<open>None\<close> while the channel is full.\<close>

definition send_chunk :: "nat \<Rightarrow> path \<Rightarrow> chan \<Rightarrow> nat \<Rightarrow> bytes \<Rightarrow> conn \<Rightarrow> conn option" where
  "send_chunk cap path ch n input c =
    (if n = 0 then Some (c\<lparr>c_phase := Frames input\<rparr>)
     else
      (let k = min n cap in
       if length input < k then Some (c\<lparr>c_phase := Returned (Inl UnexpectedEof)\<rparr>)
       else if c_closed c ch then Some (c\<lparr>c_phase := Returned (Inl BrokenPipe)\<rparr>)
       else if length (c_bufs c ch) \<ge> MAX_BUFFERED_CHUNKS then None
       else
        Some (c\<lparr>c_phase := Sending path ch (n - k) (drop k input),
                c_bufs := (c_bufs c)(ch := c_bufs c ch @ [take k input]),
                c_sent := c_sent c @ [(path, ch, take k input)]\<rparr>)))"

inductive ingress :: "wasm_tokio \<Rightarrow> nat \<Rightarrow> conn \<Rightarrow> conn \<Rightarrow> bool" for W cap where
  Read_Frame: "c_phase c = Frames input \<Longrightarrow>
    ingress W cap c (c\<lparr>c_phase := next_frame W (depth (c_index c)) input\<rparr>)"
| Route_Frame: "c_phase c = Routing path n input \<Longrightarrow> ingress W cap c (route_frame path n input c)"
| Acquired: "c_phase c = Waiting path n input \<Longrightarrow> \<not> sem_closed (c_index c) \<Longrightarrow> available (c_index c) > 0 \<Longrightarrow>
    ingress W cap c (c\<lparr>c_phase := Routing path n input, c_permit := True,
      c_index := (c_index c)\<lparr>available := available (c_index c) - 1\<rparr>\<rparr>)"
| Acquire_Closed: "c_phase c = Waiting path n input \<Longrightarrow> sem_closed (c_index c) \<Longrightarrow>
    ingress W cap c (c\<lparr>c_phase := Returned (Inl BrokenPipe)\<rparr>)"
| Notified: "c_phase c = Waiting path n input \<Longrightarrow> ingress W cap c (c\<lparr>c_phase := Routing path n input\<rparr>)"
| Send_Chunk: "c_phase c = Sending path ch n input \<Longrightarrow> send_chunk cap path ch n input c = Some c' \<Longrightarrow>
    ingress W cap c c'"

text \<open>\<open>close_rx\<close>, which runs once all handles were dropped.\<close>

definition close_receivers :: "conn \<Rightarrow> conn \<times> (io_error + unit)" where
  "close_receivers c =
    (let (s, unprocessed) = close_rx (nonempty c) (c_index c); c = store s None c in
     if unprocessed then (c, Inl BrokenPipe)
     else (c, case c_err c of Some e \<Rightarrow> Inl e | None \<Rightarrow> Inr ()))"

text \<open>
  The task \<open>Incoming::new\<close> spawns. The inner future runs ingress until it returns or a handle failed it,
  then sets the error, then shuts the subscriptions down; the outer one waits for its result and for the
  handles to be dropped. \<open>idle\<close> is whether all handles are dropped.
\<close>

inductive task :: "wasm_tokio \<Rightarrow> nat \<Rightarrow> bool \<Rightarrow> conn \<Rightarrow> conn \<Rightarrow> bool" for W cap idle where
  Ingress: "c_done c = None \<Longrightarrow> \<not> c_reported c \<Longrightarrow> ingress W cap c c' \<Longrightarrow> task W cap idle c c'"
| Failed: "c_done c = None \<Longrightarrow> \<not> c_reported c \<Longrightarrow> c_failed c \<Longrightarrow> (\<And>r. c_phase c \<noteq> Returned r) \<Longrightarrow>
    task W cap idle c ((drop_permit c)\<lparr>c_phase := Returned (Inl BrokenPipe), c_failed := False\<rparr>)"
| Report: "c_done c = None \<Longrightarrow> \<not> c_reported c \<Longrightarrow> c_phase c = Returned r \<Longrightarrow>
    task W cap idle c ((case r of Inl e \<Rightarrow> set_err e c | Inr _ \<Rightarrow> c)\<lparr>c_reported := True\<rparr>)"
| Shut_Down: "c_done c = None \<Longrightarrow> c_reported c \<Longrightarrow> c_io c = None \<Longrightarrow> c_phase c = Returned r \<Longrightarrow>
    task W cap idle c (c\<lparr>c_index := close_tx (c_index c), c_io := Some r\<rparr>)"
| Io_Failed: "c_done c = None \<Longrightarrow> c_io c = Some (Inl e) \<Longrightarrow> task W cap idle c (c\<lparr>c_done := Some (Inl e)\<rparr>)"
| Io_Complete: "c_done c = None \<Longrightarrow> c_io c = Some (Inr ()) \<Longrightarrow> \<not> c_drained c \<Longrightarrow> idle \<Longrightarrow>
    close_receivers c = (c', r) \<Longrightarrow> task W cap idle c (c'\<lparr>c_done := Some r\<rparr>)"
| Handles_Dropped: "c_done c = None \<Longrightarrow> \<not> c_drained c \<Longrightarrow> c_io c = None \<Longrightarrow> idle \<Longrightarrow>
    close_receivers c = (c', r) \<Longrightarrow>
    task W cap idle c (case r of Inl e \<Rightarrow> c'\<lparr>c_done := Some (Inl e)\<rparr> | Inr _ \<Rightarrow> c'\<lparr>c_drained := True\<rparr>)"
| Drained: "c_done c = None \<Longrightarrow> c_io c = Some (Inr ()) \<Longrightarrow> c_drained c \<Longrightarrow>
    task W cap idle c (c\<lparr>c_done := Some (Inr ())\<rparr>)"

text \<open>\<open>finished\<close>: \<open>stopped\<close> is whether the task ended without leaving a result.\<close>

definition finished :: "(io_error + unit) option \<Rightarrow> bool \<Rightarrow> (io_error + unit) poll" where
  "finished d stopped =
    (case d of
       Some (Inl e) \<Rightarrow> Ready (Inl e)
     | Some (Inr _) \<Rightarrow> Ready (Inr ())
     | None \<Rightarrow> if stopped then Ready (Inl Other) else Pending)"

text \<open>The connection with its handles: the task and the operations of the handles in any order.\<close>

inductive conn_step :: "wasm_tokio \<Rightarrow> nat \<Rightarrow> conn \<times> incoming list \<Rightarrow> conn \<times> incoming list \<Rightarrow> bool" for W cap where
  Task: "task W cap (hs = []) c c' \<Longrightarrow> conn_step W cap (c, hs) (c', hs)"
| Index: "h \<in> set hs \<Longrightarrow> \<forall>i \<in> set path. i < usize_max \<Longrightarrow> incoming_index h path c = (c', Inr h') \<Longrightarrow>
    conn_step W cap (c, hs) (c', hs @ [h'])"
| Index_Error: "h \<in> set hs \<Longrightarrow> \<forall>i \<in> set path. i < usize_max \<Longrightarrow> incoming_index h path c = (c', Inl e) \<Longrightarrow>
    conn_step W cap (c, hs) (c', hs)"
| Read: "poll_read h n c = (c', h', r) \<Longrightarrow> conn_step W cap (c, hs @ h # hs') (c', hs @ h' # hs')"
| Take: "take_reader h c = (c', h', Some g) \<Longrightarrow> conn_step W cap (c, hs @ h # hs') (c', hs @ h' # hs' @ [g])"
| Drop_Handle: "conn_step W cap (c, hs @ h # hs') (incoming_drop h c, hs @ hs')"

end
