(* ===== verification/Channels.thy ===== *)
theory Channels
  imports Subscriptions
begin

text \<open>
  The channels of the index of \<open>Subscriptions\<close>: how every operation treats the channels of the
  subscriptions and the number of handles within an element. A path is given a channel when it is first
  subscribed to and never another one, a subscription goes away only with an element that no handle is
  left in, and an element that went away was released.
\<close>

section \<open>Operations that only subscribe\<close>

definition declared_at :: "subscriptions \<Rightarrow> path \<Rightarrow> bool" where
  "declared_at s p \<longleftrightarrow> (\<exists>n pat. resolve s p = Some (n, pat) \<and> declared n)"

lemma declared_at_patterns: "patterns s' = patterns s \<Longrightarrow> declared_at s' p = declared_at s p"
  using resolve_patterns [of s' s] by (simp add: declared_at_def)

text \<open>
  From \<open>s\<close> to \<open>s'\<close>, the paths \<open>np\<close> got the channels from \<open>fresh s\<close> on, in order, and existing
  subscriptions kept theirs.
\<close>

definition fresh_sub :: "path list \<Rightarrow> subscriptions \<Rightarrow> path \<Rightarrow> subscription \<Rightarrow> bool" where
  "fresh_sub np s p sub \<longleftrightarrow>
    (\<exists>i < length np. np ! i = p \<and> rx sub = Some (fresh s + i) \<and>
      tx sub = (if closed s then None else Some (Open (fresh s + i)))) \<or>
    rx sub = None \<and> tx sub = None \<and> \<not> declared_at s p"

lemma fresh_subE:
  assumes "fresh_sub np s p sub"
  obtains (new) i where "i < length np" "np ! i = p" "rx sub = Some (fresh s + i)"
      "tx sub = (if closed s then None else Some (Open (fresh s + i)))"
  | (undeclared) "rx sub = None" "tx sub = None" "\<not> declared_at s p"
  using assms by (auto simp: fresh_sub_def)

definition extends :: "path list \<Rightarrow> subscriptions \<Rightarrow> subscriptions \<Rightarrow> bool" where
  "extends np s s' \<longleftrightarrow>
    fresh s' = fresh s + length np \<and> closed s' = closed s \<and> patterns s' = patterns s \<and> distinct np \<and>
    (\<forall>p \<in> set np. get_sub s p = None \<and> get_sub s' p \<noteq> None) \<and>
    (\<forall>p sub'. get_sub s' p = Some sub' \<longrightarrow>
      (case get_sub s p of
         Some sub \<Rightarrow> tx sub' = tx sub \<and> rx sub' = rx sub
       | None \<Rightarrow> fresh_sub np s p sub'))"

lemma extendsD:
  assumes "extends np s s'"
  shows "fresh s' = fresh s + length np" "closed s' = closed s" "patterns s' = patterns s" "distinct np"
    and "p \<in> set np \<Longrightarrow> get_sub s p = None" and "p \<in> set np \<Longrightarrow> get_sub s' p \<noteq> None"
    and "get_sub s' p = Some sub' \<Longrightarrow> get_sub s p = Some sub \<Longrightarrow> tx sub' = tx sub \<and> rx sub' = rx sub"
    and "get_sub s' p = Some sub' \<Longrightarrow> get_sub s p = None \<Longrightarrow> fresh_sub np s p sub'"
proof -
  note a = assms [unfolded extends_def]
  show "fresh s' = fresh s + length np" "closed s' = closed s" "patterns s' = patterns s" "distinct np"
    "p \<in> set np \<Longrightarrow> get_sub s p = None" "p \<in> set np \<Longrightarrow> get_sub s' p \<noteq> None"
    using a by blast+
  have "get_sub s' p = Some sub' \<Longrightarrow>
      (case get_sub s p of Some sub \<Rightarrow> tx sub' = tx sub \<and> rx sub' = rx sub | None \<Rightarrow> fresh_sub np s p sub')"
    using a by blast
  then show "get_sub s' p = Some sub' \<Longrightarrow> get_sub s p = Some sub \<Longrightarrow> tx sub' = tx sub \<and> rx sub' = rx sub"
    "get_sub s' p = Some sub' \<Longrightarrow> get_sub s p = None \<Longrightarrow> fresh_sub np s p sub'"
    by simp_all
qed

lemma extendsI:
  assumes "fresh s' = fresh s + length np" "closed s' = closed s" "patterns s' = patterns s" "distinct np"
    and "\<And>p. p \<in> set np \<Longrightarrow> get_sub s p = None \<and> get_sub s' p \<noteq> None"
    and "\<And>p sub' sub. get_sub s' p = Some sub' \<Longrightarrow> get_sub s p = Some sub \<Longrightarrow> tx sub' = tx sub \<and> rx sub' = rx sub"
    and "\<And>p sub'. get_sub s' p = Some sub' \<Longrightarrow> get_sub s p = None \<Longrightarrow> fresh_sub np s p sub'"
  shows "extends np s s'"
  unfolding extends_def using assms by (simp split: option.split)

lemma fresh_sub_same: "tx sub' = tx sub \<Longrightarrow> rx sub' = rx sub \<Longrightarrow> fresh_sub np s p sub' = fresh_sub np s p sub"
  by (simp add: fresh_sub_def)

lemma extends_refl: "extends [] s s"
  by (auto simp: extends_def split: option.splits)

lemma extends_trans:
  assumes a: "extends np s s1" and b: "extends nq s1 s2"
    and mono: "\<And>p. p \<in> set np \<Longrightarrow> get_sub s2 p \<noteq> None"
    and old: "\<And>p. get_sub s1 p = None \<Longrightarrow> get_sub s2 p \<noteq> None \<Longrightarrow> get_sub s p = None"
  shows "extends (np @ nq) s s2"
proof -
  note A = extendsD [OF a] and B = extendsD [OF b]
  have dec: "declared_at s1 p = declared_at s p" for p using A(3) by (rule declared_at_patterns)
  have left: "fresh_sub (np @ nq) s p sub'" if "fresh_sub np s p sub" "tx sub' = tx sub" "rx sub' = rx sub" for p sub sub'
  proof -
    from that(1) show ?thesis
    proof (cases rule: fresh_subE)
      case (new i)
      then show ?thesis unfolding fresh_sub_def that(2,3) by (intro disjI1 exI [of _ i]) (simp add: nth_append)
    qed (simp add: fresh_sub_def that)
  qed
  have right: "fresh_sub (np @ nq) s p sub" if "fresh_sub nq s1 p sub" for p sub
  proof -
    from that show ?thesis
    proof (cases rule: fresh_subE)
      case (new i)
      then show ?thesis
        unfolding fresh_sub_def by (intro disjI1 exI [of _ "length np + i"]) (simp add: nth_append A(1,2) add.assoc)
    qed (simp add: fresh_sub_def dec)
  qed
  have new: "fresh_sub (np @ nq) s p sub" if "get_sub s2 p = Some sub" "get_sub s p = None" for p sub
  proof (cases "get_sub s1 p")
    case None
    from right [OF B(8) [OF that(1) None]] show ?thesis .
  next
    case (Some sub1)
    from left [OF A(8) [OF Some that(2)]] B(7) [OF that(1) Some] show ?thesis by simp
  qed
  have dist: "distinct (np @ nq)" using A(4) B(4) by (auto dest: A(6) B(5))
  have kept: "tx sub2 = tx sub \<and> rx sub2 = rx sub"
    if "get_sub s2 p = Some sub2" "get_sub s p = Some sub" for p sub2 sub
  proof (cases "get_sub s1 p")
    case None
    with old [of p] that show ?thesis by simp
  next
    case (Some sub1)
    with A(7) [OF Some that(2)] B(7) [OF that(1) Some] show ?thesis by simp
  qed
  have "get_sub s p = None \<and> get_sub s2 p \<noteq> None" if "p \<in> set (np @ nq)" for p
    using that old [of p] A(5) [of p] B(5,6) [of p] mono [of p] by auto
  then show ?thesis
    by (intro extendsI kept new dist) (simp_all add: A(1,2,3) B(1,2,3))
qed

lemma extends_cong:
  "extends np s s' \<Longrightarrow> get_sub s'' = get_sub s' \<Longrightarrow> fresh s'' = fresh s' \<Longrightarrow> closed s'' = closed s' \<Longrightarrow>
    patterns s'' = patterns s' \<Longrightarrow> extends np s s''"
  by (simp add: extends_def)

lemma extends_put:
  assumes "extends np s s'" and "get_sub s' q = Some e" and "tx e' = tx e" and "rx e' = rx e"
  shows "extends np s (put_sub q e' s')"
proof (rule extendsI)
  note D = extendsD [OF assms(1)]
  show "fresh (put_sub q e' s') = fresh s + length np" "closed (put_sub q e' s') = closed s"
    "patterns (put_sub q e' s') = patterns s" "distinct np"
    using D(1-4) by simp_all
  show "get_sub s p = None \<and> get_sub (put_sub q e' s') p \<noteq> None" if "p \<in> set np" for p
    using D(5,6) [OF that] by simp
  show "tx sub' = tx sub \<and> rx sub' = rx sub"
    if "get_sub (put_sub q e' s') p = Some sub'" "get_sub s p = Some sub" for p sub' sub
    using that D(7) [of p _ sub] assms(2-4) by (cases "p = q") auto
  show "fresh_sub np s p sub'" if "get_sub (put_sub q e' s') p = Some sub'" "get_sub s p = None" for p sub'
    using that D(8) [of p] assms(2) fresh_sub_same [OF assms(3,4)] by (cases "p = q") auto
qed

lemma subscribe_extends:
  assumes dec: "declares P s" and res: "resolve s q = Some (n, pat)"
  shows "\<exists>np. extends np s (fst (subscribe s q pat))"
proof (cases "get_sub s q")
  case (Some e)
  then show ?thesis using extends_refl by (auto simp: subscribe_def)
next
  case None
  from dec res have n: "map_of (patterns s) pat = Some n" by (simp add: resolve_iff)
  have da: "declared_at s q = declared n" using res by (simp add: declared_at_def)
  show ?thesis
  proof (cases "declared n")
    case True
    with None n have "extends [q] s (fst (subscribe s q pat))"
      by (auto simp: extends_def fresh_sub_def subscribe_def sub_new_def sub_default_def Let_def get_sub_def
          put_sub_def update_conv' split: option.splits)
    then show ?thesis ..
  next
    case False
    with None n da have "extends [] s (fst (subscribe s q pat))"
      by (auto simp: extends_def fresh_sub_def subscribe_def sub_new_def sub_default_def Let_def get_sub_def
          put_sub_def update_conv' split: option.splits)
    then show ?thesis ..
  qed
qed

text \<open>\<open>grows\<close> is \<open>extends\<close> by some paths, with nothing removed.\<close>

definition grows :: "subscriptions \<Rightarrow> subscriptions \<Rightarrow> bool" where
  "grows s s' \<longleftrightarrow> (\<exists>np. extends np s s') \<and> (\<forall>p. get_sub s p \<noteq> None \<longrightarrow> get_sub s' p \<noteq> None)"

lemma grows_refl [simp]: "grows s s"
  using extends_refl by (auto simp: grows_def)

lemma grows_trans:
  assumes "grows s s1" and "grows s1 s2"
  shows "grows s s2"
proof -
  obtain np nq where a: "extends np s s1" and b: "extends nq s1 s2" using assms by (auto simp: grows_def)
  have mono: "get_sub s p \<noteq> None \<Longrightarrow> get_sub s1 p \<noteq> None" "get_sub s1 p \<noteq> None \<Longrightarrow> get_sub s2 p \<noteq> None" for p
    using assms unfolding grows_def by blast+
  have "extends (np @ nq) s s2"
    by (rule extends_trans [OF a b]) (use extendsD(6) [OF a] mono in \<open>blast+\<close>)
  then show ?thesis using mono unfolding grows_def by blast
qed

lemma grows_put:
  assumes "grows s s'" and "get_sub s' q = Some e" and "tx e' = tx e" and "rx e' = rx e"
  shows "grows s (put_sub q e' s')"
  using assms extends_put unfolding grows_def by fastforce

lemma grows_cong:
  "grows s s' \<Longrightarrow> get_sub s'' = get_sub s' \<Longrightarrow> fresh s'' = fresh s' \<Longrightarrow> closed s'' = closed s' \<Longrightarrow>
    patterns s'' = patterns s' \<Longrightarrow> grows s s''"
  using extends_cong unfolding grows_def by metis

lemma subscribe_grows:
  assumes "declares P s" and "resolve s q = Some (n, pat)"
  shows "grows s (fst (subscribe s q pat))"
  using subscribe_extends [OF assms] by (auto simp: grows_def subscribe_facts)

section \<open>Claiming\<close>

definition count :: "subscriptions \<Rightarrow> path \<Rightarrow> nat" where
  "count s q = (case get_sub s q of None \<Rightarrow> 0 | Some e \<Rightarrow> handles e)"

lemma claimed_count: "claimed s q \<longleftrightarrow> count s q > 0"
  by (simp add: claimed_def count_def split: option.split)

lemma resolve_element:
  assumes "declares P s" and "resolve s path = Some (n, pat)"
  obtains n' where "resolve s (take k path) = Some (n', take k pat)"
  using resolve_take [OF assms] by blast

lemma claim_grows:
  assumes dec: "declares P s" and res: "resolve s path = Some (n, pat)"
  shows "grows s (claim_element path pat k s)"
    and "count (claim_element path pat k s) q = count s q + of_bool (q = take (Suc k) path)"
proof -
  let ?q = "take (Suc k) path" and ?p = "take (Suc k) pat"
  obtain s1 e where sub: "subscribe s ?q ?p = (s1, e)" by fastforce
  note F = subscribe_facts [where s = s and q = ?q and p = ?p, unfolded sub fst_conv snd_conv]
  obtain n' where "resolve s ?q = Some (n', ?p)" using dec res by (rule resolve_element)
  from subscribe_grows [OF dec this] have "grows s s1" by (simp add: sub)
  then have "grows s (drop_permits [e] s1)" by (rule grows_cong) (auto intro!: ext)
  then have "grows s (put_sub ?q (e\<lparr>handles := handles e + 1, permit := False\<rparr>) (drop_permits [e] s1))"
    by (rule grows_put [where e = e]) (simp_all add: F(1))
  then show "grows s (claim_element path pat k s)"
    by (rule grows_cong) (auto intro!: ext simp: claim_element_def sub Let_def get_sub_def)
  have "handles e = count s ?q" using F(6,7) by (cases "get_sub s ?q") (simp_all add: count_def)
  then show "count (claim_element path pat k s) q = count s q + of_bool (q = take (Suc k) path)"
    by (simp add: count_def claim_facts claimed_sub_def sub)
qed

lemma claims_grow:
  assumes "declares P s" and "resolve s path = Some (n, pat)"
  shows "grows s (fold (claim_element path pat) ks s) \<and>
    (\<forall>q. count (fold (claim_element path pat) ks s) q = count s q + length (filter (\<lambda>k. q = take (Suc k) path) ks))"
  using assms
proof (induction ks arbitrary: s)
  case (Cons k ks)
  note C = claim_grows [OF Cons.prems, of k]
  have "declares P (claim_element path pat k s)" using Cons.prems(1) by (rule declares_patterns) (simp add: claim_facts)
  from Cons.IH [OF this] Cons.prems(2) C show ?case by (auto intro: grows_trans)
qed simp

lemma count_elements:
  assumes "declares P s" and "resolve s path = Some (n, pat)"
  shows "length (filter (\<lambda>k. q = take (Suc k) path) (elements pat)) = of_bool (is_element s q \<and> prefix q path)"
proof (cases "is_element s q \<and> prefix q path")
  case True
  then obtain k where k: "k \<in> set (elements pat)" "q = take (Suc k) path"
    using element_prefix [OF assms, of q] by metis
  have "(q = take (Suc j) path) = (j = k)" if "j \<in> set (elements pat)" for j
  proof -
    have "j < length path" "k < length path" using that k(1) elements_iff [OF assms] by auto
    then have "take (Suc k) path = take (Suc j) path \<longleftrightarrow> j = k"
      by (metis Suc_leI length_take min.absorb2 nat.inject)
    then show ?thesis by (simp add: k(2))
  qed
  then have "filter (\<lambda>k. q = take (Suc k) path) (elements pat) = filter (\<lambda>j. j = k) (elements pat)"
    by (intro filter_cong) auto
  moreover have "distinct (elements pat)" by (simp add: elements_def)
  then have "length (filter (\<lambda>j. j = k) (elements pat)) = 1"
    using k(1) by (induction "elements pat" rule: rev_induct) (auto simp: distinct_length_filter Collect_conv_if)
  ultimately show ?thesis using True by simp
next
  case False
  have "q \<noteq> take (Suc k) path" if "k \<in> set (elements pat)" for k
    using False element_parts(1) [OF assms that] take_is_prefix by blast
  with False show ?thesis by (simp add: filter_empty_conv)
qed

lemma claim_all_grows:
  assumes "declares P s" and "resolve s path = Some (n, pat)"
  shows "grows s (claim_all path pat s)"
    and "count (claim_all path pat s) q = count s q + of_bool (is_element s q \<and> prefix q path)"
    and "patterns (claim_all path pat s) = patterns s"
proof -
  show "grows s (claim_all path pat s)"
    "count (claim_all path pat s) q = count s q + of_bool (is_element s q \<and> prefix q path)"
    using claims_grow [OF assms, of "elements pat"] count_elements [OF assms, of q] by (simp_all add: claim_all_def)
  then show "patterns (claim_all path pat s) = patterns s" by (auto simp: grows_def dest: extendsD(3))
qed

lemma take_rx_grows:
  assumes dec: "declares P s" and tk: "take_rx s path = (s', Some r)"
  obtains n pat s1 where "resolve s path = Some (n, pat)" "grows s s1"
    "\<And>q. count s' q = count s q + of_bool (is_element s q \<and> prefix q path)" "patterns s' = patterns s"
    "\<not> blocked s path n pat" "next_index s' = next_index (claim_all path pat s)"
    "if declared n then \<exists>sub. get_sub s1 path = Some sub \<and> s' = put_sub path (sub\<lparr>rx := None\<rparr>) s1 \<and> r = rx sub
     else s' = s1 \<and> r = None"
    "\<And>q. get_sub s q = None \<Longrightarrow> get_sub s1 q \<noteq> None \<Longrightarrow> prefix q path"
proof -
  obtain n pat where res: "resolve s path = Some (n, pat)" and nb: "\<not> blocked s path n pat"
    using tk take_rx_eq by (cases "resolve s path") (auto simp: take_rx_def split: if_splits)
  let ?s = "claim_all path pat s"
  note C = claim_all_grows [OF dec res]
  have dec': "declares P ?s" using dec C(3) by (rule declares_patterns)
  have res': "resolve ?s path = Some (n, pat)" using resolve_patterns [OF C(3)] res by simp
  have "get_sub (fold (claim_element path pat) ks t) q = get_sub t q" if "\<not> prefix q path" for ks t q
    using that by (induction ks arbitrary: t) (auto simp: claim_facts take_is_prefix)
  then have only: "get_sub ?s q = get_sub s q" if "\<not> prefix q path" for q
    using that by (simp add: claim_all_def)
  show ?thesis
  proof (cases "declared n")
    case False
    with tk nb have "s' = ?s" "r = None" by (simp_all add: take_rx_eq [OF res])
    with that [OF res C(1)] C nb False only show ?thesis by fastforce
  next
    case True
    obtain s1 sub where sb: "subscribe ?s path pat = (s1, sub)" by fastforce
    note F = subscribe_facts [where s = ?s and q = path and p = pat, unfolded sb fst_conv snd_conv]
    from True tk nb sb have s': "s' = put_sub path (sub\<lparr>rx := None\<rparr>) s1" "r = rx sub" by (simp_all add: take_rx_eq [OF res])
    have g: "grows s s1" using subscribe_grows [OF dec' res'] C(1) by (auto simp: sb intro: grows_trans)
    have "handles sub = count ?s path" using F(6,7) by (cases "get_sub ?s path") (simp_all add: count_def)
    then have cnt: "count s' q = count s q + of_bool (is_element s q \<and> prefix q path)" for q
      using C(2) [of q] by (auto simp: count_def s' F(1))
    have nw: "prefix q path" if "get_sub s q = None" "get_sub s1 q \<noteq> None" for q
      by (rule ccontr) (use that only [of q] F(1) [of q] in \<open>auto split: if_splits\<close>)
    show ?thesis
      by (rule that [OF res g cnt _ nb]) (use True F(1) F(2,3) C(3) s' nw in auto)
  qed
qed

section \<open>Routing\<close>

lemma route_elements_grow:
  assumes "declares P s" and "resolve s path = Some (n, pat)"
    and "route_elements path pat ks s pm = (s', pm', r)"
  shows "grows s s' \<and> count s' = count s \<and> patterns s' = patterns s"
  using assms
proof (induction ks arbitrary: s pm)
  case (Cons k ks)
  let ?q = "take (Suc k) path" and ?p = "take (Suc k) pat"
  consider (skip) "get_sub s ?q \<noteq> None"
    | (stop) "get_sub s ?q = None" "path ! k < next_of s (take k path) \<or> \<not> pm"
    | (sub) "get_sub s ?q = None" "\<not> path ! k < next_of s (take k path)" "pm" by blast
  then show ?case
  proof cases
    case skip
    with Cons.prems Cons.IH [of s pm] show ?thesis by auto
  next
    case stop
    with Cons.prems(3) show ?thesis by (auto split: if_splits)
  next
    case sub
    obtain s1 e where sb: "subscribe s ?q ?p = (s1, e)" by fastforce
    note F = subscribe_facts [where s = s and q = ?q and p = ?p, unfolded sb fst_conv snd_conv]
    obtain n' where "resolve s ?q = Some (n', ?p)" using Cons.prems(1,2) by (rule resolve_element)
    from subscribe_grows [OF Cons.prems(1) this] have "grows s s1" by (simp add: sb)
    then have g: "grows s (put_sub ?q (e\<lparr>permit := True\<rparr>) s1)"
      by (rule grows_put [where e = e]) (simp_all add: F(1))
    have p: "patterns (put_sub ?q (e\<lparr>permit := True\<rparr>) s1) = patterns s" using F(2) by simp
    have c: "count (put_sub ?q (e\<lparr>permit := True\<rparr>) s1) = count s"
      using F(1) F(6) [OF sub(1)] sub(1) by (auto simp: count_def)
    from Cons.IH [OF declares_patterns [OF Cons.prems(1) p], of False] sub Cons.prems(2,3) sb resolve_patterns [OF p]
    have "grows (put_sub ?q (e\<lparr>permit := True\<rparr>) s1) s' \<and> count s' = count (put_sub ?q (e\<lparr>permit := True\<rparr>) s1) \<and>
      patterns s' = patterns (put_sub ?q (e\<lparr>permit := True\<rparr>) s1)" by simp
    with g c p show ?thesis by (auto intro: grows_trans)
  qed
qed simp

lemma route_grows:
  assumes dec: "declares P s" and rt: "route s path pm = (s', pm', r)"
  shows "grows s s'" and "count s' = count s"
proof -
  from rt have "grows s s' \<and> count s' = count s"
  proof (cases rule: route_cases)
    case (stop n pat r1)
    then show ?thesis using route_elements_grow [OF dec stop(1,2)] by blast
  next
    case (finish n pat s1)
    from route_elements_grow [OF dec finish(1,3)]
    have F: "grows s s1" "count s1 = count s" "patterns s1 = patterns s" by blast+
    note S = subscribe_facts [where s = s1 and q = path and p = pat]
    have "grows s1 (fst (subscribe s1 path pat))"
      using subscribe_grows [OF declares_patterns [OF dec F(3)]] resolve_patterns [OF F(3)] finish(1) by simp
    moreover have "count (fst (subscribe s1 path pat)) q = count s1 q" for q
      using S(1) [of q] S(6,7) by (cases "get_sub s1 path") (auto simp: count_def)
    ultimately show ?thesis using F finish(4) by (auto intro: grows_trans)
  qed simp
  then show "grows s s'" "count s' = count s" by blast+
qed

lemma route_open:
  assumes "route s path pm = (s', pm', RouteTx slot)"
  shows "\<exists>sub. get_sub s' path = Some sub \<and> tx sub = Some slot"
proof -
  have "route_tx t path = RouteTx slot \<Longrightarrow> \<exists>sub. get_sub t path = Some sub \<and> tx sub = Some slot" for t
    by (auto simp: route_tx_def get_tx_def split: option.splits)
  moreover have "snd (snd (route_elements path pat ks t pm)) \<noteq> Some (RouteTx slot)" for pat ks t pm
    by (induction path pat ks t pm rule: route_elements.induct) (auto simp: Let_def split: prod.splits)
  then have "route_elements path pat ks t pm \<noteq> (u, v, Some (RouteTx slot))" for pat ks t pm u v
    by (metis snd_conv)
  ultimately show ?thesis
    using assms by (auto simp: route_def Let_def split: if_splits option.splits prod.splits)
qed

section \<open>Handles\<close>

lemma indexed_elements:
  assumes "declares P s" and "resolve s path = Some (n, pat)" and "indexed s path"
  shows "\<forall>k \<in> set (elements pat). claimed s (take (Suc k) path)"
  using assms(3) element_parts(1) [OF assms(1,2)] take_is_prefix by (auto simp: indexed_def)

lemma retain_elements_count:
  assumes "\<forall>k \<in> set ks. get_sub s (take (Suc k) path) \<noteq> None"
  shows "count (fold (retain_element path) ks s) q = count s q + length (filter (\<lambda>k. q = take (Suc k) path) ks) \<and>
    grows s (fold (retain_element path) ks s)"
  using assms
proof (induction ks arbitrary: s)
  case (Cons k ks)
  let ?q = "take (Suc k) path"
  obtain e where e: "get_sub s ?q = Some e" using Cons.prems by auto
  let ?s = "put_sub ?q (e\<lparr>handles := handles e + 1\<rparr>) s"
  have "retain_element path k s = ?s" using e by (simp add: retain_element_def)
  moreover have "grows s ?s" by (rule grows_put [OF grows_refl e]) simp_all
  moreover have "count ?s q = count s q + of_bool (q = ?q)" using e by (simp add: count_def)
  ultimately show ?case using Cons.IH [of ?s] Cons.prems by (auto intro: grows_trans)
qed simp

lemma retain_grows:
  assumes dec: "declares P s" and res: "resolve s path \<noteq> None" and idx: "indexed s path"
  shows "grows s (retain s path)"
    and "count (retain s path) q = count s q + of_bool (is_element s q \<and> prefix q path)"
proof -
  obtain n pat where r: "resolve s path = Some (n, pat)" using res by auto
  have "\<forall>k \<in> set (elements pat). get_sub s (take (Suc k) path) \<noteq> None"
    using indexed_elements [OF dec r idx] by (auto simp: claimed_def split: option.splits)
  from retain_elements_count [OF this] count_elements [OF dec r]
  show "grows s (retain s path)"
    "count (retain s path) q = count s q + of_bool (is_element s q \<and> prefix q path)"
    using r by (simp_all add: retain_def)
qed

text \<open>
  Releasing a path: what is left keeps its channels and has one handle less where the path lies in it,
  and what is removed lies in an element whose last handle it was.
\<close>

lemma release_elements_shape:
  assumes "subs_inv P s" and "\<forall>k \<in> set ks. claimed s (take (Suc k) path)"
    and "\<forall>k \<in> set ks. k < length path \<and> is_element s (take (Suc k) path)" and "sorted ks" and "distinct ks"
    and "release_elements pd path ks s = (s', b)"
  shows "fresh s' = fresh s \<and> closed s' = closed s \<and> patterns s' = patterns s \<and>
    (\<forall>q e'. get_sub s' q = Some e' \<longrightarrow> (\<exists>e. get_sub s q = Some e \<and> tx e' = tx e \<and> rx e' = rx e \<and>
      handles e = handles e' + length (filter (\<lambda>k. q = take (Suc k) path) ks))) \<and>
    (\<forall>q. get_sub s q \<noteq> None \<and> get_sub s' q = None \<longrightarrow>
      (\<exists>k \<in> set ks. prefix (take (Suc k) path) q \<and> count s (take (Suc k) path) = 1 \<and> gone s' (take (Suc k) path))) \<and>
    (\<forall>q. claimed s q \<and> get_sub s' q \<noteq> None \<longrightarrow> claimed s' q)"
  using assms
proof (induction ks arbitrary: s)
  case (Cons k ks)
  let ?q = "take (Suc k) path"
  obtain e where e: "get_sub s ?q = Some e" "handles e > 0"
    using Cons.prems(2) by (auto simp: claimed_def split: option.splits)
  let ?e = "e\<lparr>handles := handles e - 1\<rparr>" and ?s = "put_sub ?q (e\<lparr>handles := handles e - 1\<rparr>) s"
  have elem: "is_element s ?q" "k < length path" using Cons.prems(3) by simp_all
  have later: "take (Suc j) path \<noteq> ?q \<and> prefix ?q (take (Suc j) path)" if "j \<in> set ks" for j
  proof -
    have kj: "k < j" "j < length path" using that Cons.prems(3-5) by (auto simp: order_le_less)
    then have "length (take (Suc j) path) \<noteq> length ?q" by simp
    moreover have "?q = take (Suc k) (take (Suc j) path)" using kj by simp
    then have "prefix ?q (take (Suc j) path)" by (metis take_is_prefix)
    ultimately show ?thesis by metis
  qed
  show ?case
  proof (cases "handles e - 1 = 0")
    case True
    then have s': "s' = fst (remove_sub pd ?q ?s)" using Cons.prems(6) e by (simp add: Let_def)
    have "last ?q < next_of s (butlast ?q)" using subs_invD(7) [OF Cons.prems(1) e(1) elem(1)] e(2) by simp
    moreover have "\<not> prefix ?q (butlast ?q)" using elem(2) prefix_length_le [of ?q "butlast ?q"] by auto
    ultimately have g: "gone s' ?q" using elem(1) by (simp add: gone_def s')
    have "filter (\<lambda>k. q = take (Suc k) path) (k # ks) = []" if "\<not> prefix ?q q" for q
      using that later by (auto simp: filter_empty_conv)
    moreover have "count s ?q = 1" using True e by (simp add: count_def)
    moreover have "claimed s' q" if "claimed s q" "get_sub s' q \<noteq> None" for q
      using that e by (auto simp: claimed_def s' split: if_splits)
    ultimately show ?thesis using g by (auto simp: s' split: if_splits)
  next
    case False
    have "subs_inv P ?s" using Cons.prems(1) e False by (intro put_same_inv [of P s ?q e]) simp_all
    moreover have "\<forall>k \<in> set ks. claimed ?s (take (Suc k) path)"
      using Cons.prems(2) later by (auto simp: claimed_def)
    moreover have "release_elements pd path ks ?s = (s', b)" using Cons.prems(6) e False by (simp add: Let_def)
    ultimately have IH: "fresh s' = fresh ?s" "closed s' = closed ?s" "patterns s' = patterns ?s"
      "\<And>q e'. get_sub s' q = Some e' \<Longrightarrow> \<exists>f. get_sub ?s q = Some f \<and> tx e' = tx f \<and> rx e' = rx f \<and>
        handles f = handles e' + length (filter (\<lambda>k. q = take (Suc k) path) ks)"
      "\<And>q. get_sub ?s q \<noteq> None \<Longrightarrow> get_sub s' q = None \<Longrightarrow>
        \<exists>k \<in> set ks. prefix (take (Suc k) path) q \<and> count ?s (take (Suc k) path) = 1 \<and> gone s' (take (Suc k) path)"
      "\<And>q. claimed ?s q \<Longrightarrow> get_sub s' q \<noteq> None \<Longrightarrow> claimed s' q"
      using Cons.IH [of ?s] Cons.prems(3-5) by auto
    have "\<exists>f. get_sub s q = Some f \<and> tx e' = tx f \<and> rx e' = rx f \<and>
        handles f = handles e' + length (filter (\<lambda>k. q = take (Suc k) path) (k # ks))" if q: "get_sub s' q = Some e'" for q e'
    proof (cases "q = ?q")
      case True
      from IH(4) [OF q] True e have "tx e' = tx e \<and> rx e' = rx e \<and>
        handles e - 1 = handles e' + length (filter (\<lambda>k. q = take (Suc k) path) ks)" by simp
      with True e show ?thesis by auto
    next
      case False
      with IH(4) [OF q] show ?thesis by simp
    qed
    moreover have "\<exists>j \<in> set (k # ks). prefix (take (Suc j) path) q \<and> count s (take (Suc j) path) = 1 \<and> gone s' (take (Suc j) path)"
      if removed: "get_sub s q \<noteq> None" "get_sub s' q = None" for q
    proof -
      have "get_sub ?s q \<noteq> None" using removed(1) by simp
      from IH(5) [OF this removed(2)] obtain j where j: "j \<in> set ks" "prefix (take (Suc j) path) q"
        "count ?s (take (Suc j) path) = 1" "gone s' (take (Suc j) path)" by blast
      with later [OF j(1)] show ?thesis by (auto simp: count_def)
    qed
    moreover have "claimed s' q" if "claimed s q" "get_sub s' q \<noteq> None" for q
    proof (rule IH(6) [OF _ that(2)])
      show "claimed ?s q" using that(1) False by (auto simp: claimed_def split: if_splits)
    qed
    ultimately show ?thesis using IH(1-3) by simp
  qed
qed auto

lemma release_shape:
  assumes inv: "subs_inv P s" and res: "resolve s path \<noteq> None" and idx: "indexed s path"
    and rel: "release pd s path = (s', b)"
  shows "fresh s' = fresh s" and "closed s' = closed s" and "patterns s' = patterns s"
    and "get_sub s' q = Some e' \<Longrightarrow> \<exists>e. get_sub s q = Some e \<and> tx e' = tx e \<and> rx e' = rx e \<and>
      handles e = handles e' + of_bool (is_element s q \<and> prefix q path)"
    and "get_sub s q \<noteq> None \<Longrightarrow> get_sub s' q = None \<Longrightarrow>
      \<exists>r. prefix r q \<and> prefix r path \<and> is_element s r \<and> count s r = 1 \<and> gone s' r"
    and "claimed s q \<Longrightarrow> get_sub s' q \<noteq> None \<Longrightarrow> claimed s' q"
proof -
  obtain n pat where r: "resolve s path = Some (n, pat)" using res by auto
  note D = subs_invD(1) [OF inv]
  have "sorted (elements pat)" "distinct (elements pat)" by (simp_all add: elements_def sorted_wrt_filter)
  note S = release_elements_shape [OF inv indexed_elements [OF D r idx] _ this, of pd s' b]
  have *: "\<forall>k \<in> set (elements pat). k < length path \<and> is_element s (take (Suc k) path)"
    using elements_iff [OF D r] by blast
  have "release_elements pd path (elements pat) s = (s', b)" using rel r by (simp add: release_def)
  note S = S [OF * this]
  show "fresh s' = fresh s" and "closed s' = closed s" and "patterns s' = patterns s" using S by blast+
  show "get_sub s' q = Some e' \<Longrightarrow> \<exists>e. get_sub s q = Some e \<and> tx e' = tx e \<and> rx e' = rx e \<and>
      handles e = handles e' + of_bool (is_element s q \<and> prefix q path)"
    using S count_elements [OF D r, of q] by metis
  show "get_sub s q \<noteq> None \<Longrightarrow> get_sub s' q = None \<Longrightarrow>
      \<exists>r. prefix r q \<and> prefix r path \<and> is_element s r \<and> count s r = 1 \<and> gone s' r"
    using S * take_is_prefix by metis
  show "claimed s q \<Longrightarrow> get_sub s' q \<noteq> None \<Longrightarrow> claimed s' q" using S by blast
qed

section \<open>Skipping\<close>

text \<open>What skipping removes at position \<open>k\<close> of \<open>path\<close>: an element before it that was never indexed.\<close>

definition passed :: "subscriptions \<Rightarrow> path \<Rightarrow> nat \<Rightarrow> path \<Rightarrow> bool" where
  "passed s path k r \<longleftrightarrow>
    (\<exists>i. r = take k path @ [i] \<and> i < path ! k) \<and> next_of s (take k path) < path ! k \<and>
    is_element s r \<and> get_sub s r \<noteq> None \<and> \<not> claimed s r"

lemma passed_not_prefix:
  assumes "passed s path k r" and "k < length path"
  shows "\<not> prefix r path"
proof
  assume "prefix r path"
  from assms(1) obtain i where i: "r = take k path @ [i]" "i < path ! k" by (auto simp: passed_def)
  obtain ys where "path = take k path @ [i] @ ys" using \<open>prefix r path\<close> i(1) by (auto simp: prefix_def)
  then have "path ! k = i" using assms(2) by (metis append_Cons length_take min.absorb4 nth_append_length)
  with i(2) show False by simp
qed

lemma remove_all_fields:
  "fresh (fst (remove_all pd ps (s, b))) = fresh s" "closed (fst (remove_all pd ps (s, b))) = closed s"
  by (induction ps arbitrary: s b) simp_all

lemma skip_element_shape:
  assumes inv: "subs_inv P s" and el: "is_element s (take (Suc k) path)" "k < length path"
    and sk: "skip_element pd path k (s, b) = (s', b')"
  shows "fresh s' = fresh s \<and> closed s' = closed s \<and>
    (\<forall>j \<le> length path. next_of s' (take j path) = next_of s (take j path)) \<and>
    (\<forall>q. get_sub s' q = (if \<exists>r. prefix r q \<and> passed s path k r then None else get_sub s q))"
proof (cases "next_of s (take k path) \<ge> path ! k")
  case True
  then have "\<not> passed s path k r" for r by (simp add: passed_def)
  moreover have "s' = s" using sk True by (simp add: skip_element_eq)
  ultimately show ?thesis by simp
next
  case False
  define L where "L = map fst (filter (\<lambda>(p, sub). length p = k + 1 \<and> take k p = take k path \<and>
    next_of s (take k path) \<le> p ! k \<and> p ! k < path ! k \<and> handles sub = 0) (subs s))"
  have s': "s' = fst (remove_all pd L (s, b))" using sk False by (simp add: skip_element_eq L_def)
  have L: "r \<in> set L \<longleftrightarrow> passed s path k r" for r
  proof
    assume "r \<in> set L"
    then obtain e where p: "length r = Suc k" "take k r = take k path" "(r, e) \<in> set (subs s)" "handles e = 0"
      "r ! k < path ! k"
      unfolding L_def by auto
    then have r: "r = take k path @ [r ! k]" by (metis lessI take_Suc_conv_app_nth take_all order_refl)
    moreover have "is_element s (take k path @ [path ! k])" using el by (simp add: take_Suc_conv_app_nth)
    ultimately have "is_element s r" using element_sibling [OF subs_invD(1) [OF inv]] by metis
    moreover have "get_sub s r = Some e" using p(3) subs_invD(2) [OF inv] by (simp add: get_sub_def)
    ultimately show "passed s path k r" using p r False by (auto simp: passed_def claimed_def)
  next
    assume "passed s path k r"
    then obtain i e where r: "r = take k path @ [i]" "i < path ! k" "is_element s r" "get_sub s r = Some e" "handles e = 0"
      by (auto simp: passed_def claimed_def)
    have nth: "r ! k = i" "length r = Suc k" "take k r = take k path"
      using r(1) el(2) by (simp_all add: nth_append)
    have "next_of s (take k path) \<le> i"
      using subs_invD(7) [OF inv r(4,3)] r(1,5) by simp
    then show "r \<in> set L"
      unfolding L_def using r nth by (force simp: get_sub_def dest: map_of_SomeD)
  qed
  have "\<not> (\<exists>p \<in> set L. prefix p (take j path))" for j
    using L passed_not_prefix [OF _ el(2)] by (meson prefix_order.trans take_is_prefix)
  then show ?thesis using L by (auto simp: s' remove_all_facts remove_all_fields)
qed

lemma skip_shape:
  assumes inv: "subs_inv P s" and pm: "permit_inv h s" and res: "resolve s path = Some (n, pat)"
    and sk: "skip pd s path = (s', b)"
  shows "fresh s' = fresh s" and "closed s' = closed s"
    and "j \<le> length path \<Longrightarrow> next_of s' (take j path) = next_of s (take j path)"
    and "get_sub s q \<noteq> None \<Longrightarrow> get_sub s' q = None \<Longrightarrow>
      \<exists>k r. k \<in> set (elements pat) \<and> prefix r q \<and> passed s path k r \<and> get_sub s' r = None"
proof -
  have "fresh t' = fresh s \<and> closed t' = closed s \<and>
      (\<forall>j \<le> length path. next_of t' (take j path) = next_of s (take j path)) \<and>
      (\<forall>q. get_sub s q \<noteq> None \<longrightarrow> get_sub t' q = None \<longrightarrow>
        (\<exists>k r. k \<in> set (elements pat) \<and> prefix r q \<and> passed s path k r \<and> get_sub t' r = None))"
    if "subs_inv P t" "permit_inv h t" "patterns t = patterns s" "\<And>q e. get_sub t q = Some e \<Longrightarrow> get_sub s q = Some e"
      "fresh t = fresh s" "closed t = closed s" "\<And>j. j \<le> length path \<Longrightarrow> next_of t (take j path) = next_of s (take j path)"
      "\<And>q. get_sub s q \<noteq> None \<Longrightarrow> get_sub t q = None \<Longrightarrow>
        \<exists>k r. k \<in> set (elements pat) \<and> prefix r q \<and> passed s path k r \<and> get_sub t r = None"
      "set ks \<subseteq> set (elements pat)" "fold (skip_element pd path) ks (t, c) = (t', c')" for ks t t' c c'
    using that
  proof (induction ks arbitrary: t c)
    case Nil
    then show ?case by simp
  next
    case (Cons k ks)
    obtain t1 c1 where st: "skip_element pd path k (t, c) = (t1, c1)" by fastforce
    note F = skip_element_facts [OF Cons.prems(1,2), where pd = pd and path = path and k = k and b = c, unfolded st fst_conv]
    have k: "k \<in> set (elements pat)" using Cons.prems(9) by simp
    have el: "is_element t q = is_element s q" for q by (rule is_element_patterns [OF Cons.prems(3)])
    have E: "is_element t (take (Suc k) path)" "k < length path"
      using el element_parts(1,2) [OF subs_invD(1) [OF inv] res k] by simp_all
    note S = skip_element_shape [OF Cons.prems(1) E st]
    have fr: "fresh t1 = fresh t" "closed t1 = closed t"
      and nx: "\<And>j. j \<le> length path \<Longrightarrow> next_of t1 (take j path) = next_of t (take j path)"
      and gs: "\<And>q. get_sub t1 q = (if \<exists>r. prefix r q \<and> passed t path k r then None else get_sub t q)"
      using S by blast+
    have ps: "passed s path k r" if "passed t path k r" for r
      using that Cons.prems(7) [of k] Cons.prems(4) [of r] E(2) el
      by (auto simp: passed_def claimed_def)
    have "\<exists>k r. k \<in> set (elements pat) \<and> prefix r q \<and> passed s path k r \<and> get_sub t1 r = None"
      if q: "get_sub s q \<noteq> None" "get_sub t1 q = None" for q
    proof (cases "get_sub t q")
      case None
      from Cons.prems(8) [OF q(1) None] gs show ?thesis by metis
    next
      case (Some e)
      with q(2) gs [of q] obtain r where r: "prefix r q" "passed t path k r" by (auto split: if_splits)
      then have "get_sub t1 r = None" using gs [of r] by auto
      with r ps k show ?thesis by blast
    qed
    moreover have "fold (skip_element pd path) ks (t1, c1) = (t', c')" using Cons.prems(10) st by simp
    moreover have "get_sub s q = Some e" if "get_sub t1 q = Some e" for q e using F(4) [OF that] Cons.prems(4) by blast
    ultimately show ?case
      using Cons.IH [OF F(1,2), of c1] F(3) Cons.prems(3,5,6,7,9) fr nx by simp
  qed
  from this [OF inv pm refl _ refl refl refl, of "elements pat" False s' b] sk res
  show "fresh s' = fresh s" and "closed s' = closed s"
    and "j \<le> length path \<Longrightarrow> next_of s' (take j path) = next_of s (take j path)"
    and "get_sub s q \<noteq> None \<Longrightarrow> get_sub s' q = None \<Longrightarrow>
      \<exists>k r. k \<in> set (elements pat) \<and> prefix r q \<and> passed s path k r \<and> get_sub s' r = None"
    by (simp_all add: skip_def)
qed

section \<open>How the index evolves\<close>

text \<open>
  What every operation that leaves the slots alone does: the paths \<open>np\<close> get new channels, the receivers
  of the paths \<open>T\<close> may be taken, and a subscription goes away only for good.
\<close>

definition same_slots :: "path set \<Rightarrow> path \<Rightarrow> subscription \<Rightarrow> subscription \<Rightarrow> bool" where
  "same_slots T p sub sub' \<longleftrightarrow> tx sub' = tx sub \<and> (rx sub' = rx sub \<or> p \<in> T \<and> rx sub' = None)"

definition evolves :: "path list \<Rightarrow> path set \<Rightarrow> subscriptions \<Rightarrow> subscriptions \<Rightarrow> bool" where
  "evolves np T s s' \<longleftrightarrow>
    fresh s' = fresh s + length np \<and> closed s' = closed s \<and> patterns s' = patterns s \<and> distinct np \<and>
    (\<forall>p \<in> set np. get_sub s p = None \<and> get_sub s' p \<noteq> None) \<and>
    (\<forall>p sub sub'. get_sub s p = Some sub \<and> get_sub s' p = Some sub' \<longrightarrow> same_slots T p sub sub') \<and>
    (\<forall>p sub'. get_sub s p = None \<and> get_sub s' p = Some sub' \<longrightarrow>
      (\<exists>sub. fresh_sub np s p sub \<and> same_slots T p sub sub')) \<and>
    (\<forall>p. get_sub s p \<noteq> None \<longrightarrow> get_sub s' p \<noteq> None \<or> released s' p) \<and>
    (\<forall>p. released s p \<longrightarrow> released s' p)"

lemma evolvesD:
  assumes "evolves np T s s'"
  shows "fresh s' = fresh s + length np" "closed s' = closed s" "patterns s' = patterns s" "distinct np"
    and "p \<in> set np \<Longrightarrow> get_sub s p = None" and "p \<in> set np \<Longrightarrow> get_sub s' p \<noteq> None"
    and "get_sub s p = Some sub \<Longrightarrow> get_sub s' p = Some sub' \<Longrightarrow> same_slots T p sub sub'"
    and "get_sub s p = None \<Longrightarrow> get_sub s' p = Some sub' \<Longrightarrow> \<exists>sub. fresh_sub np s p sub \<and> same_slots T p sub sub'"
    and "get_sub s p \<noteq> None \<Longrightarrow> get_sub s' p \<noteq> None \<or> released s' p" and "released s p \<Longrightarrow> released s' p"
  by (use assms in \<open>simp_all add: evolves_def\<close>)

lemma evolvesI:
  assumes "fresh s' = fresh s + length np" "closed s' = closed s" "patterns s' = patterns s" "distinct np"
    and "\<And>p. p \<in> set np \<Longrightarrow> get_sub s p = None \<and> get_sub s' p \<noteq> None"
    and "\<And>p sub sub'. get_sub s p = Some sub \<Longrightarrow> get_sub s' p = Some sub' \<Longrightarrow> same_slots T p sub sub'"
    and "\<And>p sub'. get_sub s p = None \<Longrightarrow> get_sub s' p = Some sub' \<Longrightarrow> \<exists>sub. fresh_sub np s p sub \<and> same_slots T p sub sub'"
    and "\<And>p. get_sub s p \<noteq> None \<Longrightarrow> get_sub s' p \<noteq> None \<or> released s' p"
    and "\<And>p. released s p \<Longrightarrow> released s' p"
  shows "evolves np T s s'"
  using assms by (simp add: evolves_def)

lemma grows_evolves:
  assumes "grows s s'" and "\<And>p. released s p \<Longrightarrow> released s' p"
  shows "\<exists>np. evolves np {} s s'"
proof -
  obtain np where e: "extends np s s'" and m: "\<And>p. get_sub s p \<noteq> None \<Longrightarrow> get_sub s' p \<noteq> None"
    using assms(1) unfolding grows_def by blast
  note E = extendsD [OF e]
  have "evolves np {} s s'"
  proof (rule evolvesI)
    show "\<exists>sub. fresh_sub np s p sub \<and> same_slots {} p sub sub'" if "get_sub s p = None" "get_sub s' p = Some sub'" for p sub'
      using E(8) [OF that(2,1)] by (auto simp: same_slots_def)
  qed (use E(1-6) E(7) m assms(2) in \<open>auto simp: same_slots_def\<close>)
  then show ?thesis ..
qed

lemma released_gone: "(\<And>q. gone s q \<Longrightarrow> gone s' q) \<Longrightarrow> released s p \<Longrightarrow> released s' p"
  by (auto simp: released_def)

lemma released_absent:
  assumes "subs_inv P s" and "released s p"
  shows "get_sub s p = None"
proof (rule ccontr)
  assume "get_sub s p \<noteq> None"
  then obtain e where "get_sub s p = Some e" by auto
  from assms(2) obtain q where q: "prefix q p" "gone s q" by (auto simp: released_def)
  with subs_invD(4) [OF assms(1) \<open>get_sub s p = Some e\<close> q(1)] show False by (auto simp: gone_def)
qed

text \<open>
  \<open>own\<close> gives the path of every channel made so far: no two channels are of one path, and the path of a
  channel is subscribed to or was released.
\<close>

definition chans_ok :: "(chan \<Rightarrow> path) \<Rightarrow> subscriptions \<Rightarrow> bool" where
  "chans_ok own s \<longleftrightarrow>
    (\<forall>p sub ch. get_sub s p = Some sub \<and> (tx sub = Some (Open ch) \<or> rx sub = Some ch) \<longrightarrow> ch < fresh s \<and> own ch = p) \<and>
    (\<forall>ch < fresh s. get_sub s (own ch) \<noteq> None \<or> released s (own ch)) \<and>
    inj_on own {..<fresh s}"

lemma chans_okD:
  assumes "chans_ok own s"
  shows "get_sub s p = Some sub \<Longrightarrow> tx sub = Some (Open ch) \<or> rx sub = Some ch \<Longrightarrow> ch < fresh s \<and> own ch = p"
    and "ch < fresh s \<Longrightarrow> get_sub s (own ch) \<noteq> None \<or> released s (own ch)"
    and "ch < fresh s \<Longrightarrow> ch' < fresh s \<Longrightarrow> own ch = own ch' \<Longrightarrow> ch = ch'"
  using assms unfolding chans_ok_def by (blast, blast, simp add: inj_on_def)

lemma chans_okI:
  assumes "\<And>p sub ch. get_sub s p = Some sub \<Longrightarrow> tx sub = Some (Open ch) \<or> rx sub = Some ch \<Longrightarrow> ch < fresh s \<and> own ch = p"
    and "\<And>ch. ch < fresh s \<Longrightarrow> get_sub s (own ch) \<noteq> None \<or> released s (own ch)" and "inj_on own {..<fresh s}"
  shows "chans_ok own s"
  using assms unfolding chans_ok_def by blast

definition own_after :: "(chan \<Rightarrow> path) \<Rightarrow> subscriptions \<Rightarrow> path list \<Rightarrow> chan \<Rightarrow> path" where
  "own_after own s np ch = (if ch < fresh s then own ch else np ! (ch - fresh s))"

lemma evolves_chans_ok:
  assumes ok: "chans_ok own s" and ev: "evolves np T s s'" and inv: "subs_inv P s'"
  shows "chans_ok (own_after own s np) s'"
proof (rule chans_okI)
  note C = chans_okD [OF ok] and E = evolvesD [OF ev]
  have new: "ch < fresh s' \<and> own_after own s np ch = p"
    if f: "fresh_sub np s p sub" and ch: "tx sub = Some (Open ch) \<or> rx sub = Some ch" for p sub ch
    using f
  proof (cases rule: fresh_subE)
    case (new i)
    then have "ch = fresh s + i" using ch by (auto split: if_splits)
    with new E(1) show ?thesis by (simp add: own_after_def)
  qed (use ch in auto)
  show "ch < fresh s' \<and> own_after own s np ch = p"
    if that: "get_sub s' p = Some sub" "tx sub = Some (Open ch) \<or> rx sub = Some ch" for p sub ch
  proof (cases "get_sub s p")
    case None
    from E(8) [OF None that(1)] obtain f where f: "fresh_sub np s p f" "same_slots T p f sub" by blast
    with that(2) have "tx f = Some (Open ch) \<or> rx f = Some ch" by (auto simp: same_slots_def)
    from new [OF f(1) this] show ?thesis .
  next
    case (Some f)
    from E(7) [OF Some that(1)] that(2) have "tx f = Some (Open ch) \<or> rx f = Some ch" by (auto simp: same_slots_def)
    from C(1) [OF Some this] E(1) show ?thesis by (simp add: own_after_def)
  qed
  have np: "own_after own s np ch \<in> set np \<and> get_sub s' (own_after own s np ch) \<noteq> None"
    if "\<not> ch < fresh s" "ch < fresh s'" for ch
  proof -
    have "np ! (ch - fresh s) \<in> set np" using that E(1) by simp
    with E(6) that(1) show ?thesis by (simp add: own_after_def)
  qed
  have old: "get_sub s' (own ch) \<noteq> None \<or> released s' (own ch)" if "ch < fresh s" for ch
    using C(2) [OF that] E(9) [of "own ch"] E(10) [of "own ch"] by auto
  show "get_sub s' (own_after own s np ch) \<noteq> None \<or> released s' (own_after own s np ch)" if "ch < fresh s'" for ch
    using old [of ch] np [of ch] that by (cases "ch < fresh s") (simp_all add: own_after_def)
  have mixed: "own ch \<notin> set np" if "ch < fresh s" for ch
  proof
    assume np: "own ch \<in> set np"
    with C(2) [OF that] E(5) have "released s' (own ch)" using E(10) by simp
    with released_absent [OF inv this] E(6) [OF np] show False by simp
  qed
  show "inj_on (own_after own s np) {..<fresh s'}"
  proof (rule inj_onI)
    fix a b
    assume ab: "a \<in> {..<fresh s'}" "b \<in> {..<fresh s'}" "own_after own s np a = own_after own s np b"
    consider "a < fresh s" "b < fresh s" | "a < fresh s" "\<not> b < fresh s" | "\<not> a < fresh s" "b < fresh s"
      | "\<not> a < fresh s" "\<not> b < fresh s" by blast
    then show "a = b"
    proof cases
      case 1
      with ab(3) C(3) show ?thesis by (simp add: own_after_def)
    next
      case 2
      with ab mixed [of a] np [of b] show ?thesis by (simp add: own_after_def)
    next
      case 3
      with ab mixed [of b] np [of a] show ?thesis by (simp add: own_after_def)
    next
      case 4
      with ab have "np ! (a - fresh s) = np ! (b - fresh s)" by (simp add: own_after_def)
      moreover have "a - fresh s < length np" "b - fresh s < length np" using 4 ab E(1) by auto
      ultimately have "a - fresh s = b - fresh s" using E(4) by (simp add: nth_eq_iff_index_eq)
      with 4 show ?thesis by simp
    qed
  qed
qed

text \<open>A receiver is taken only after every element its path lies in was indexed.\<close>

definition untaken :: "subscriptions \<Rightarrow> bool" where
  "untaken s \<longleftrightarrow> (\<forall>p sub. get_sub s p = Some sub \<and> declared_at s p \<and> rx sub = None \<longrightarrow> indexed s p)"

lemma untaken_evolves:
  assumes un: "untaken s" and ev: "evolves np T s s'" and inv: "subs_inv P s'"
    and cl: "\<And>q. claimed s q \<Longrightarrow> get_sub s' q \<noteq> None \<Longrightarrow> claimed s' q"
    and T: "\<And>p. p \<in> T \<Longrightarrow> indexed s' p"
  shows "untaken s'"
  unfolding untaken_def
proof (intro allI impI, elim conjE)
  note E = evolvesD [OF ev]
  fix p sub'
  assume p: "get_sub s' p = Some sub'" "declared_at s' p" "rx sub' = None"
  show "indexed s' p"
  proof (cases "p \<in> T")
    case False
    have dec: "declared_at s p" using p(2) declared_at_patterns [OF E(3)] by simp
    have el: "is_element s' q = is_element s q" for q by (rule is_element_patterns [OF E(3)])
    show ?thesis
    proof (cases "get_sub s p")
      case None
      from E(8) [OF None p(1)] obtain f where f: "fresh_sub np s p f" "rx f = None" using False p(3) by (auto simp: same_slots_def)
      from f(1) dec show ?thesis by (cases rule: fresh_subE) (use f(2) in auto)
    next
      case (Some sub)
      from E(7) [OF Some p(1)] False p(3) have "rx sub = None" by (simp add: same_slots_def)
      with un Some dec have idx: "indexed s p" by (auto simp: untaken_def)
      show ?thesis
        unfolding indexed_def
      proof (intro allI impI, elim conjE)
        fix q
        assume q: "prefix q p" "is_element s' q"
        with idx el have "claimed s q" by (auto simp: indexed_def)
        moreover have "get_sub s' q \<noteq> None" using subs_invD(4) [OF inv p(1) q] by auto
        ultimately show "claimed s' q" by (rule cl)
      qed
    qed
  qed (use T in blast)
qed

lemma route_evolves:
  assumes inv: "subs_inv P s" and pm: "permit_inv (of_bool pm) s" and rt: "route s path pm = (s', pm', r)"
  shows "\<exists>np. evolves np {} s s'"
proof (rule grows_evolves)
  show "grows s s'" using route_grows [OF subs_invD(1) [OF inv] rt] by blast
  show "released s p \<Longrightarrow> released s' p" for p
    by (rule released_gone) (rule gone_route [OF inv pm rt])
qed

lemma retain_evolves:
  assumes inv: "subs_inv P s" and pm: "permit_inv h s" and res: "resolve s path \<noteq> None" and idx: "indexed s path"
  shows "\<exists>np. evolves np {} s (retain s path)"
proof (rule grows_evolves)
  show "grows s (retain s path)" using retain_grows(1) [OF subs_invD(1) [OF inv] res idx] .
  have F: "patterns (retain s path) = patterns s" "next_index (retain s path) = next_index s"
    "\<And>q. get_sub (retain s path) q = None \<longleftrightarrow> get_sub s q = None"
    using retain_facts [OF inv pm idx] by blast+
  have "gone s q \<Longrightarrow> gone (retain s path) q" for q
    using is_element_patterns [OF F(1), of q] F(2,3) by (simp add: gone_def next_of_def)
  then show "released s p \<Longrightarrow> released (retain s path) p" for p by (rule released_gone)
qed

lemma release_evolves:
  assumes inv: "subs_inv P s" and pm: "permit_inv h s" and res: "resolve s path \<noteq> None" and idx: "indexed s path"
    and rel: "release pd s path = (s', b)"
  shows "evolves [] {} s s'"
proof (rule evolvesI)
  note S = release_shape [OF inv res idx rel]
  show "fresh s' = fresh s + length ([] :: path list)" "closed s' = closed s" "patterns s' = patterns s"
    using S(1-3) by simp_all
  show "same_slots {} p sub sub'" if "get_sub s p = Some sub" "get_sub s' p = Some sub'" for p sub sub'
    using S(4) [OF that(2)] that(1) by (auto simp: same_slots_def)
  show "\<exists>sub. fresh_sub [] s p sub \<and> same_slots {} p sub sub'" if "get_sub s p = None" "get_sub s' p = Some sub'" for p sub'
    using S(4) [OF that(2)] that(1) by auto
  show "get_sub s' p \<noteq> None \<or> released s' p" if "get_sub s p \<noteq> None" for p
    using S(5) [OF that] unfolding released_def by (cases "get_sub s' p") auto
  show "released s p \<Longrightarrow> released s' p" for p using release_facts [OF inv pm idx, of pd] rel by auto
qed simp_all

text \<open>An unclaimed element has no claimed element within it.\<close>

lemma claimed_parent:
  assumes inv: "subs_inv P s" and "claimed s q" and "prefix r q" and "is_element s r" and "is_element s q"
  shows "claimed s r"
proof (cases "r = q")
  case False
  obtain e where e: "get_sub s q = Some e" "handles e > 0" using assms(2) by (auto simp: claimed_def split: option.splits)
  have "last q < next_of s (butlast q)" using subs_invD(7) [OF inv e(1) assms(5)] e(2) by simp
  then obtain i where i: "map_of (next_index s) (butlast q) = Some i" by (auto simp: next_of_def split: option.splits)
  have "q \<noteq> []" using False assms(3) by auto
  then have "q = butlast q @ [last q]" by simp
  then have "prefix r (butlast q)" using False assms(3) by (metis prefix_snoc)
  from subs_invD(5) [OF inv i this assms(4)] show ?thesis .
qed (use assms(2) in simp)

section \<open>Indexing\<close>

lemma take_rx_None: "take_rx s path = (s', None) \<Longrightarrow> s' = s"
  by (auto simp: take_rx_def Let_def split: option.splits if_splits prod.splits)

text \<open>Indexing that fails removes nothing.\<close>

lemma skip_blocked:
  assumes inv: "subs_inv P s" and pm: "permit_inv h s" and un: "untaken s"
    and sk: "skip pd s path = (s1, b)" and tk: "take_rx s1 path = (s2, None)"
  shows "get_sub s1 q = get_sub s q"
proof (cases "resolve s path")
  case None
  with sk show ?thesis by (simp add: skip_def)
next
  case (Some a)
  obtain n pat where res: "resolve s path = Some (n, pat)" using Some by (cases a) auto
  note D = subs_invD [OF inv]
  note F = skip_facts [OF inv pm, of pd path, unfolded sk fst_conv]
  note S = skip_shape [OF inv pm res sk]
  have p1: "patterns s1 = patterns s" and sub: "get_sub s1 q = Some e \<Longrightarrow> get_sub s q = Some e" for q e using F by blast+
  have "resolve s1 path = Some (n, pat)" using resolve_patterns [OF p1] res by simp
  from take_rx_eq [OF this] tk have bl: "blocked s1 path n pat" by (auto split: if_splits)
  have no: False if k: "k \<in> set (elements pat)" "passed s path k r" for k r
  proof -
    note K = element_parts [OF D(1) res k(1)]
    have lt: "next_of s (take k path) < path ! k" using k(2) by (simp add: passed_def)
    have uncl: "\<not> claimed s (take (Suc k) path)"
    proof
      assume "claimed s (take (Suc k) path)"
      then obtain e where "get_sub s (take (Suc k) path) = Some e" "handles e > 0"
        by (auto simp: claimed_def split: option.splits)
      with D(7) [of "take (Suc k) path" e] K lt show False by simp
    qed
    from bl consider (gone) j where "j \<in> set (elements pat)" "get_sub s1 (take (Suc j) path) = None"
        "path ! j < next_of s1 (take j path)"
      | (taken) e where "declared n" "get_sub s1 path = Some e" "rx e = None"
      unfolding blocked_def by blast
    then show False
    proof cases
      case gone
      note J = element_parts [OF D(1) res gone(1)]
      have nx: "path ! j < next_of s (take j path)" using gone(3) S(3) [of j] J(2) by simp
      then obtain i where i: "map_of (next_index s) (take j path) = Some i" by (auto simp: next_of_def split: option.splits)
      show False
      proof (cases k j rule: linorder_cases)
        case less
        then have "prefix (take (Suc k) path) (take j path)"
          by (metis Suc_leI min.absorb1 take_is_prefix take_take)
        from D(5) [OF i this K(1)] uncl show False by simp
      next
        case equal
        with nx lt show False by simp
      next
        case greater
        obtain m where m: "r = take k path @ [m]" using k(2) by (auto simp: passed_def)
        have "prefix (take (Suc j) path) r"
          unfolding m using greater by (metis Suc_leI min.absorb1 prefix_prefix take_is_prefix take_take)
        moreover obtain e where "get_sub s r = Some e" using k(2) by (auto simp: passed_def)
        ultimately have "get_sub s (take (Suc j) path) \<noteq> None" using D(4) J(1) by fastforce
        from S(4) [OF this gone(2)] obtain k' r' where
          "k' \<in> set (elements pat)" "prefix r' (take (Suc j) path)" "passed s path k' r'" by blast
        with passed_not_prefix element_parts(2) [OF D(1) res] show False
          by (meson prefix_order.trans take_is_prefix)
      qed
    next
      case taken
      have "declared_at s path" using taken(1) res by (auto simp: declared_at_def)
      with un sub [OF taken(2)] taken(3) have "indexed s path" by (auto simp: untaken_def)
      with K(1) uncl show False using take_is_prefix by (auto simp: indexed_def)
    qed
  qed
  show ?thesis
  proof (cases "get_sub s1 q")
    case None
    with S(4) [of q] no show ?thesis by (cases "get_sub s q") auto
  next
    case (Some e)
    with sub show ?thesis by simp
  qed
qed

lemma index_error:
  assumes inv: "subs_inv P s" and pm: "permit_inv h s" and un: "untaken s" and ix: "index_path pd s path = (s', u, None)"
  shows "evolves [] {} s s'" and "count s' = count s"
proof -
  obtain s1 b where sk: "skip pd s path = (s1, b)" by fastforce
  with ix obtain s2 where tk: "take_rx s1 path = (s2, None)" and s': "s' = s2"
    by (auto simp: index_path_def Let_def split: prod.splits)
  have s1: "s' = s1" using take_rx_None [OF tk] s' by simp
  note G = skip_blocked [OF inv pm un sk tk]
  have p: "patterns s1 = patterns s" using skip_facts [OF inv pm, of pd path] sk by simp
  have f: "fresh s1 = fresh s \<and> closed s1 = closed s"
  proof (cases "resolve s path")
    case None
    with sk show ?thesis by (simp add: skip_def)
  next
    case (Some a)
    then show ?thesis using skip_shape(1,2) [OF inv pm _ sk] by (cases a) simp
  qed
  have "gone s1 q" if "gone s q" for q using gone_skip [OF inv pm that, of pd path] sk by simp
  then have r: "released s p \<Longrightarrow> released s1 p" for p by (rule released_gone)
  show "evolves [] {} s s'"
    unfolding s1 by (rule evolvesI) (use f p r in \<open>auto simp: G same_slots_def\<close>)
  show "count s' = count s" unfolding s1 by (auto simp: count_def G)
qed

lemma claims_next_mono: "next_of s b \<le> next_of (fold (claim_element path pat) ks s) b"
proof (induction ks arbitrary: s)
  case (Cons k ks)
  have "next_of s b \<le> next_of (claim_element path pat k s) b" by (simp add: next_of_claim)
  with Cons [of "claim_element path pat k s"] show ?case by simp
qed simp

lemma claims_next:
  "k \<in> set ks \<Longrightarrow> path ! k < usize_max \<Longrightarrow> path ! k < next_of (fold (claim_element path pat) ks s) (take k path)"
proof (induction ks arbitrary: s)
  case (Cons j ks)
  show ?case
  proof (cases "j = k")
    case True
    have "path ! k < next_of (claim_element path pat k s) (take k path)"
      using saturating_Suc [OF Cons.prems(2)] by (simp add: next_of_claim)
    with claims_next_mono [of "claim_element path pat k s" "take k path" path pat ks] True show ?thesis by simp
  qed (use Cons in simp)
qed simp

lemma index_ok:
  assumes inv: "subs_inv P s" and pm: "permit_inv h s" and un: "untaken s" and small: "\<forall>i \<in> set path. i < usize_max"
    and ix: "index_path pd s path = (s', u, Some r)"
  shows "\<exists>np. evolves np {path} s s' \<and> (\<forall>ch. r = Some ch \<longrightarrow>
      (\<exists>sub sub'. rx sub = Some ch \<and> get_sub s' path = Some sub' \<and> rx sub' = None \<and> tx sub' = tx sub \<and>
        (get_sub s path = Some sub \<or> get_sub s path = None \<and> fresh_sub np s path sub)))"
    and "get_sub s' q \<noteq> None \<Longrightarrow> count s' q = count s q + of_bool (is_element s q \<and> prefix q path)"
    and "is_element s q \<Longrightarrow> count s' q = count s q + of_bool (prefix q path)"
    and "resolve s path \<noteq> None" and "indexed s' path" and "untaken s'"
proof -
  obtain s1 b where sk: "skip pd s path = (s1, b)" by fastforce
  with ix have tk: "take_rx s1 path = (s', Some r)"
    by (auto simp: index_path_def Let_def split: prod.splits)
  note F = skip_facts [OF inv pm, of pd path, unfolded sk fst_conv]
  have inv1: "subs_inv P s1" and p1: "patterns s1 = patterns s"
    and sub1: "get_sub s1 q = Some e \<Longrightarrow> get_sub s q = Some e" for q e using F by blast+
  have inv': "subs_inv P s'" and gone': "gone s q \<Longrightarrow> gone s' q" for q
    using index_path_facts(1,3) [OF inv pm small, where pd = pd] ix by auto
  obtain n pat s2 where res1: "resolve s1 path = Some (n, pat)" and g: "grows s1 s2"
    and cnt: "\<And>q. count s' q = count s1 q + of_bool (is_element s1 q \<and> prefix q path)" and p': "patterns s' = patterns s1"
    and nx: "next_index s' = next_index (claim_all path pat s1)"
    and fin: "if declared n then \<exists>sub. get_sub s2 path = Some sub \<and> s' = put_sub path (sub\<lparr>rx := None\<rparr>) s2 \<and> r = rx sub
      else s' = s2 \<and> r = None"
    and only: "\<And>q. get_sub s1 q = None \<Longrightarrow> get_sub s2 q \<noteq> None \<Longrightarrow> prefix q path"
    using take_rx_grows [OF subs_invD(1) [OF inv1] tk] by metis
  have res: "resolve s path = Some (n, pat)" using resolve_patterns [OF p1] res1 by simp
  then show "resolve s path \<noteq> None" by simp
  note S = skip_shape [OF inv pm res sk]
  have el: "is_element s1 q = is_element s q" "is_element s' q = is_element s q" for q
    using is_element_patterns [OF p1] is_element_patterns [OF p'] by simp_all
  have keys: "get_sub s' q = None \<longleftrightarrow> get_sub s2 q = None" for q using fin by (auto split: if_splits)
  have gone_passed: "gone s' t" if t: "k \<in> set (elements pat)" "passed s path k t" "get_sub s1 t = None" for k t
  proof -
    note K = element_parts [OF subs_invD(1) [OF inv] res t(1)]
    obtain i where i: "t = take k path @ [i]" "i < path ! k" using t(2) by (auto simp: passed_def)
    have "get_sub s' t = None"
      using keys only [OF t(3)] passed_not_prefix [OF t(2) K(2)] by auto
    moreover have "path ! k < next_of (claim_all path pat s1) (take k path)"
      unfolding claim_all_def using t(1) small K(2) by (intro claims_next) simp_all
    then have "path ! k < next_of s' (take k path)" using nx by (simp add: next_of_def)
    ultimately show ?thesis using i t(2) el by (simp add: gone_def passed_def)
  qed
  have lost: "released s' q" if "get_sub s q \<noteq> None" "get_sub s1 q = None" for q
    using S(4) [OF that] gone_passed unfolding released_def by blast
  have kept: "get_sub s1 q = get_sub s q" if "get_sub s' q \<noteq> None" for q
  proof (cases "get_sub s1 q")
    case None
    with lost [of q] released_absent [OF inv', of q] that show ?thesis by (cases "get_sub s q") auto
  qed (use sub1 in simp)
  obtain np where xt: "extends np s1 s2" and mono: "\<And>q. get_sub s1 q \<noteq> None \<Longrightarrow> get_sub s2 q \<noteq> None"
    using g unfolding grows_def by blast
  note E = extendsD [OF xt]
  have fs: "fresh_sub np s1 = fresh_sub np s"
    using S(1,2) declared_at_patterns [OF p1] by (intro ext) (simp add: fresh_sub_def)
  have slots: "\<exists>x. get_sub s2 p = Some x \<and> same_slots {path} p x sub'" if "get_sub s' p = Some sub'" for p sub'
    using fin that by (auto simp: same_slots_def split: if_splits)
  have ev: "evolves np {path} s s'"
  proof (rule evolvesI)
    show "fresh s' = fresh s + length np" "closed s' = closed s" "patterns s' = patterns s" "distinct np"
      using E(1-4) S(1,2) p1 p' fin by (auto split: if_splits)
    show "get_sub s p = None \<and> get_sub s' p \<noteq> None" if "p \<in> set np" for p
      using E(5,6) [OF that] keys kept [of p] by auto
    show "same_slots {path} p sub sub'" if h: "get_sub s p = Some sub" "get_sub s' p = Some sub'" for p sub sub'
    proof -
      obtain x where x: "get_sub s2 p = Some x" "same_slots {path} p x sub'" using slots [OF h(2)] by blast
      have "get_sub s1 p = Some sub" using kept [of p] h by simp
      from E(7) [OF x(1) this] x(2) show ?thesis by (simp add: same_slots_def)
    qed
    show "\<exists>sub. fresh_sub np s p sub \<and> same_slots {path} p sub sub'" if h: "get_sub s p = None" "get_sub s' p = Some sub'" for p sub'
    proof -
      obtain x where x: "get_sub s2 p = Some x" "same_slots {path} p x sub'" using slots [OF h(2)] by blast
      have "get_sub s1 p = None" using kept [of p] h by simp
      from E(8) [OF x(1) this] x(2) show ?thesis by (auto simp: fs)
    qed
    show "get_sub s' p \<noteq> None \<or> released s' p" if "get_sub s p \<noteq> None" for p
      using lost [OF that] mono [of p] keys [of p] by (cases "get_sub s1 p = None") simp_all
    show "released s p \<Longrightarrow> released s' p" for p by (rule released_gone [OF gone'])
  qed
  have "\<exists>sub sub'. rx sub = Some ch \<and> get_sub s' path = Some sub' \<and> rx sub' = None \<and> tx sub' = tx sub \<and>
      (get_sub s path = Some sub \<or> get_sub s path = None \<and> fresh_sub np s path sub)" if ch: "r = Some ch" for ch
  proof -
    obtain x where x: "get_sub s2 path = Some x" "s' = put_sub path (x\<lparr>rx := None\<rparr>) s2" "rx x = Some ch"
      using fin ch by (auto split: if_splits)
    have k: "get_sub s1 path = get_sub s path" using kept [of path] x(2) by simp
    show ?thesis
    proof (cases "get_sub s path")
      case None
      with E(8) [OF x(1)] k have "fresh_sub np s path x" by (simp add: fs)
      with x None show ?thesis by (intro exI [of _ x] exI [of _ "x\<lparr>rx := None\<rparr>"]) simp
    next
      case (Some y)
      with E(7) [OF x(1)] k have "tx x = tx y \<and> rx x = rx y" by simp
      with x Some show ?thesis by (intro exI [of _ y] exI [of _ "x\<lparr>rx := None\<rparr>"]) simp
    qed
  qed
  with ev show "\<exists>np. evolves np {path} s s' \<and> (\<forall>ch. r = Some ch \<longrightarrow>
      (\<exists>sub sub'. rx sub = Some ch \<and> get_sub s' path = Some sub' \<and> rx sub' = None \<and> tx sub' = tx sub \<and>
        (get_sub s path = Some sub \<or> get_sub s path = None \<and> fresh_sub np s path sub)))" by blast
  have c: "count s' q = count s q + of_bool (is_element s q \<and> prefix q path)" if "get_sub s' q \<noteq> None" for q
    using cnt [of q] kept [OF that] el by (simp add: count_def)
  then show "get_sub s' q \<noteq> None \<Longrightarrow> count s' q = count s q + of_bool (is_element s q \<and> prefix q path)" .
  show idx: "indexed s' path"
    unfolding indexed_def claimed_count using cnt el by simp
  show "untaken s'"
    by (rule untaken_evolves [OF un ev inv']) (use c idx in \<open>auto simp: claimed_count\<close>)
  show "count s' q = count s q + of_bool (prefix q path)" if q: "is_element s q"
  proof (cases "get_sub s' q")
    case None
    then have s1: "get_sub s1 q = None" using keys [of q] mono [of q] by (cases "get_sub s1 q") simp_all
    have "\<not> claimed s q"
    proof
      assume cl: "claimed s q"
      then have "get_sub s q \<noteq> None" by (auto simp: claimed_def split: option.splits)
      from S(4) [OF this s1] obtain k t where t: "prefix t q" "passed s path k t" by blast
      then have "is_element s t" "\<not> claimed s t" by (simp_all add: passed_def)
      with claimed_parent [OF inv cl t(1) _ q] show False by simp
    qed
    moreover have "\<not> prefix q path" using idx None q el by (auto simp: indexed_def claimed_def)
    ultimately show ?thesis using None by (simp add: claimed_count count_def)
  next
    case (Some e)
    with c [of q] q show ?thesis by simp
  qed
qed

section \<open>The index at the start and at the end\<close>

definition root_sub :: subscription where
  "root_sub = sub_default\<lparr>tx := Some (Open 0)\<rparr>"

lemma subs_new_channels:
  assumes "distinct ps"
  obtains own where "own 0 = []" "chans_ok own (subs_new ps)" "0 < fresh (subs_new ps)"
    "\<not> closed (subs_new ps)" "get_sub (subs_new ps) [] = Some root_sub"
    "\<And>p sub. get_sub (subs_new ps) p = Some sub \<Longrightarrow> p \<noteq> [] \<Longrightarrow> \<exists>ch. tx sub = Some (Open ch) \<and> rx sub = Some ch"
proof -
  define ok where "ok qs own s \<longleftrightarrow> own 0 = [] \<and> 0 < fresh s \<and> inj_on own {..<fresh s} \<and> \<not> closed s \<and>
    (\<forall>ch < fresh s. get_sub s (own ch) \<noteq> None) \<and> get_sub s [] = Some root_sub \<and>
    (\<forall>p sub. get_sub s p = Some sub \<and> p \<noteq> [] \<longrightarrow>
      map Some p \<in> set qs \<and> (\<exists>ch < fresh s. own ch = p \<and> tx sub = Some (Open ch) \<and> rx sub = Some ch))"
    for qs and own :: "chan \<Rightarrow> path" and s :: subscriptions
  have step: "\<exists>own'. ok (p # qs) own' (declare_path p s)" if s: "ok qs own s" and p: "p \<notin> set qs" for p s qs own
  proof (cases "p \<noteq> [] \<and> (\<exists>q. those p = Some q)")
    case False
    then have "subs (declare_path p s) = subs s" "fresh (declare_path p s) = fresh s" "closed (declare_path p s) = closed s"
      by (auto simp: declare_path_def Let_def split: option.splits)
    with s have "ok (p # qs) own (declare_path p s)" unfolding ok_def get_sub_def by simp
    then show ?thesis by (rule exI [of _ own])
  next
    case True
    then obtain q where q: "p \<noteq> []" "those p = Some q" by blast
    then have pq: "p = map Some q" "q \<noteq> []" using those_matches by auto
    let ?e = "sub_default\<lparr>tx := Some (Open (fresh s)), rx := Some (fresh s)\<rparr>" and ?own = "own(fresh s := q)"
    have f: "subs (declare_path p s) = AList.update q ?e (subs s)" "fresh (declare_path p s) = fresh s + 1"
      "closed (declare_path p s) = closed s"
      using q by (simp_all add: declare_path_def sub_new_def Let_def)
    have g: "get_sub (declare_path p s) r = (if r = q then Some ?e else get_sub s r)" for r
      by (simp add: get_sub_def f update_conv')
    have qn: "get_sub s q = None" using s p pq by (cases "get_sub s q") (auto simp: ok_def)
    have "q \<notin> own ` {..<fresh s}" using s qn by (auto simp: ok_def)
    then have "inj_on ?own {..<fresh s + 1}"
      using s by (auto simp: ok_def inj_on_def lessThan_Suc)
    moreover have "\<exists>ch < fresh s + 1. ?own ch = r \<and> tx sub = Some (Open ch) \<and> rx sub = Some ch"
      if "get_sub s r = Some sub" "r \<noteq> []" for r sub
    proof -
      from s that obtain ch where "ch < fresh s" "own ch = r" "tx sub = Some (Open ch)" "rx sub = Some ch"
        unfolding ok_def by blast
      then show ?thesis by (intro exI [of _ ch]) simp
    qed
    ultimately have "ok (p # qs) ?own (declare_path p s)"
      using s pq unfolding ok_def f g by (auto simp: less_Suc_eq)
    then show ?thesis by (rule exI [of _ ?own])
  qed
  have fold_ok: "\<exists>own'. ok (rev ps @ qs) own' (fold declare_path ps s)" if "ok qs own s" "distinct (ps @ qs)" for ps qs own s
    using that
  proof (induction ps arbitrary: s qs own)
    case (Cons p ps)
    obtain own' where "ok (p # qs) own' (declare_path p s)" using step [OF Cons.prems(1), of p] Cons.prems(2) by auto
    from Cons.IH [OF this] Cons.prems(2) show ?case by simp
  qed auto
  have "\<exists>own. ok (rev ps @ []) own (subs_new ps)"
    unfolding subs_new_def
    by (rule fold_ok [where own = "\<lambda>_. []"]) (use assms in \<open>auto simp: ok_def get_sub_def root_sub_def inj_on_def\<close>)
  then obtain own where o: "own 0 = []" "0 < fresh (subs_new ps)" "inj_on own {..<fresh (subs_new ps)}"
    "\<not> closed (subs_new ps)" "\<And>ch. ch < fresh (subs_new ps) \<Longrightarrow> get_sub (subs_new ps) (own ch) \<noteq> None"
    "get_sub (subs_new ps) [] = Some root_sub"
    "\<And>p sub. get_sub (subs_new ps) p = Some sub \<Longrightarrow> p \<noteq> [] \<Longrightarrow>
      \<exists>ch < fresh (subs_new ps). own ch = p \<and> tx sub = Some (Open ch) \<and> rx sub = Some ch"
    unfolding ok_def by blast
  have "ch < fresh (subs_new ps) \<and> own ch = p"
    if "get_sub (subs_new ps) p = Some sub" "tx sub = Some (Open ch) \<or> rx sub = Some ch" for p sub ch
  proof (cases "p = []")
    case True
    with that(1) o(6) have "sub = root_sub" by simp
    with that(2) True o(1,2) show ?thesis by (simp add: root_sub_def sub_default_def)
  next
    case False
    from o(7) [OF that(1) this] that(2) show ?thesis by auto
  qed
  then have "chans_ok own (subs_new ps)" using o(3,5) by (intro chans_okI) auto
  then show ?thesis by (rule that [of own, OF o(1) _ o(2,4,6)]) (use o(7) in blast)
qed

lemma untaken_new:
  assumes "distinct ps"
  shows "untaken (subs_new ps)"
  unfolding untaken_def
proof (intro allI impI, elim conjE)
  fix p sub
  assume p: "get_sub (subs_new ps) p = Some sub" "rx sub = None"
  have "p = []" by (rule subs_new_channels [OF assms]) (use p in fastforce)
  moreover have "\<not> is_element (subs_new ps) []" by (simp add: is_element_def resolve_def split: option.splits)
  ultimately show "indexed (subs_new ps) p" by (simp add: indexed_def)
qed

text \<open>Operations on the slots of existing subscriptions.\<close>

lemma mapped_subs:
  assumes "subs s' = map (\<lambda>(p, sub). (p, f sub)) (subs s)"
  shows "get_sub s' p = map_option f (get_sub s p)"
  unfolding get_sub_def assms by (simp add: map_of_map)

lemma close_path_shape:
  "get_sub (close_path p s) q = (if q = p then map_option (\<lambda>sub. sub\<lparr>tx := Some Closed\<rparr>) (get_sub s p) else get_sub s q)"
  "fresh (close_path p s) = fresh s" "closed (close_path p s) = closed s" "patterns (close_path p s) = patterns s"
  "next_index (close_path p s) = next_index s"
  by (auto simp: close_path_def split: option.splits)

lemma close_tx_shape:
  "get_sub (close_tx s) p =
    map_option (\<lambda>sub. case tx sub of Some (Open ch) \<Rightarrow> sub\<lparr>tx := None\<rparr> | _ \<Rightarrow> sub) (get_sub s p)"
  "fresh (close_tx s) = fresh s" "closed (close_tx s)" "patterns (close_tx s) = patterns s"
  "next_index (close_tx s) = next_index s"
proof -
  show "get_sub (close_tx s) p =
    map_option (\<lambda>sub. case tx sub of Some (Open ch) \<Rightarrow> sub\<lparr>tx := None\<rparr> | _ \<Rightarrow> sub) (get_sub s p)"
    by (rule mapped_subs) (simp add: close_tx_def)
qed (simp_all add: close_tx_def)

lemma close_rx_shape:
  "get_sub (fst (close_rx pd s)) p = map_option (\<lambda>sub. sub\<lparr>rx := None\<rparr>) (get_sub s p)"
  "fresh (fst (close_rx pd s)) = fresh s" "closed (fst (close_rx pd s)) = closed s"
  "patterns (fst (close_rx pd s)) = patterns s" "next_index (fst (close_rx pd s)) = next_index s"
proof -
  show "get_sub (fst (close_rx pd s)) p = map_option (\<lambda>sub. sub\<lparr>rx := None\<rparr>) (get_sub s p)"
    by (rule mapped_subs) (simp add: close_rx_def)
qed (simp_all add: close_rx_def)

text \<open>An operation that keeps which paths are subscribed to and adds no channel to a slot.\<close>

lemma chans_ok_slots:
  assumes ok: "chans_ok own s" and "fresh s' = fresh s" and p: "patterns s' = patterns s" and n: "next_index s' = next_index s"
    and keys: "\<And>p. get_sub s' p = None \<longleftrightarrow> get_sub s p = None"
    and slots: "\<And>p sub sub'. get_sub s p = Some sub \<Longrightarrow> get_sub s' p = Some sub' \<Longrightarrow>
      (tx sub' = tx sub \<or> (\<nexists>ch. tx sub' = Some (Open ch))) \<and> (rx sub' = rx sub \<or> rx sub' = None)"
  shows "chans_ok own s'"
proof (rule chans_okI)
  note C = chans_okD [OF ok]
  have "gone s' q = gone s q" for q using is_element_patterns [OF p, of q] n keys by (simp add: gone_def next_of_def)
  then have r: "released s' q = released s q" for q by (simp add: released_def)
  show "ch < fresh s' \<and> own ch = p" if h: "get_sub s' p = Some sub'" "tx sub' = Some (Open ch) \<or> rx sub' = Some ch" for p sub' ch
  proof -
    obtain sub where s: "get_sub s p = Some sub" using keys [of p] h(1) by (cases "get_sub s p") auto
    from slots [OF s h(1)] h(2) have "tx sub = Some (Open ch) \<or> rx sub = Some ch" by auto
    from C(1) [OF s this] assms(2) show ?thesis by simp
  qed
  show "get_sub s' (own ch) \<noteq> None \<or> released s' (own ch)" if "ch < fresh s'" for ch
    using C(2) [of ch] that assms(2) keys [of "own ch"] r [of "own ch"] by simp
  show "inj_on own {..<fresh s'}" using ok assms(2) by (simp add: chans_ok_def)
qed

end
