(* ===== verification/Delivery.thy ===== *)
theory Delivery
  imports Conn Channels
begin

text \<open>
  What a handle of a framed connection reads is what the peer sent on its path: ingress sends the data of
  the frames to the channels of their paths, in order, a channel is of one path for good, and the end of
  the data is reported without an error only if an empty frame closed the path or the whole stream was
  received.
\<close>

section \<open>What was sent\<close>

definition sent_to :: "conn \<Rightarrow> chan \<Rightarrow> bytes" where
  "sent_to c ch = concat (map (\<lambda>(p, ch', d). d) (filter (\<lambda>(p, ch', d). ch' = ch) (c_sent c)))"

definition sent_on :: "conn \<Rightarrow> path \<Rightarrow> bytes" where
  "sent_on c p = concat (map (\<lambda>(q, ch, d). d) (filter (\<lambda>(q, ch, d). q = p) (c_sent c)))"

definition data_on :: "path \<Rightarrow> frame list \<Rightarrow> bytes" where
  "data_on p fs = concat (map f_data (filter (\<lambda>f. f_path f = p) fs))"

lemma data_on_simps [simp]:
  "data_on p [] = []" "data_on p (f # fs) = (if f_path f = p then f_data f else []) @ data_on p fs"
  "data_on p (fs @ gs) = data_on p fs @ data_on p gs"
  by (simp_all add: data_on_def)

definition header_bytes :: "wasm_tokio \<Rightarrow> frame \<Rightarrow> bytes" where
  "header_bytes W f =
    leb_enc W 32 (length (f_path f)) @ concat (map (leb_enc W 32) (f_path f)) @ leb_enc W 32 (length (f_data f))"

lemma frame_bytes_header: "frame_bytes W f = header_bytes W f @ f_data f"
  by (simp add: frame_bytes_def header_bytes_def)

definition stream_bytes :: "wasm_tokio \<Rightarrow> frame list \<Rightarrow> bytes" where
  "stream_bytes W fs = concat (map (frame_bytes W) fs)"

lemma stream_bytes_simps [simp]:
  "stream_bytes W [] = []" "stream_bytes W (f # fs) = frame_bytes W f @ stream_bytes W fs"
  "stream_bytes W (fs @ gs) = stream_bytes W fs @ stream_bytes W gs"
  by (simp_all add: stream_bytes_def)

abbreviation frame_small :: "frame \<Rightarrow> bool" where
  "frame_small \<equiv> frame_ok (2 ^ 32 - 1) (2 ^ 32 - 1)"

section \<open>Reading the header of a frame\<close>

context leb128
begin

lemma read_path_enc:
  "\<forall>i \<in> set ps. i < 2 ^ 32 \<Longrightarrow>
    read_path W d (length ps) acc (concat (map (leb_enc W 32) ps) @ r) = Inr (acc @ take (d - length acc) ps, r)"
proof (induction ps arbitrary: acc)
  case (Cons p ps)
  then show ?case by (cases "length acc < d") (auto simp: read32_enc take_Cons' Suc_diff_Suc)
qed simp

lemma read_path_short:
  "\<forall>i \<in> set ps. i < 2 ^ 32 \<Longrightarrow> concat (map (leb_enc W 32) ps) = u @ v \<Longrightarrow> v \<noteq> [] \<Longrightarrow>
    read_path W d (length ps) acc u = Inl UnexpectedEof"
proof (induction ps arbitrary: acc u)
  case (Cons p ps)
  from Cons.prems(2) have "leb_enc W 32 p @ concat (map (leb_enc W 32) ps) = u @ v" by simp
  then show ?case
  proof (cases rule: append_prefix_cases)
    case (first w)
    have "leb_read W 32 u = Inl UnexpectedEof" using read32_short [OF _ first(1,3)] Cons.prems(1) by simp
    then show ?thesis by simp
  next
    case (second w)
    with Cons show ?thesis by (simp add: read32_enc)
  qed
qed simp

lemma header_not_Nil: "frame_small f \<Longrightarrow> header_bytes W f \<noteq> []"
  by (simp add: header_bytes_def frame_ok_def)

lemma read_frame_header:
  assumes "frame_small f"
  shows "read_frame W d (header_bytes W f @ r) =
    (if length (f_path f) > d then Inl NotFound else Inr (Some (f_path f, length (f_data f), r)))"
proof -
  have "length (f_path f) < 2 ^ 32" "length (f_data f) < 2 ^ 32" "\<forall>i \<in> set (f_path f). i < 2 ^ 32"
    using assms by (auto simp: frame_ok_def)
  then show ?thesis
    using header_not_Nil [OF assms] read_path_enc [of "f_path f" d "[]"]
    by (simp add: read_frame_def header_bytes_def read32_enc)
qed

lemma read_frame_short:
  assumes ok: "frame_small f" and h: "header_bytes W f = u @ v" and "v \<noteq> []" and "u \<noteq> []"
  shows "\<exists>e. read_frame W d u = Inl e"
proof -
  let ?n = "leb_enc W 32 (length (f_path f))" and ?p = "concat (map (leb_enc W 32) (f_path f))"
    and ?m = "leb_enc W 32 (length (f_data f))"
  have b: "length (f_path f) < 2 ^ 32" "length (f_data f) < 2 ^ 32" "\<forall>i \<in> set (f_path f). i < 2 ^ 32"
    using ok by (auto simp: frame_ok_def)
  have eq: "?n @ ?p @ ?m = u @ v" using h by (simp add: header_bytes_def)
  show ?thesis
    using eq
  proof (cases rule: append_prefix_cases)
    case (first w)
    then have "leb_read W 32 u = Inl UnexpectedEof" using read32_short [OF b(1)] by blast
    then show ?thesis using assms(4) by (simp add: read_frame_def)
  next
    case (second w)
    from second(2) show ?thesis
    proof (cases rule: append_prefix_cases)
      case (first x)
      with b second(1) show ?thesis using assms(4) by (simp add: read_frame_def read32_enc read_path_short)
    next
      case (second x)
      have "leb_read W 32 x = Inl UnexpectedEof" using read32_short [OF b(2) second(2) assms(3)] .
      with b \<open>u = ?n @ w\<close> second(1) show ?thesis using assms(4) read_path_enc [of "f_path f" d "[]" x]
        by (simp add: read_frame_def read32_enc)
    qed
  qed
qed

end

section \<open>Progress of ingress\<close>

text \<open>
  The frames \<open>pre\<close> of the stream \<open>fs\<close> were received completely, and \<open>x\<close> of the data of the next one,
  which has the path \<open>p\<close>; a path is closed only after an empty frame.
\<close>

definition phase_ok :: "wasm_tokio \<Rightarrow> bytes \<Rightarrow> frame list \<Rightarrow> frame list \<Rightarrow> path \<Rightarrow> bytes \<Rightarrow> phase \<Rightarrow> bool" where
  "phase_ok W b pre post p x ph =
    (case ph of
       Frames r \<Rightarrow> x = [] \<and> b = stream_bytes W pre @ r
     | Routing q n r \<Rightarrow> x = [] \<and> (\<exists>f post'. post = f # post' \<and> f_path f = q \<and> length (f_data f) = n \<and>
         b = stream_bytes W pre @ header_bytes W f @ r)
     | Waiting q n r \<Rightarrow> x = [] \<and> (\<exists>f post'. post = f # post' \<and> f_path f = q \<and> length (f_data f) = n \<and>
         b = stream_bytes W pre @ header_bytes W f @ r)
     | Sending q ch n r \<Rightarrow> p = q \<and> (\<exists>f post' y. post = f # post' \<and> f_path f = q \<and> f_data f = x @ y \<and> length y = n \<and>
         b = stream_bytes W pre @ header_bytes W f @ x @ r)
     | Returned (Inr _) \<Rightarrow> x = [] \<and> b = stream_bytes W pre
     | Returned (Inl _) \<Rightarrow> True)"

lemmas phase_ok_simps [simp] = phase_ok_def [of W b pre post p x "Frames r", simplified]
  phase_ok_def [of W b pre post p x "Routing q n r", simplified]
  phase_ok_def [of W b pre post p x "Waiting q n r", simplified]
  phase_ok_def [of W b pre post p x "Sending q ch n r", simplified]
  phase_ok_def [of W b pre post p x "Returned (Inr u)", simplified]
  phase_ok_def [of W b pre post p x "Returned (Inl e)", simplified] for W b pre post p x r q n ch u e

definition received :: "frame list \<Rightarrow> conn \<Rightarrow> frame list \<Rightarrow> frame list \<Rightarrow> path \<Rightarrow> bytes \<Rightarrow> bool" where
  "received fs c pre post p x \<longleftrightarrow>
    fs = pre @ post \<and> (\<forall>q. sent_on c q = data_on q pre @ (if q = p then x else [])) \<and>
    (\<forall>q. is_closed c q \<longrightarrow> \<lparr>f_path = q, f_data = []\<rparr> \<in> set pre) \<and>
    (x \<noteq> [] \<longrightarrow> \<not> is_closed c p \<and> (\<exists>f post'. post = f # post' \<and> f_path f = p \<and> prefix x (f_data f)))"

definition progress :: "wasm_tokio \<Rightarrow> frame list \<Rightarrow> bytes \<Rightarrow> conn \<Rightarrow> bool" where
  "progress W fs b c \<longleftrightarrow>
    (\<exists>pre post p x. received fs c pre post p x \<and> phase_ok W b pre post p x (c_phase c)) \<and>
    (\<forall>q ch n r. c_phase c = Sending q ch n r \<longrightarrow> \<not> is_closed c q)"

lemma receivedD:
  assumes "received fs c pre post p x"
  shows "fs = pre @ post" "sent_on c q = data_on q pre @ (if q = p then x else [])"
    "is_closed c q \<Longrightarrow> \<lparr>f_path = q, f_data = []\<rparr> \<in> set pre"
    "x \<noteq> [] \<Longrightarrow> \<not> is_closed c p" "x \<noteq> [] \<Longrightarrow> \<exists>f post'. post = f # post' \<and> f_path f = p \<and> prefix x (f_data f)"
  using assms by (simp_all add: received_def)

lemma received_cong:
  assumes "received fs c pre post p x" and "c_sent c' = c_sent c" and "\<And>q. is_closed c' q \<Longrightarrow> is_closed c q"
  shows "received fs c' pre post p x"
  using assms by (auto simp: received_def sent_on_def)

lemma progress_cong:
  assumes "progress W fs b c" and "c_phase c' = c_phase c" and "c_sent c' = c_sent c"
    and "\<And>q. is_closed c' q \<Longrightarrow> is_closed c q"
  shows "progress W fs b c'"
  using assms received_cong unfolding progress_def by (metis (no_types, lifting))

lemma progressI:
  "received fs c pre post p x \<Longrightarrow> phase_ok W b pre post p x (c_phase c) \<Longrightarrow>
    (\<And>q ch n r. c_phase c = Sending q ch n r \<Longrightarrow> \<not> is_closed c q) \<Longrightarrow> progress W fs b c"
  unfolding progress_def by blast

lemma evolves_closed:
  assumes "evolves np T s s'" and "get_tx s' q = Some Closed"
  shows "get_tx s q = Some Closed"
proof -
  note E = evolvesD [OF assms(1)]
  obtain sub' where s': "get_sub s' q = Some sub'" "tx sub' = Some Closed"
    using assms(2) by (auto simp: get_tx_def split: option.splits)
  show ?thesis
  proof (cases "get_sub s q")
    case None
    from E(8) [OF None s'(1)] s'(2) obtain f where "fresh_sub np s q f" "tx f = Some Closed" by (auto simp: same_slots_def)
    then show ?thesis by (auto simp: fresh_sub_def split: if_splits)
  next
    case (Some sub)
    with E(7) [OF Some s'(1)] s'(2) show ?thesis by (simp add: get_tx_def same_slots_def)
  qed
qed

lemma available_shape [simp]:
  "get_sub (s\<lparr>available := a\<rparr>) = get_sub s" "get_tx (s\<lparr>available := a\<rparr>) = get_tx s"
  "rx_chans (s\<lparr>available := a\<rparr>) = rx_chans s"
  by (auto simp: get_sub_def get_tx_def rx_chans_def)

lemma drop_permit_shape [simp]:
  "c_phase (drop_permit c) = c_phase c" "c_bufs (drop_permit c) = c_bufs c" "c_sent (drop_permit c) = c_sent c"
  "c_read (drop_permit c) = c_read c" "c_err (drop_permit c) = c_err c" "c_reported (drop_permit c) = c_reported c"
  "is_closed (drop_permit c) q = is_closed c q" "get_sub (c_index (drop_permit c)) = get_sub (c_index c)"
  "c_io (drop_permit c) = c_io c" "closed (c_index (drop_permit c)) = closed (c_index c)"
  "get_tx (c_index (drop_permit c)) = get_tx (c_index c)"
  "c_closed (drop_permit c) = c_closed c" "c_done (drop_permit c) = c_done c"
  by (simp_all add: drop_permit_def is_closed_def)

lemma progress_returned:
  assumes "progress W fs b c" and "c_phase c' = Returned (Inl e)" and "c_sent c' = c_sent c"
    and "\<And>q. is_closed c' q \<Longrightarrow> is_closed c q"
  shows "progress W fs b c'"
proof -
  obtain pre post p x where "received fs c pre post p x" using assms(1) by (auto simp: progress_def)
  from received_cong [OF this assms(3,4)] show ?thesis by (rule progressI) (simp_all add: assms(2))
qed

lemma progress_phase:
  assumes "progress W fs b c" and "c_sent c' = c_sent c" and "\<And>q. is_closed c' q \<Longrightarrow> is_closed c q"
    and "\<And>pre post p x. received fs c pre post p x \<Longrightarrow> phase_ok W b pre post p x (c_phase c) \<Longrightarrow>
      phase_ok W b pre post p x (c_phase c')"
    and "\<And>q ch n r. c_phase c' = Sending q ch n r \<Longrightarrow> \<not> is_closed c' q"
  shows "progress W fs b c'"
proof -
  obtain pre post p x where r: "received fs c pre post p x" and "phase_ok W b pre post p x (c_phase c)"
    using assms(1) unfolding progress_def by blast
  with assms(4) have "phase_ok W b pre post p x (c_phase c')" by blast
  with received_cong [OF r assms(2,3)] show ?thesis using assms(5) by (rule progressI)
qed

text \<open>The rest of the input begins with what is left of the stream.\<close>

lemma rest_prefix:
  assumes "prefix b (stream_bytes W fs)" and "fs = pre @ post" and "b = stream_bytes W pre @ r"
  shows "prefix r (stream_bytes W post)"
  using assms by simp

context leb128
begin

lemma progress_read_frame:
  assumes pg: "progress W fs b c" and ph: "c_phase c = Frames r"
    and small: "\<forall>f \<in> set fs. frame_small f" and b: "prefix b (stream_bytes W fs)"
  shows "progress W fs b (c\<lparr>c_phase := next_frame W d r\<rparr>)" (is "progress W fs b ?c")
proof (rule progress_phase [OF pg])
  show "\<not> is_closed ?c q" if "c_phase ?c = Sending q ch n s" for q ch n s
    using that by (simp add: next_frame_def split: sum.splits option.splits prod.splits)
  fix pre post p x
  assume rc: "received fs c pre post p x" and "phase_ok W b pre post p x (c_phase c)"
  then have x: "x = []" "b = stream_bytes W pre @ r" using ph by simp_all
  note pr = rest_prefix [OF b receivedD(1) [OF rc] x(2)]
  show "phase_ok W b pre post p x (c_phase ?c)"
  proof (cases "r = []")
    case True
    with x show ?thesis by (simp add: next_frame_def read_frame_def)
  next
    case False
    with pr obtain f post' where post: "post = f # post'" by (cases post) auto
    then have f: "frame_small f" using small receivedD(1) [OF rc] by simp
    from pr post obtain z where "header_bytes W f @ f_data f @ stream_bytes W post' = r @ z"
      by (auto simp: prefix_def frame_bytes_header)
    then show ?thesis
    proof (cases rule: append_prefix_cases)
      case (first u)
      from read_frame_short [OF f first(1,3) False, of d] show ?thesis by (auto simp: next_frame_def)
    next
      case (second u)
      with x post show ?thesis by (auto simp: next_frame_def read_frame_header [OF f])
    qed
  qed
qed (simp_all add: is_closed_def)

end

lemma sent_on_chunk:
  "c_sent c' = c_sent c @ [(p, ch, d)] \<Longrightarrow> sent_on c' q = sent_on c q @ (if q = p then d else [])"
  by (simp add: sent_on_def)

lemma sent_to_chunk:
  "c_sent c' = c_sent c @ [(p, ch, d)] \<Longrightarrow> sent_to c' ch' = sent_to c ch' @ (if ch' = ch then d else [])"
  by (simp add: sent_to_def)

lemma progress_send_chunk:
  assumes pg: "progress W fs b c" and ph: "c_phase c = Sending p ch n r" and sc: "send_chunk cap p ch n r c = Some c'"
    and b: "prefix b (stream_bytes W fs)"
  shows "progress W fs b c'"
proof -
  have nc: "\<not> is_closed c p" using pg ph unfolding progress_def by blast
  obtain pre post p' x where rc: "received fs c pre post p' x" and "phase_ok W b pre post p' x (c_phase c)"
    using pg unfolding progress_def by blast
  then obtain f post' y where f: "p' = p" "post = f # post'" "f_path f = p" "f_data f = x @ y" "length y = n"
    "b = stream_bytes W pre @ header_bytes W f @ x @ r"
    using ph by auto
  note R = receivedD [OF rc, unfolded f(1)]
  show ?thesis
  proof (cases "n = 0")
    case True
    with sc have c': "c' = c\<lparr>c_phase := Frames r\<rparr>" by (simp add: send_chunk_def)
    have y: "y = []" using True f(5) by simp
    have "received fs c' (pre @ [f]) post' p []"
      using R f y unfolding received_def c' by (auto simp: sent_on_def is_closed_def)
    moreover have "phase_ok W b (pre @ [f]) post' p [] (c_phase c')"
      using f y by (simp add: c' frame_bytes_header)
    ultimately show ?thesis by (rule progressI) (simp add: c')
  next
    case False
    let ?k = "min n cap"
    consider (error) e where "c' = c\<lparr>c_phase := Returned (Inl e)\<rparr>"
      | (sent) "\<not> length r < ?k" "c' = c\<lparr>c_phase := Sending p ch (n - ?k) (drop ?k r),
            c_bufs := (c_bufs c)(ch := c_bufs c ch @ [take ?k r]), c_sent := c_sent c @ [(p, ch, take ?k r)]\<rparr>"
      using sc False by (auto simp: send_chunk_def Let_def split: if_splits)
    then show ?thesis
    proof cases
      case error
      then show ?thesis by (intro progress_returned [OF pg]) (simp_all add: is_closed_def)
    next
      case sent
      have "prefix (stream_bytes W pre @ header_bytes W f @ x @ r)
          (stream_bytes W pre @ header_bytes W f @ x @ y @ stream_bytes W post')"
        using b R(1) f(2,4,6) by (simp add: frame_bytes_header)
      then obtain z where "r @ z = y @ stream_bytes W post'" by (auto simp: prefix_def)
      then have "take ?k (r @ z) = take ?k (y @ stream_bytes W post')" by simp
      then have tk: "take ?k r = take ?k y" using sent(1) f(5) by simp
      let ?x = "x @ take ?k r"
      have so: "sent_on c' q = sent_on c q @ (if q = p then take ?k r else [])" for q
        by (rule sent_on_chunk) (simp add: sent(2))
      have ic: "is_closed c' q = is_closed c q" for q by (simp add: sent(2) is_closed_def)
      have yk: "y = take ?k r @ drop ?k y" by (simp add: tk)
      then have px: "f_data f = ?x @ drop ?k y" using f(4) by simp
      have "received fs c' pre post p ?x"
        using R(1-3) f(2,3) nc so ic px unfolding received_def by (auto intro: prefixI)
      moreover have "phase_ok W b pre post p ?x (c_phase c')"
      proof -
        have "length (drop ?k y) = n - ?k" using f(5) by simp
        with f px show ?thesis unfolding sent(2)
          by (simp del: append_assoc length_drop) (intro exI [of _ "drop ?k y"], simp)
      qed
      ultimately show ?thesis by (rule progressI) (use nc ic in \<open>auto simp: sent(2)\<close>)
    qed
  qed
qed

text \<open>What routing a frame leaves, by the result of \<open>route\<close>.\<close>

lemma route_frame_cases:
  assumes "route (c_index c) p (c_permit c) = (s, pm, res)"
  obtains (error) e where "route_frame p n r c = (drop_permit (c\<lparr>c_index := s, c_permit := pm\<rparr>))\<lparr>c_phase := Returned (Inl e)\<rparr>"
  | (close) ch where "res = RouteTx (Open ch)" "n = 0"
      "route_frame p n r c = (drop_permit (c\<lparr>c_permit := pm, c_index := close_path p s\<rparr>))\<lparr>c_phase := Frames r\<rparr>"
  | (send) ch where "res = RouteTx (Open ch)" "n > 0"
      "route_frame p n r c = (drop_permit (c\<lparr>c_index := s, c_permit := pm\<rparr>))\<lparr>c_phase := Sending p ch n r\<rparr>"
  | (wait) "res = RouteUnclaimed" "route_frame p n r c = c\<lparr>c_index := s, c_permit := pm, c_phase := Waiting p n r\<rparr>"
proof (cases res)
  case (RouteTx slot)
  then show ?thesis
  proof (cases slot)
    case (Open ch)
    with RouteTx assms show ?thesis using close send by (cases "n = 0") (simp_all add: route_frame_def)
  qed (use RouteTx assms error in \<open>simp add: route_frame_def\<close>)
qed (use assms error wait in \<open>simp_all add: route_frame_def\<close>)

lemma progress_route_frame:
  assumes pg: "progress W fs b c" and ph: "c_phase c = Routing p n r"
    and rt: "route (c_index c) p (c_permit c) = (s, pm, res)" and ev: "evolves np T (c_index c) s"
  shows "progress W fs b (route_frame p n r c)"
proof -
  let ?c = "c\<lparr>c_index := s, c_permit := pm\<rparr>"
  have cl: "is_closed ?c q \<Longrightarrow> is_closed c q" for q using evolves_closed [OF ev] by (simp add: is_closed_def)
  from rt show ?thesis
  proof (cases rule: route_frame_cases [where n = n and r = r])
    case (error e)
    then show ?thesis using cl by (intro progress_returned [OF pg]) (simp_all add: is_closed_def)
  next
    case (close ch)
    obtain pre post p' x where rc: "received fs c pre post p' x" and "phase_ok W b pre post p' x (c_phase c)"
      using pg unfolding progress_def by blast
    then obtain f post' where f: "x = []" "post = f # post'" "f_path f = p" "f_data f = []"
      "b = stream_bytes W pre @ header_bytes W f @ r"
      using ph close(2) by auto
    let ?c' = "route_frame p n r c"
    have cl': "is_closed ?c' q \<Longrightarrow> is_closed c q \<or> q = p" for q
      using cl [of q] close_path_shape(1) [of p s q]
      by (auto simp: close(3) is_closed_def get_tx_def split: option.splits if_splits)
    have fr: "f = \<lparr>f_path = p, f_data = []\<rparr>" using f(3,4) by simp
    have "received fs ?c' (pre @ [f]) post' p []"
      using receivedD(1-3) [OF rc] f cl' fr unfolding received_def by (auto simp: close(3) sent_on_def)
    moreover have "phase_ok W b (pre @ [f]) post' p [] (c_phase ?c')"
      using f by (simp add: close(3) frame_bytes_header)
    ultimately show ?thesis by (rule progressI) (simp add: close(3))
  next
    case (send ch)
    have "\<not> is_closed ?c p"
      using route_open [OF rt [unfolded send(1)]] by (auto simp: is_closed_def get_tx_def)
    obtain pre post p' x where rc: "received fs c pre post p' x" and "phase_ok W b pre post p' x (c_phase c)"
      using pg unfolding progress_def by blast
    then obtain f post' where f: "x = []" "post = f # post'" "f_path f = p" "length (f_data f) = n"
      "b = stream_bytes W pre @ header_bytes W f @ r"
      using ph by auto
    let ?c' = "route_frame p n r c"
    have ic: "is_closed ?c' q = is_closed ?c q" for q by (simp add: send(3) is_closed_def drop_permit_def)
    have "received fs ?c' pre post p []"
      using receivedD(1-3) [OF rc] f(1) cl ic unfolding received_def by (auto simp: send(3) sent_on_def)
    moreover have "phase_ok W b pre post p [] (c_phase ?c')"
      using f by (simp add: send(3))
    ultimately show ?thesis by (rule progressI) (use \<open>\<not> is_closed ?c p\<close> ic in \<open>auto simp: send(3)\<close>)
  next
    case wait
    show ?thesis
      by (rule progress_phase [OF pg]) (use cl ph in \<open>auto simp: wait(2) is_closed_def\<close>)
  qed
qed

context leb128
begin

lemma progress_ingress:
  assumes "ingress W cap c c'" and pg: "progress W fs b c"
    and small: "\<forall>f \<in> set fs. frame_small f" and b: "prefix b (stream_bytes W fs)"
    and inv: "subs_inv P (c_index c)" "permit_inv (of_bool (c_permit c)) (c_index c)"
  shows "progress W fs b c'"
  using assms(1)
proof cases
  case (Read_Frame r)
  then show ?thesis using progress_read_frame [OF pg _ small b] by simp
next
  case (Route_Frame p n r)
  obtain s pm res where rt: "route (c_index c) p (c_permit c) = (s, pm, res)" by (metis prod_cases3)
  obtain np where "evolves np {} (c_index c) s" using route_evolves [OF inv rt] by blast
  from progress_route_frame [OF pg Route_Frame(2) rt this] Route_Frame(1) show ?thesis by simp
next
  case (Acquired p n r)
  then show ?thesis by (intro progress_phase [OF pg]) (auto simp: is_closed_def)
next
  case (Acquire_Closed p n r)
  then show ?thesis by (intro progress_returned [OF pg]) (simp_all add: is_closed_def)
next
  case (Notified p n r)
  then show ?thesis by (intro progress_phase [OF pg]) (auto simp: is_closed_def)
next
  case (Send_Chunk p ch n r)
  then show ?thesis using progress_send_chunk [OF pg _ _ b] by blast
qed

end

section \<open>Handles and channels\<close>

text \<open>The count of handles within an element is the number of live handles within it.\<close>

definition handles_ok :: "subscriptions \<Rightarrow> path list \<Rightarrow> bool" where
  "handles_ok s ps \<longleftrightarrow>
    (\<forall>p \<in> set ps. resolve s p \<noteq> None) \<and> (\<forall>q. is_element s q \<longrightarrow> count s q = length (filter (prefix q) ps))"

lemma handles_okD:
  assumes "handles_ok s ps"
  shows "p \<in> set ps \<Longrightarrow> resolve s p \<noteq> None"
    and "is_element s q \<Longrightarrow> count s q = length (filter (prefix q) ps)"
    and "p \<in> set ps \<Longrightarrow> indexed s p"
    and "p \<in> set ps \<Longrightarrow> \<not> released s p"
proof -
  show a: "p \<in> set ps \<Longrightarrow> resolve s p \<noteq> None"
    "is_element s q \<Longrightarrow> count s q = length (filter (prefix q) ps)" for p q
    using assms by (simp_all add: handles_ok_def)
  show i: "indexed s p" if "p \<in> set ps" for p
    unfolding indexed_def claimed_count using a(2) that by (auto simp: filter_empty_conv)
  show "\<not> released s p" if "p \<in> set ps"
    using i [OF that] by (auto simp: released_def gone_def indexed_def claimed_count count_def)
qed

lemma handles_okI:
  assumes "patterns s' = patterns s" and "\<And>p. p \<in> set ps \<Longrightarrow> resolve s p \<noteq> None"
    and "\<And>q. is_element s q \<Longrightarrow> count s' q = length (filter (prefix q) ps)"
  shows "handles_ok s' ps"
  using assms(2,3) resolve_patterns [OF assms(1)] is_element_patterns [OF assms(1)] unfolding handles_ok_def by simp

text \<open>The channel of a slot: its sender is there until the path is closed or ingress ended.\<close>

definition tx_ok :: "subscriptions \<Rightarrow> subscription \<Rightarrow> chan \<Rightarrow> bool" where
  "tx_ok s sub ch \<longleftrightarrow> tx sub = Some (Open ch) \<or> tx sub = Some Closed \<or> tx sub = None \<and> closed s"

definition reader_chans :: "incoming list \<Rightarrow> chan list" where
  "reader_chans hs = List.map_filter (\<lambda>h. map_option fst (i_rx h)) hs"

text \<open>A handle that reads the data of its path.\<close>

definition reads :: "(chan \<Rightarrow> path) \<Rightarrow> conn \<Rightarrow> incoming \<Rightarrow> bool" where
  "reads own c h \<longleftrightarrow>
    (\<forall>ch chunk. i_rx h = Some (ch, chunk) \<longrightarrow>
      own ch = i_path h \<and> ch < fresh (c_index c) \<and>
      (\<exists>sub. get_sub (c_index c) (i_path h) = Some sub \<and> rx sub = None \<and> tx_ok (c_index c) sub ch) \<and>
      c_read c ch @ chunk @ concat (c_bufs c ch) = sent_to c ch)"

definition unread :: "conn \<Rightarrow> bool" where
  "unread c \<longleftrightarrow>
    (\<forall>p sub ch. get_sub (c_index c) p = Some sub \<and> rx sub = Some ch \<longrightarrow>
      tx_ok (c_index c) sub ch \<and> c_read c ch = [] \<and> concat (c_bufs c ch) = sent_to c ch)"

definition sent_ok :: "(chan \<Rightarrow> path) \<Rightarrow> conn \<Rightarrow> bool" where
  "sent_ok own c \<longleftrightarrow>
    (\<forall>(p, ch, d) \<in> set (c_sent c). ch < fresh (c_index c) \<and> own ch = p) \<and>
    (\<forall>ch. prefix (c_read c ch) (sent_to c ch)) \<and>
    (\<forall>ch \<ge> fresh (c_index c). c_bufs c ch = [] \<and> c_read c ch = []) \<and>
    (\<forall>p ch n r. c_phase c = Sending p ch n r \<longrightarrow> ch < fresh (c_index c) \<and> own ch = p)"

definition data_ok :: "(chan \<Rightarrow> path) \<Rightarrow> conn \<Rightarrow> incoming list \<Rightarrow> bool" where
  "data_ok own c hs \<longleftrightarrow>
    (\<forall>h \<in> set hs. reads own c h) \<and> unread c \<and> sent_ok own c \<and> distinct (reader_chans hs)"

lemma readsD:
  assumes "data_ok own c hs" and "h \<in> set hs" and "i_rx h = Some (ch, chunk)"
  shows "own ch = i_path h" "ch < fresh (c_index c)"
    "\<exists>sub. get_sub (c_index c) (i_path h) = Some sub \<and> rx sub = None \<and> tx_ok (c_index c) sub ch"
    "c_read c ch @ chunk @ concat (c_bufs c ch) = sent_to c ch"
  using assms unfolding data_ok_def reads_def by blast+

lemma sent_to_fresh:
  assumes "sent_ok own c" and "ch \<ge> fresh (c_index c)"
  shows "sent_to c ch = []"
proof -
  have "filter (\<lambda>(p, ch', d). ch' = ch) (c_sent c) = []"
    using assms by (auto simp: sent_ok_def filter_empty_conv)
  then show ?thesis by (simp add: sent_to_def)
qed

lemma reader_chans_simps [simp]:
  "reader_chans [] = []" "reader_chans (hs @ hs') = reader_chans hs @ reader_chans hs'"
  "reader_chans (h # hs) = (case i_rx h of None \<Rightarrow> reader_chans hs | Some (ch, x) \<Rightarrow> ch # reader_chans hs)"
  by (auto simp: reader_chans_def map_filter_def split: option.splits)

lemma reader_chans_iff: "ch \<in> set (reader_chans hs) \<longleftrightarrow> (\<exists>h \<in> set hs. \<exists>x. i_rx h = Some (ch, x))"
  by (induction hs) (auto split: option.splits)

text \<open>Changing the index alone.\<close>

lemma data_ok_evolves:
  assumes d: "data_ok own c hs" and ev: "evolves np T (c_index c) s'"
    and live: "\<And>h. h \<in> set hs \<Longrightarrow> \<not> released s' (i_path h)"
    and c': "c_index c' = s'" "c_bufs c' = c_bufs c" "c_read c' = c_read c" "c_sent c' = c_sent c"
    and ph: "\<And>p ch n r. c_phase c' = Sending p ch n r \<Longrightarrow> ch < fresh s' \<and> own_after own (c_index c) np ch = p"
  shows "data_ok (own_after own (c_index c) np) c' hs"
proof -
  let ?own = "own_after own (c_index c) np"
  note E = evolvesD [OF ev]
  have so: "sent_ok own c" and un: "unread c" and rd: "\<And>h. h \<in> set hs \<Longrightarrow> reads own c h" and di: "distinct (reader_chans hs)"
    using d by (auto simp: data_ok_def)
  have st: "sent_to c' ch = sent_to c ch" for ch by (simp add: sent_to_def c')
  have old: "?own ch = own ch" if "ch < fresh (c_index c)" for ch using that by (simp add: own_after_def)
  have tk: "tx_ok s' sub' ch" if "tx_ok (c_index c) sub ch" "tx sub' = tx sub" for sub sub' ch
    using that E(2) by (simp add: tx_ok_def)
  have "reads ?own c' h" if h: "h \<in> set hs" for h
    unfolding reads_def
  proof (intro allI impI)
    fix ch chunk
    assume rx: "i_rx h = Some (ch, chunk)"
    with rd [OF h] obtain sub where r: "own ch = i_path h" "ch < fresh (c_index c)"
      "get_sub (c_index c) (i_path h) = Some sub" "rx sub = None" "tx_ok (c_index c) sub ch"
      "c_read c ch @ chunk @ concat (c_bufs c ch) = sent_to c ch"
      by (auto simp: reads_def)
    from E(9) [of "i_path h"] r(3) live [OF h] obtain sub' where s': "get_sub s' (i_path h) = Some sub'" by auto
    from E(7) [OF r(3) s'] r(4) have "tx sub' = tx sub" "rx sub' = None" by (auto simp: same_slots_def)
    with tk [OF r(5)] s' r old [OF r(2)] E(1)
    show "?own ch = i_path h \<and> ch < fresh (c_index c') \<and>
      (\<exists>sub. get_sub (c_index c') (i_path h) = Some sub \<and> rx sub = None \<and> tx_ok (c_index c') sub ch) \<and>
      c_read c' ch @ chunk @ concat (c_bufs c' ch) = sent_to c' ch"
      by (simp add: c' st)
  qed
  moreover have "unread c'"
    unfolding unread_def
  proof (intro allI impI, elim conjE)
    fix p sub' ch
    assume s': "get_sub (c_index c') p = Some sub'" "rx sub' = Some ch"
    show "tx_ok (c_index c') sub' ch \<and> c_read c' ch = [] \<and> concat (c_bufs c' ch) = sent_to c' ch"
    proof (cases "get_sub (c_index c) p")
      case None
      from E(8) [OF None] s' obtain f where f: "fresh_sub np (c_index c) p f" "tx sub' = tx f" "rx f = Some ch"
        by (auto simp: c' same_slots_def)
      from f(1) show ?thesis
      proof (cases rule: fresh_subE)
        case (new i)
        then have ge: "ch \<ge> fresh (c_index c)" using f(3) by simp
        then have "c_bufs c ch = [] \<and> c_read c ch = []" using so by (simp add: sent_ok_def)
        with new f sent_to_fresh [OF so ge] E(2) show ?thesis by (auto simp: c' st tx_ok_def split: if_splits)
      qed (use f(3) in simp)
    next
      case (Some sub)
      from E(7) [OF Some] s' have "tx sub' = tx sub" "rx sub = Some ch" by (auto simp: c' same_slots_def)
      with un Some tk [of sub ch sub'] show ?thesis by (auto simp: unread_def c' st)
    qed
  qed
  moreover have "sent_ok ?own c'"
    unfolding sent_ok_def
  proof (intro conjI)
    show "\<forall>(p, ch, d) \<in> set (c_sent c'). ch < fresh (c_index c') \<and> ?own ch = p"
      using so old E(1) by (auto simp: sent_ok_def c')
    show "\<forall>ch. prefix (c_read c' ch) (sent_to c' ch)" using so by (simp add: sent_ok_def c' st)
    show "\<forall>ch \<ge> fresh (c_index c'). c_bufs c' ch = [] \<and> c_read c' ch = []" using so E(1) by (simp add: sent_ok_def c')
    show "\<forall>p ch n r. c_phase c' = Sending p ch n r \<longrightarrow> ch < fresh (c_index c') \<and> ?own ch = p" using ph by (simp add: c')
  qed
  ultimately show ?thesis using di by (simp add: data_ok_def)
qed

lemma data_ok_slots:
  assumes d: "data_ok own c hs" and fr: "fresh s' = fresh (c_index c)" and cl: "closed (c_index c) \<Longrightarrow> closed s'"
    and keys: "\<And>p. get_sub s' p = None \<longleftrightarrow> get_sub (c_index c) p = None"
    and slots: "\<And>p sub sub'. get_sub (c_index c) p = Some sub \<Longrightarrow> get_sub s' p = Some sub' \<Longrightarrow>
      (tx sub' = tx sub \<or> tx sub' = Some Closed \<or> tx sub' = None \<and> closed s') \<and> (rx sub' = rx sub \<or> rx sub' = None)"
    and c': "c_index c' = s'" "c_bufs c' = c_bufs c" "c_read c' = c_read c" "c_sent c' = c_sent c"
    and ph: "\<And>p ch n r. c_phase c' = Sending p ch n r \<Longrightarrow> ch < fresh s' \<and> own ch = p"
  shows "data_ok own c' hs"
proof -
  have st: "sent_to c' ch = sent_to c ch" for ch by (simp add: sent_to_def c')
  have tk: "tx_ok s' sub' ch" if "get_sub (c_index c) p = Some sub" "get_sub s' p = Some sub'" "tx_ok (c_index c) sub ch" for p sub sub' ch
    using slots [OF that(1,2)] that(3) cl by (auto simp: tx_ok_def)
  have rd: "reads own c h" if "h \<in> set hs" for h using d that by (simp add: data_ok_def)
  have "reads own c' h" if h: "h \<in> set hs" for h
    unfolding reads_def
  proof (intro allI impI)
    fix ch chunk
    assume rx: "i_rx h = Some (ch, chunk)"
    with rd [OF h] obtain sub where r: "own ch = i_path h" "ch < fresh (c_index c)"
      "get_sub (c_index c) (i_path h) = Some sub" "rx sub = None" "tx_ok (c_index c) sub ch"
      "c_read c ch @ chunk @ concat (c_bufs c ch) = sent_to c ch"
      by (auto simp: reads_def)
    obtain sub' where s': "get_sub s' (i_path h) = Some sub'" using keys [of "i_path h"] r(3) by (cases "get_sub s' (i_path h)") auto
    from slots [OF r(3) s'] r(4) have "rx sub' = None" by auto
    with tk [OF r(3) s' r(5)] r s' show "own ch = i_path h \<and> ch < fresh (c_index c') \<and>
      (\<exists>sub. get_sub (c_index c') (i_path h) = Some sub \<and> rx sub = None \<and> tx_ok (c_index c') sub ch) \<and>
      c_read c' ch @ chunk @ concat (c_bufs c' ch) = sent_to c' ch"
      by (simp add: c' st fr)
  qed
  moreover have "unread c'"
    unfolding unread_def
  proof (intro allI impI, elim conjE)
    fix p sub' ch
    assume s': "get_sub (c_index c') p = Some sub'" "rx sub' = Some ch"
    then obtain sub where s: "get_sub (c_index c) p = Some sub" using keys [of p] by (cases "get_sub (c_index c) p") (auto simp: c')
    from slots [OF s] s' have "rx sub = Some ch" by (auto simp: c')
    with d s have u: "tx_ok (c_index c) sub ch" "c_read c ch = []" "concat (c_bufs c ch) = sent_to c ch"
      by (auto simp: data_ok_def unread_def)
    with tk [OF s _ u(1)] s'(1) show "tx_ok (c_index c') sub' ch \<and> c_read c' ch = [] \<and> concat (c_bufs c' ch) = sent_to c' ch"
      by (simp add: c' st)
  qed
  moreover have "sent_ok own c'"
    using d ph unfolding data_ok_def sent_ok_def by (auto simp: c' st fr)
  ultimately show ?thesis using d by (simp add: data_ok_def)
qed

section \<open>The invariant of a connection\<close>

definition index_good :: "pattern set \<Rightarrow> conn \<Rightarrow> incoming list \<Rightarrow> bool" where
  "index_good P c hs \<longleftrightarrow>
    subs_inv P (c_index c) \<and> permit_inv (of_bool (c_permit c)) (c_index c) \<and>
    handles_ok (c_index c) (map i_path hs) \<and> (hs \<noteq> [] \<longrightarrow> untaken (c_index c))"

definition static :: "pattern set \<Rightarrow> (chan \<Rightarrow> path) \<Rightarrow> conn \<Rightarrow> incoming list \<Rightarrow> bool" where
  "static P own c hs \<longleftrightarrow> index_good P c hs \<and> chans_ok own (c_index c) \<and> data_ok own c hs"

lemma staticD:
  assumes "static P own c hs"
  shows "subs_inv P (c_index c)" "permit_inv (of_bool (c_permit c)) (c_index c)" "handles_ok (c_index c) (map i_path hs)"
    "hs \<noteq> [] \<Longrightarrow> untaken (c_index c)" "chans_ok own (c_index c)" "data_ok own c hs"
  using assms by (simp_all add: static_def index_good_def)

lemma staticI:
  assumes "subs_inv P (c_index c)" "permit_inv (of_bool (c_permit c)) (c_index c)" "handles_ok (c_index c) (map i_path hs)"
    "hs \<noteq> [] \<Longrightarrow> untaken (c_index c)" "chans_ok own (c_index c)" "data_ok own c hs"
  shows "static P own c hs"
  using assms by (simp add: static_def index_good_def)

lemma untaken_slots:
  assumes "untaken s" and "patterns s' = patterns s" and "count s' = count s"
    and "\<And>p sub'. get_sub s' p = Some sub' \<Longrightarrow> \<exists>sub. get_sub s p = Some sub \<and> rx sub' = rx sub"
  shows "untaken s'"
  unfolding untaken_def
proof (intro allI impI, elim conjE)
  fix p sub'
  assume p: "get_sub s' p = Some sub'" "declared_at s' p" "rx sub' = None"
  with assms(4) obtain sub where "get_sub s p = Some sub" "rx sub = None" by fastforce
  with p(2) assms(1) declared_at_patterns [OF assms(2)] have "indexed s p" by (auto simp: untaken_def)
  then show "indexed s' p"
    using is_element_patterns [OF assms(2)] by (simp add: indexed_def claimed_count assms(3))
qed

text \<open>Steps that change the slots of subscriptions, permits, errors or the phase.\<close>

lemma static_slots:
  assumes st: "static P own c hs"
    and s': "c_index c' = s'" "fresh s' = fresh (c_index c)" "closed (c_index c) \<Longrightarrow> closed s'"
      "patterns s' = patterns (c_index c)" "next_index s' = next_index (c_index c)"
      "subs_inv P s'" "permit_inv (of_bool (c_permit c')) s'"
    and sub: "\<And>p. rel_option (\<lambda>sub sub'. (tx sub' = tx sub \<or> tx sub' = Some Closed \<or> tx sub' = None \<and> closed s') \<and>
      (rx sub' = rx sub \<or> hs = [] \<and> rx sub' = None) \<and> handles sub' = handles sub) (get_sub (c_index c) p) (get_sub s' p)"
    and c': "c_bufs c' = c_bufs c" "c_read c' = c_read c" "c_sent c' = c_sent c"
    and ph: "\<And>p ch n r. c_phase c' = Sending p ch n r \<Longrightarrow> c_phase c = Sending p ch n r \<or> ch < fresh s' \<and> own ch = p"
  shows "static P own c' hs"
proof -
  note D = staticD [OF st]
  have keys: "get_sub s' p = None \<longleftrightarrow> get_sub (c_index c) p = None" for p
    using sub [of p] by (auto simp: option_rel_Some1 elim: option.rel_cases)
  have slots: "(tx sub' = tx sub \<or> tx sub' = Some Closed \<or> tx sub' = None \<and> closed s') \<and>
      (rx sub' = rx sub \<or> hs = [] \<and> rx sub' = None) \<and> handles sub' = handles sub"
    if "get_sub (c_index c) p = Some sub" "get_sub s' p = Some sub'" for p sub sub'
    using sub [of p] that by simp
  have cnt: "count s' = count (c_index c)"
  proof
    fix q
    show "count s' q = count (c_index c) q"
    proof (cases "get_sub (c_index c) q")
      case None
      then show ?thesis using keys [of q] by (simp add: count_def)
    next
      case (Some sub)
      then obtain sub' where sub': "get_sub s' q = Some sub'" using keys [of q] by (cases "get_sub s' q") auto
      with slots [OF Some sub'] Some show ?thesis by (simp add: count_def)
    qed
  qed
  show ?thesis
  proof (rule staticI)
    show "subs_inv P (c_index c')" "permit_inv (of_bool (c_permit c')) (c_index c')" using s' by simp_all
    show "handles_ok (c_index c') (map i_path hs)"
      unfolding s'(1) by (rule handles_okI [OF s'(4)]) (use handles_okD(1,2) [OF D(3)] cnt in \<open>simp_all\<close>)
    show "untaken (c_index c')" if "hs \<noteq> []"
      unfolding s'(1)
    proof (rule untaken_slots [OF D(4) s'(4) cnt])
      show "\<exists>sub. get_sub (c_index c) p = Some sub \<and> rx sub' = rx sub" if "get_sub s' p = Some sub'" for p sub'
        using keys [of p] slots [of p _ sub'] that \<open>hs \<noteq> []\<close> by (cases "get_sub (c_index c) p") auto
    qed (use that in simp)
    show "chans_ok own (c_index c')"
      unfolding s'(1) by (rule chans_ok_slots [OF D(5) s'(2,4,5) keys]) (use slots in fastforce)
    show "data_ok own c' hs"
    proof (rule data_ok_slots [OF D(6) s'(2,3) keys _ s'(1) c'])
      show "ch < fresh s' \<and> own ch = p" if "c_phase c' = Sending p ch n r" for p ch n r
        using ph [OF that] D(6) s'(2) by (auto simp: data_ok_def sent_ok_def)
      show "(tx sub' = tx sub \<or> tx sub' = Some Closed \<or> tx sub' = None \<and> closed s') \<and> (rx sub' = rx sub \<or> rx sub' = None)"
        if "get_sub (c_index c) p = Some sub" "get_sub s' p = Some sub'" for p sub sub'
        using slots [OF that] by auto
    qed
  qed
qed

lemma static_same:
  assumes st: "static P own c hs" and "c_index c' = (c_index c)\<lparr>available := a\<rparr>"
    and "permit_inv (of_bool (c_permit c')) ((c_index c)\<lparr>available := a\<rparr>)"
    and "c_bufs c' = c_bufs c" "c_read c' = c_read c" "c_sent c' = c_sent c"
    and "\<And>p ch n r. c_phase c' = Sending p ch n r \<Longrightarrow> c_phase c = Sending p ch n r \<or> ch < fresh (c_index c) \<and> own ch = p"
  shows "static P own c' hs"
proof (rule static_slots [OF st assms(2)])
  show "subs_inv P ((c_index c)\<lparr>available := a\<rparr>)" using available_facts [OF refl staticD(1) [OF st]] by blast
qed (use assms in \<open>auto simp: option.rel_refl\<close>)

lemma static_index:
  assumes st: "static P own c hs" and "c_index c' = c_index c" and "c_permit c' = c_permit c"
    and "c_bufs c' = c_bufs c" "c_read c' = c_read c" "c_sent c' = c_sent c"
    and "\<And>p ch n r. c_phase c' = Sending p ch n r \<Longrightarrow> c_phase c = Sending p ch n r \<or> ch < fresh (c_index c) \<and> own ch = p"
  shows "static P own c' hs"
  by (rule static_same [OF st, where a = "available (c_index c)"]) (use assms staticD(2) [OF st] in auto)

lemma static_drop_permit:
  assumes "static P own c hs"
  shows "static P own (drop_permit c) hs"
proof (cases "c_permit c")
  case True
  show ?thesis
    by (rule static_same [OF assms, where a = "available (c_index c) + 1"])
      (use True staticD(2) [OF assms] in \<open>simp_all add: drop_permit_def permit_inv_def\<close>)
qed (use assms in \<open>simp add: drop_permit_def\<close>)

text \<open>Steps that subscribe or release.\<close>

lemma data_evolves:
  assumes st: "static P own c hs" and ev: "evolves np T (c_index c) (c_index c')" and inv: "subs_inv P (c_index c')"
    and h: "handles_ok (c_index c') ps" "set (map i_path hs) \<subseteq> set ps"
    and c': "c_bufs c' = c_bufs c" "c_read c' = c_read c" "c_sent c' = c_sent c"
    and ph: "\<And>p ch n r. c_phase c' = Sending p ch n r \<Longrightarrow> c_phase c = Sending p ch n r"
  shows "chans_ok (own_after own (c_index c) np) (c_index c')" and "data_ok (own_after own (c_index c) np) c' hs"
proof -
  note D = staticD [OF st]
  show "chans_ok (own_after own (c_index c) np) (c_index c')" by (rule evolves_chans_ok [OF D(5) ev inv(1)])
  show "data_ok (own_after own (c_index c) np) c' hs"
  proof (rule data_ok_evolves [OF D(6) ev _ refl c'])
    show "\<not> released (c_index c') (i_path g)" if "g \<in> set hs" for g using handles_okD(4) [OF h(1)] h(2) that by auto
    show "ch < fresh (c_index c') \<and> own_after own (c_index c) np ch = p" if "c_phase c' = Sending p ch n r" for p ch n r
      using ph [OF that] D(6) evolvesD(1) [OF ev] by (auto simp: data_ok_def sent_ok_def own_after_def)
  qed
qed

lemma static_evolves:
  assumes st: "static P own c hs" and ev: "evolves np T (c_index c) (c_index c')"
    and inv: "subs_inv P (c_index c')" "permit_inv (of_bool (c_permit c')) (c_index c')"
    and h: "handles_ok (c_index c') (map i_path hs)" and un: "hs \<noteq> [] \<Longrightarrow> untaken (c_index c')"
    and c': "c_bufs c' = c_bufs c" "c_read c' = c_read c" "c_sent c' = c_sent c"
    and ph: "\<And>p ch n r. c_phase c' = Sending p ch n r \<Longrightarrow> c_phase c = Sending p ch n r"
  shows "static P (own_after own (c_index c) np) c' hs"
  using staticI [OF inv h un] data_evolves [OF st ev inv(1) h order_refl c' ph] by blast

definition stage_ok :: "conn \<Rightarrow> bool" where
  "stage_ok c \<longleftrightarrow>
    (closed (c_index c) \<longrightarrow> c_reported c) \<and>
    (c_reported c \<longrightarrow> (\<exists>r. c_phase c = Returned r \<and> (\<forall>e. r = Inl e \<longrightarrow> c_err c \<noteq> None))) \<and>
    (\<forall>p n r. c_phase c = Waiting p n r \<longrightarrow> \<not> c_permit c)"

definition conn_ok :: "pattern set \<Rightarrow> wasm_tokio \<Rightarrow> frame list \<Rightarrow> bytes \<Rightarrow> conn \<times> incoming list \<Rightarrow> bool" where
  "conn_ok P W fs b st \<longleftrightarrow>
    (\<exists>own. static P own (fst st) (snd st)) \<and> stage_ok (fst st) \<and> progress W fs b (fst st)"

lemma conn_okI:
  "static P own c hs \<Longrightarrow> stage_ok c \<Longrightarrow> progress W fs b c \<Longrightarrow> conn_ok P W fs b (c, hs)"
  unfolding conn_ok_def by auto

lemma route_unclaimed:
  assumes "route s path pm = (s', pm', RouteUnclaimed)"
  shows "\<not> pm'"
proof -
  have tx: "route_tx t path \<noteq> RouteUnclaimed" for t by (simp add: route_tx_def split: option.splits)
  have re: "\<not> v" if "route_elements path pat ks t pm = (u, v, Some RouteUnclaimed)" for pat ks t pm u v
    using that by (induction path pat ks t pm rule: route_elements.induct) (auto simp: Let_def split: if_splits prod.splits)
  with assms tx show ?thesis by (auto simp: route_def Let_def dest: re split: if_splits option.splits prod.splits)
qed

lemma static_route:
  assumes st: "static P own c hs" and rt: "route (c_index c) p (c_permit c) = (s, pm, res)"
  obtains np where "evolves np {} (c_index c) s"
    "static P (own_after own (c_index c) np) (c\<lparr>c_index := s, c_permit := pm, c_phase := Returned (Inl e)\<rparr>) hs"
proof -
  note D = staticD [OF st]
  obtain np where ev: "evolves np {} (c_index c) s" using route_evolves [OF D(1,2) rt] by blast
  have F: "subs_inv P s" "permit_inv (of_bool pm) s" "patterns s = patterns (c_index c)"
    using route_facts [OF D(1,2) rt] by blast+
  have cnt: "count s = count (c_index c)" using route_grows [OF subs_invD(1) [OF D(1)] rt] by blast
  have "handles_ok s (map i_path hs)"
    by (rule handles_okI [OF F(3)]) (use handles_okD(1,2) [OF D(3)] cnt in simp_all)
  moreover have "untaken s" if "hs \<noteq> []"
    by (rule untaken_evolves [OF D(4) [OF that] ev F(1)]) (use cnt in \<open>simp_all add: claimed_count\<close>)
  ultimately have "static P (own_after own (c_index c) np) (c\<lparr>c_index := s, c_permit := pm, c_phase := Returned (Inl e)\<rparr>) hs"
    using F by (intro static_evolves [OF st, of np "{}"]) (simp_all add: ev)
  with ev that show ?thesis by blast
qed

lemma static_close_path:
  assumes st: "static P own c hs"
  shows "static P own (c\<lparr>c_index := close_path p (c_index c), c_phase := Frames r\<rparr>) hs"
proof (rule static_slots [OF st])
  note F = close_path_facts [OF staticD(1,2) [OF st], of p]
  show "subs_inv P (close_path p (c_index c))" using F by blast
  show "permit_inv (of_bool (c_permit (c\<lparr>c_index := close_path p (c_index c), c_phase := Frames r\<rparr>))) (close_path p (c_index c))"
    using F by simp
  show "rel_option (\<lambda>sub sub'. (tx sub' = tx sub \<or> tx sub' = Some Closed \<or> tx sub' = None \<and> closed (close_path p (c_index c))) \<and>
      (rx sub' = rx sub \<or> hs = [] \<and> rx sub' = None) \<and> handles sub' = handles sub)
      (get_sub (c_index c) q) (get_sub (close_path p (c_index c)) q)" for q
    by (cases "get_sub (c_index c) q") (auto simp: close_path_shape(1))
qed (simp_all add: close_path_shape)

lemma ingress_route:
  assumes st: "static P own c hs" and sg: "stage_ok c" and nr: "\<not> c_reported c"
  shows "(\<exists>own. static P own (route_frame p n r c) hs) \<and> stage_ok (route_frame p n r c)"
proof -
  obtain s pm res where rt: "route (c_index c) p (c_permit c) = (s, pm, res)" by (metis prod_cases3)
  obtain np where ev: "evolves np {} (c_index c) s"
    and s1: "static P (own_after own (c_index c) np) (c\<lparr>c_index := s, c_permit := pm, c_phase := Returned (Inl NotFound)\<rparr>) hs"
    using static_route [OF st rt] by blast
  let ?own = "own_after own (c_index c) np" and ?c = "c\<lparr>c_index := s, c_permit := pm, c_phase := Returned (Inl NotFound)\<rparr>"
  have cl: "\<not> closed s" using evolvesD(2) [OF ev] sg nr by (simp add: stage_ok_def)
  from rt show ?thesis
  proof (cases rule: route_frame_cases [where n = n and r = r])
    case (error e)
    have "static P ?own (route_frame p n r c) hs"
      unfolding error by (rule static_index [OF static_drop_permit [OF s1]]) (simp_all add: drop_permit_def)
    moreover have "stage_ok (route_frame p n r c)" using cl nr by (simp add: error stage_ok_def)
    ultimately show ?thesis by blast
  next
    case (close ch)
    have "static P ?own (route_frame p n r c) hs"
      unfolding close(3)
      by (rule static_index [OF static_drop_permit [OF static_close_path [OF s1, where p = p and r = r]]]) (simp_all add: drop_permit_def)
    moreover have "stage_ok (route_frame p n r c)"
      using cl nr by (simp add: close(3) stage_ok_def close_path_shape)
    ultimately show ?thesis by blast
  next
    case (send ch)
    obtain sub where sub: "get_sub s p = Some sub" "tx sub = Some (Open ch)"
      using route_open [OF rt [unfolded send(1)]] by blast
    have "ch < fresh s \<and> ?own ch = p"
      using chans_okD(1) [OF staticD(5) [OF s1]] sub by simp
    then have "static P ?own (route_frame p n r c) hs"
      unfolding send(3) by (intro static_index [OF static_drop_permit [OF s1]]) (simp_all add: drop_permit_def)
    moreover have "stage_ok (route_frame p n r c)" using cl nr by (simp add: send(3) stage_ok_def)
    ultimately show ?thesis by blast
  next
    case wait
    have "static P ?own (route_frame p n r c) hs" unfolding wait(2) by (rule static_index [OF s1]) simp_all
    moreover have "stage_ok (route_frame p n r c)"
    proof -
      have "\<not> pm" using route_unclaimed [OF rt [unfolded wait(1)]] .
      then show ?thesis using cl nr by (simp add: wait(2) stage_ok_def)
    qed
    ultimately show ?thesis by blast
  qed
qed

lemma static_data:
  assumes "static P own c hs" and "c_index c' = c_index c" and "c_permit c' = c_permit c" and "map i_path hs' = map i_path hs"
    and "data_ok own c' hs'"
  shows "static P own c' hs'"
proof (rule staticI)
  note D = staticD [OF assms(1)]
  have "hs' = [] \<longleftrightarrow> hs = []" using assms(4) by (metis map_is_Nil_conv)
  then show "untaken (c_index c')" if "hs' \<noteq> []" using that D(4) by (simp add: assms(2))
qed (use assms staticD [OF assms(1)] in simp_all)

lemma static_send_chunk:
  assumes st: "static P own c hs" and ph: "c_phase c = Sending p ch n r"
    and c': "c' = c\<lparr>c_phase := Sending p ch m r', c_bufs := (c_bufs c)(ch := c_bufs c ch @ [d]),
      c_sent := c_sent c @ [(p, ch, d)]\<rparr>"
  shows "static P own c' hs"
proof (rule static_data [OF st])
  have d: "data_ok own c hs" by (rule staticD [OF st])
  have s: "sent_to c' x = sent_to c x @ (if x = ch then d else [])" for x
    by (rule sent_to_chunk) (simp add: c')
  have own: "ch < fresh (c_index c)" "own ch = p" using d ph by (auto simp: data_ok_def sent_ok_def)
  have b: "concat (c_bufs c' x) = concat (c_bufs c x) @ (if x = ch then d else [])" for x by (simp add: c')
  have i: "c_index c' = c_index c" "c_read c' = c_read c" by (simp_all add: c')
  have "reads own c' h" if "h \<in> set hs" for h
    using d that unfolding data_ok_def reads_def i b s by auto
  moreover have "unread c'" using d unfolding data_ok_def unread_def i b s by auto
  moreover have "sent_ok own c'"
    unfolding sent_ok_def
  proof (intro conjI)
    have so: "sent_ok own c" using d by (simp add: data_ok_def)
    show "\<forall>(p, ch, d) \<in> set (c_sent c'). ch < fresh (c_index c') \<and> own ch = p"
      using so own by (auto simp: sent_ok_def c')
    show "\<forall>x. prefix (c_read c' x) (sent_to c' x)" using so by (auto simp: sent_ok_def s i)
    show "\<forall>x \<ge> fresh (c_index c'). c_bufs c' x = [] \<and> c_read c' x = []" using so own by (auto simp: sent_ok_def c')
    show "\<forall>p ch n r. c_phase c' = Sending p ch n r \<longrightarrow> ch < fresh (c_index c') \<and> own ch = p" using own by (simp add: c')
  qed
  ultimately show "data_ok own c' hs" using d by (simp add: data_ok_def)
qed (simp_all add: c')

lemma ingress_static:
  assumes "ingress W cap c c'" and st: "static P own c hs" and sg: "stage_ok c" and nr: "\<not> c_reported c"
  shows "(\<exists>own. static P own c' hs) \<and> stage_ok c'"
  using assms(1)
proof cases
  case (Read_Frame r)
  have "static P own c' hs"
    unfolding Read_Frame(1)
    by (rule static_index [OF st]) (simp_all add: next_frame_def split: sum.splits option.splits prod.splits)
  moreover have "stage_ok c'"
    using sg nr by (simp add: Read_Frame(1) stage_ok_def next_frame_def split: sum.splits option.splits prod.splits)
  ultimately show ?thesis by blast
next
  case (Route_Frame p n r)
  then show ?thesis using ingress_route [OF st sg nr] by simp
next
  case (Acquired p n r)
  have "\<not> c_permit c" using sg Acquired(2) by (simp add: stage_ok_def)
  then have "static P own c' hs"
    using staticD(2) [OF st] Acquired(4) unfolding Acquired(1)
    by (intro static_same [OF st, where a = "available (c_index c) - 1"]) (simp_all add: permit_inv_def)
  moreover have "stage_ok c'" using sg nr by (simp add: Acquired(1) stage_ok_def)
  ultimately show ?thesis by blast
next
  case (Acquire_Closed p n r)
  have "static P own c' hs" unfolding Acquire_Closed(1) by (rule static_index [OF st]) simp_all
  moreover have "stage_ok c'" using sg nr by (simp add: Acquire_Closed(1) stage_ok_def)
  ultimately show ?thesis by blast
next
  case (Notified p n r)
  have "static P own c' hs" unfolding Notified(1) by (rule static_index [OF st]) simp_all
  moreover have "stage_ok c'" using sg nr by (simp add: Notified(1) stage_ok_def)
  ultimately show ?thesis by blast
next
  case (Send_Chunk p ch n r)
  consider (frames) "c' = c\<lparr>c_phase := Frames r\<rparr>" | (error) e where "c' = c\<lparr>c_phase := Returned (Inl e)\<rparr>"
    | (sent) "c' = c\<lparr>c_phase := Sending p ch (n - min n cap) (drop (min n cap) r),
            c_bufs := (c_bufs c)(ch := c_bufs c ch @ [take (min n cap) r]),
            c_sent := c_sent c @ [(p, ch, take (min n cap) r)]\<rparr>"
    using Send_Chunk(2) by (auto simp: send_chunk_def Let_def split: if_splits)
  then have "static P own c' hs"
  proof cases
    case frames
    show ?thesis unfolding frames by (rule static_index [OF st]) simp_all
  next
    case error
    show ?thesis unfolding error by (rule static_index [OF st]) simp_all
  next
    case sent
    show ?thesis by (rule static_send_chunk [OF st Send_Chunk(1) sent])
  qed
  moreover have "stage_ok c'"
    using Send_Chunk(2) sg nr by (auto simp: stage_ok_def send_chunk_def Let_def split: if_splits)
  ultimately show ?thesis by blast
qed

section \<open>Operations of the handles\<close>

lemma data_ok_remove: "data_ok own c (hs @ h # hs') \<Longrightarrow> data_ok own c (hs @ hs')"
  by (auto simp: data_ok_def split: option.splits)

lemma data_ok_add:
  assumes "data_ok own c hs" and "reads own c h" and "\<And>ch x. i_rx h = Some (ch, x) \<Longrightarrow> ch \<notin> set (reader_chans hs)"
  shows "data_ok own c (hs @ [h])"
  using assms by (auto simp: data_ok_def split: option.splits)

lemma reads_same:
  assumes "reads own c h" and "i_path h' = i_path h" and "i_rx h' = i_rx h \<or> i_rx h' = None"
  shows "reads own c h'"
  using assms by (auto simp: reads_def)

text \<open>Reading changes one channel, which no other handle and no subscription receives from.\<close>

lemma static_read:
  assumes st: "static P own c (hs @ h # hs')" and rx: "i_rx h = Some (ch, chunk)"
    and c': "c_index c' = c_index c" "c_permit c' = c_permit c" "c_sent c' = c_sent c" "c_phase c' = c_phase c"
      "c_bufs c' = (c_bufs c)(ch := bs)" "c_read c' = (c_read c)(ch := rd)"
    and eq: "rd @ chunk' @ concat bs = c_read c ch @ chunk @ concat (c_bufs c ch)"
    and h': "i_path h' = i_path h" "i_rx h' = Some (ch, chunk') \<or> i_rx h' = None"
  shows "static P own c' (hs @ h' # hs')"
proof (rule static_data [OF st c'(1,2)])
  note D = staticD [OF st]
  have d: "data_ok own c (hs @ h # hs')" by (rule D(6))
  have s: "sent_to c' x = sent_to c x" for x by (simp add: sent_to_def c')
  have rh: "reads own c h" using d by (simp add: data_ok_def)
  then have "c_read c ch @ chunk @ concat (c_bufs c ch) = sent_to c ch" using rx by (auto simp: reads_def)
  with eq have all: "rd @ chunk' @ concat bs = sent_to c ch" by simp
  have other: "reads own c' g" if "g \<in> set (hs @ hs')" for g
  proof -
    have "ch \<notin> set (reader_chans (hs @ hs'))" using d rx by (auto simp: data_ok_def)
    then have ne: "x \<noteq> ch" if "i_rx g = Some (x, y)" for x y
      using that \<open>g \<in> set (hs @ hs')\<close> reader_chans_iff by blast
    have "reads own c g" using d that by (auto simp: data_ok_def)
    with ne show ?thesis by (auto simp: reads_def c' s)
  qed
  have "reads own c' h'" using rh rx h' all by (auto simp: reads_def c' s)
  moreover have "unread c'"
    unfolding unread_def
  proof (intro allI impI, elim conjE)
    fix p sub x
    assume x: "get_sub (c_index c') p = Some sub" "rx sub = Some x"
    have "x \<noteq> ch"
    proof
      assume "x = ch"
      with chans_okD(1) [OF D(5), of p sub ch] x have "own ch = p" by (simp add: c')
      with rh rx x show False by (auto simp: reads_def c')
    qed
    with d x show "tx_ok (c_index c') sub x \<and> c_read c' x = [] \<and> concat (c_bufs c' x) = sent_to c' x"
      by (auto simp: data_ok_def unread_def c' s)
  qed
  moreover have "sent_ok own c'"
  proof -
    have so: "sent_ok own c" using d by (simp add: data_ok_def)
    have "ch < fresh (c_index c)" using rh rx by (auto simp: reads_def)
    moreover have "prefix rd (sent_to c ch)" using all by (metis prefixI)
    ultimately show ?thesis using so by (auto simp: sent_ok_def c' s)
  qed
  moreover have "distinct (reader_chans (hs @ h' # hs'))"
    using d rx h'(2) by (auto simp: data_ok_def)
  ultimately show "data_ok own c' (hs @ h' # hs')" using other by (auto simp: data_ok_def)
qed (simp add: h')

lemma concat_dropWhile: "concat (dropWhile (\<lambda>d. d = []) xs) = concat xs"
  by (induction xs) auto

text \<open>
  What reading does: it takes bytes off the chunks left, or finds none left and waits or ends; an end
  without an error is one after an empty frame or without an error of ingress.
\<close>

lemma poll_read_cases:
  assumes "poll_read h n c = (c', h', res)"
  obtains (same) "c' = c" "h' = h" "n = 0 \<or> i_rx h = None"
  | (data) ch chunk bs d chunk' where "i_rx h = Some (ch, chunk)"
      "chunk @ concat (c_bufs c ch) = d @ chunk' @ concat bs" "d \<noteq> []" "res = Ready (Inr d)"
      "c' = c\<lparr>c_bufs := (c_bufs c)(ch := bs), c_read := (c_read c)(ch := c_read c ch @ d)\<rparr>"
      "h' = h\<lparr>i_rx := Some (ch, chunk')\<rparr>"
  | (pending) ch where "i_rx h = Some (ch, [])" "concat (c_bufs c ch) = []" "res = Pending"
      "c' = c\<lparr>c_bufs := (c_bufs c)(ch := [])\<rparr>" "h' = h\<lparr>i_rx := Some (ch, [])\<rparr>"
  | (eof) ch where "i_rx h = Some (ch, [])" "concat (c_bufs c ch) = []" "\<not> sender_alive c ch"
      "res = Ready (Inr []) \<Longrightarrow> c_err c = None \<or> is_closed c (i_path h)"
      "c' = c\<lparr>c_bufs := (c_bufs c)(ch := []), c_closed := (c_closed c)(ch := True)\<rparr>" "h' = h\<lparr>i_rx := None\<rparr>"
proof (cases "n = 0 \<or> i_rx h = None")
  case True
  then have "c' = c" "h' = h" using assms by (auto simp: poll_read_def split: if_splits)
  then show ?thesis using True by (rule same)
next
  case False
  then obtain ch chunk where rx: "i_rx h = Some (ch, chunk)" and n: "n > 0" by auto
  show ?thesis
  proof (cases "chunk = []")
    case False
    then have "take n chunk \<noteq> []" using n by simp
    with assms rx n False show ?thesis
      by (intro data [of ch chunk "take n chunk" "drop n chunk" "c_bufs c ch"]) (auto simp: poll_read_def reader_poll_def)
  next
    case True
    show ?thesis
    proof (cases "dropWhile (\<lambda>d. d = []) (c_bufs c ch)")
      case Nil
      have e: "concat (c_bufs c ch) = []" using concat_dropWhile [of "c_bufs c ch"] Nil by simp
      show ?thesis
      proof (cases "sender_alive c ch")
        case True
        with assms rx n Nil e \<open>chunk = []\<close> show ?thesis by (intro pending [of ch]) (auto simp: poll_read_def reader_poll_def)
      next
        case False
        with assms rx n Nil e \<open>chunk = []\<close> show ?thesis
          by (intro eof [of ch]) (auto simp: poll_read_def reader_poll_def is_closed_def split: option.splits if_splits)
      qed
    next
      case (Cons d ds)
      have ne: "d \<noteq> []" using hd_dropWhile [of "\<lambda>d. d = []" "c_bufs c ch"] Cons by simp
      then have "take n d \<noteq> []" using n by simp
      moreover have "concat (c_bufs c ch) = d @ concat ds" using concat_dropWhile [of "c_bufs c ch"] Cons by simp
      ultimately show ?thesis using assms rx n Cons \<open>chunk = []\<close>
        by (intro data [of ch chunk "take n d" "drop n d" ds]) (auto simp: poll_read_def reader_poll_def)
    qed
  qed
qed

lemma static_poll_read:
  assumes st: "static P own c (hs @ h # hs')" and pr: "poll_read h n c = (c', h', res)"
  shows "static P own c' (hs @ h' # hs')"
  using pr
proof (cases rule: poll_read_cases)
  case same
  with st show ?thesis by simp
next
  case (data ch chunk bs d chunk')
  show ?thesis
    by (rule static_read [OF st data(1), where bs = bs and rd = "c_read c ch @ d" and chunk' = chunk'])
      (use data in simp_all)
next
  case (pending ch)
  show ?thesis
    by (rule static_read [OF st pending(1), where bs = "[]" and rd = "c_read c ch" and chunk' = "[]"])
      (use pending in simp_all)
next
  case (eof ch)
  show ?thesis
    by (rule static_read [OF st eof(1), where bs = "[]" and rd = "c_read c ch" and chunk' = "[]"])
      (use eof in simp_all)
qed

lemma poll_read_fields:
  "poll_read h n c = (c', h', res) \<Longrightarrow> c_index c' = c_index c \<and> c_phase c' = c_phase c \<and> c_sent c' = c_sent c \<and>
    c_err c' = c_err c \<and> c_reported c' = c_reported c \<and> c_permit c' = c_permit c"
  by (erule poll_read_cases) simp_all

lemma fail_fields [simp]:
  "c_index (fail_unprocessed c) = c_index c" "c_phase (fail_unprocessed c) = c_phase c" "c_sent (fail_unprocessed c) = c_sent c"
  "c_reported (fail_unprocessed c) = c_reported c" "c_permit (fail_unprocessed c) = c_permit c"
  "c_bufs (fail_unprocessed c) = c_bufs c" "c_read (fail_unprocessed c) = c_read c" "\<exists>e. c_err (fail_unprocessed c) = Some e"
  by (simp_all add: fail_unprocessed_def set_err_def split: option.splits)

lemma store_fields [simp]:
  "c_index (store s x c) = s" "c_phase (store s x c) = c_phase c" "c_sent (store s x c) = c_sent c"
  "c_reported (store s x c) = c_reported c" "c_permit (store s x c) = c_permit c"
  "c_bufs (store s x c) = c_bufs c" "c_read (store s x c) = c_read c" "c_err (store s x c) = c_err c"
  by (simp_all add: store_def)

text \<open>A handle operation changes nothing of ingress but the index, and can only add an error.\<close>

definition same_ingress :: "conn \<Rightarrow> conn \<Rightarrow> bool" where
  "same_ingress c c' \<longleftrightarrow> c_phase c' = c_phase c \<and> c_sent c' = c_sent c \<and> c_reported c' = c_reported c \<and>
    c_permit c' = c_permit c \<and> c_bufs c' = c_bufs c \<and> c_read c' = c_read c \<and> (c_err c \<noteq> None \<longrightarrow> c_err c' \<noteq> None)"

lemma same_ingress_ok:
  assumes "same_ingress c c'" and "evolves np T (c_index c) (c_index c')" and "stage_ok c" and "progress W fs b c"
  shows "stage_ok c'" and "progress W fs b c'"
proof -
  note E = evolvesD [OF assms(2)]
  show "stage_ok c'" using assms(1,3) E(2) unfolding stage_ok_def same_ingress_def by auto
  show "progress W fs b c'"
    by (rule progress_cong [OF assms(4)])
      (use assms(1) evolves_closed [OF assms(2)] in \<open>auto simp: same_ingress_def is_closed_def\<close>)
qed

text \<open>\<open>Incoming::index\<close>\<close>

lemma incoming_index_eq:
  assumes "path \<noteq> []" and "index_path (nonempty c) (c_index c) (i_path h @ path) = (s, u, r)"
  shows "same_ingress c (fst (incoming_index h path c))" and "c_index (fst (incoming_index h path c)) = s"
    and "snd (incoming_index h path c) = (case r of None \<Rightarrow> Inl NotFound
      | Some ch \<Rightarrow> Inr \<lparr>i_rx = map_option (\<lambda>x. (x, [])) ch, i_subscribed = (ch \<noteq> None), i_path = i_path h @ path\<rparr>)"
proof -
  obtain s1 where sk: "skip (nonempty c) (c_index c) (i_path h @ path) = (s1, u)"
    and tk: "take_rx s1 (i_path h @ path) = (s, r)"
    using assms(2) by (auto simp: index_path_def Let_def split: prod.splits)
  have p: "(if i_path h = [] then path else i_path h @ path) = i_path h @ path" by simp
  show "same_ingress c (fst (incoming_index h path c))" "c_index (fst (incoming_index h path c)) = s"
    "snd (incoming_index h path c) = (case r of None \<Rightarrow> Inl NotFound
      | Some ch \<Rightarrow> Inr \<lparr>i_rx = map_option (\<lambda>x. (x, [])) ch, i_subscribed = (ch \<noteq> None), i_path = i_path h @ path\<rparr>)"
    using assms(1) unfolding incoming_index_def p
    by (simp_all add: sk tk same_ingress_def split: option.splits)
qed

lemma same_ingressD:
  assumes "same_ingress c c'"
  shows "c_phase c' = c_phase c" "c_sent c' = c_sent c" "c_permit c' = c_permit c" "c_bufs c' = c_bufs c" "c_read c' = c_read c"
  using assms by (simp_all add: same_ingress_def)

lemma step_index_error:
  assumes ok: "conn_ok P W fs b (c, hs)" and h: "h \<in> set hs" and ix: "incoming_index h path c = (c', Inl e)"
  shows "conn_ok P W fs b (c', hs)"
proof (cases "path = []")
  case True
  then have "c' = c" using ix by (simp add: incoming_index_def)
  with ok show ?thesis by simp
next
  case False
  obtain own where st: "static P own c hs" and sg: "stage_ok c" and pg: "progress W fs b c" using ok by (auto simp: conn_ok_def)
  note D = staticD [OF st]
  obtain s u r where i: "index_path (nonempty c) (c_index c) (i_path h @ path) = (s, u, r)" by (metis prod_cases3)
  note I = incoming_index_eq [OF False i, unfolded ix fst_conv snd_conv]
  have "hs \<noteq> []" using h by auto
  from I(3) have r: "r = None" by (auto split: option.splits)
  note E = index_error [OF D(1,2) D(4) [OF \<open>hs \<noteq> []\<close>] i [unfolded r]]
  note S = same_ingressD [OF I(1)]
  have inv: "subs_inv P s" "permit_inv (of_bool (c_permit c)) s"
  proof -
    obtain s1 where sk: "skip (nonempty c) (c_index c) (i_path h @ path) = (s1, u)" and tk: "take_rx s1 (i_path h @ path) = (s, None)"
      using i r by (auto simp: index_path_def Let_def split: prod.splits)
    with skip_facts [OF D(1,2), of "nonempty c" "i_path h @ path"] take_rx_None [OF tk]
    show "subs_inv P s" "permit_inv (of_bool (c_permit c)) s" by simp_all
  qed
  have p: "patterns s = patterns (c_index c)" using evolvesD(3) [OF E(1)] .
  have hk: "handles_ok s (map i_path hs)"
    by (rule handles_okI [OF p]) (use handles_okD(1,2) [OF D(3)] E(2) in simp_all)
  have un: "untaken s"
    by (rule untaken_evolves [OF D(4) [OF \<open>hs \<noteq> []\<close>] E(1) inv(1)]) (use E(2) in \<open>simp_all add: claimed_count\<close>)
  have ev: "evolves [] {} (c_index c) (c_index c')" using E(1) I(2) by simp
  have "static P (own_after own (c_index c) []) c' hs"
    by (rule static_evolves [OF st ev]) (use inv hk un I(2) S in simp_all)
  moreover note same_ingress_ok [OF I(1) ev sg pg]
  ultimately show ?thesis by (rule conn_okI)
qed

lemma step_index:
  assumes ok: "conn_ok P W fs b (c, hs)" and h: "h \<in> set hs" and small: "\<forall>i \<in> set path. i < usize_max"
    and hp: "\<forall>g \<in> set hs. \<forall>i \<in> set (i_path g). i < usize_max" and ix: "incoming_index h path c = (c', Inr h')"
  shows "conn_ok P W fs b (c', hs @ [h'])"
proof -
  have np: "path \<noteq> []" using ix by (auto simp: incoming_index_def)
  obtain own where st: "static P own c hs" and sg: "stage_ok c" and pg: "progress W fs b c" using ok by (auto simp: conn_ok_def)
  note D = staticD [OF st]
  let ?p = "i_path h @ path"
  have sm: "\<forall>i \<in> set ?p. i < usize_max" using small hp h by auto
  have "hs \<noteq> []" using h by auto
  then have un: "untaken (c_index c)" by (rule D(4))
  obtain s u r0 where i0: "index_path (nonempty c) (c_index c) ?p = (s, u, r0)" by (metis prod_cases3)
  note I = incoming_index_eq [OF np i0, unfolded ix fst_conv snd_conv]
  from I(3) obtain r where r: "r0 = Some r"
    and h': "h' = \<lparr>i_rx = map_option (\<lambda>x. (x, [])) r, i_subscribed = (r \<noteq> None), i_path = ?p\<rparr>" by (auto split: option.splits)
  note i = i0 [unfolded r]
  note K = index_ok [OF D(1,2) un sm i]
  obtain nps where ev: "evolves nps {?p} (c_index c) s"
    and tk: "\<And>ch. r = Some ch \<Longrightarrow> \<exists>sub sub'. rx sub = Some ch \<and> get_sub s ?p = Some sub' \<and> rx sub' = None \<and> tx sub' = tx sub \<and>
        (get_sub (c_index c) ?p = Some sub \<or> get_sub (c_index c) ?p = None \<and> fresh_sub nps (c_index c) ?p sub)"
    using K(1) by blast
  note S = same_ingressD [OF I(1)]
  have inv: "subs_inv P s" "permit_inv (of_bool (c_permit c)) s"
    using index_path_facts(1,2) [OF D(1,2) sm, of "nonempty c"] i by simp_all
  have p: "patterns s = patterns (c_index c)" using evolvesD(3) [OF ev] .
  have hk: "handles_ok s (map i_path (hs @ [h']))"
  proof (rule handles_okI [OF p])
    show "resolve (c_index c) q \<noteq> None" if "q \<in> set (map i_path (hs @ [h']))" for q
      using that handles_okD(1) [OF D(3)] K(4) h' by auto
    show "count s q = length (filter (prefix q) (map i_path (hs @ [h'])))" if "is_element (c_index c) q" for q
      using K(3) [OF that] handles_okD(2) [OF D(3) that] h' by simp
  qed
  let ?own = "own_after own (c_index c) nps"
  have ev': "evolves nps {?p} (c_index c) (c_index c')" using ev I(2) by simp
  have "subs_inv P (c_index c')" "handles_ok (c_index c') (map i_path (hs @ [h']))" using inv hk I(2) by simp_all
  from data_evolves [OF st ev' this _ S(4,5,2)] S(1)
  have ch: "chans_ok ?own (c_index c')" and dk: "data_ok ?own c' hs" by auto
  have so: "sent_ok own c" and ur: "unread c" using D(6) by (simp_all add: data_ok_def)
  have st': "sent_to c' x = sent_to c x" for x by (simp add: sent_to_def S)
  have new: "reads ?own c' h' \<and> x \<notin> set (reader_chans hs)" if x: "r = Some x" for x
  proof -
    obtain sub sub' where sb: "rx sub = Some x" "get_sub s ?p = Some sub'" "rx sub' = None" "tx sub' = tx sub"
      "get_sub (c_index c) ?p = Some sub \<or> get_sub (c_index c) ?p = None \<and> fresh_sub nps (c_index c) ?p sub"
      using tk [OF x] by blast
    have "?own x = ?p \<and> x < fresh s \<and> tx_ok s sub' x \<and> c_read c x = [] \<and> concat (c_bufs c x) = sent_to c x \<and>
        x \<notin> set (reader_chans hs)"
      using sb(5)
    proof
      assume old: "get_sub (c_index c) ?p = Some sub"
      have "x < fresh (c_index c) \<and> own x = ?p" using chans_okD(1) [OF D(5) old] sb(1) by blast
      moreover have "tx_ok (c_index c) sub x \<and> c_read c x = [] \<and> concat (c_bufs c x) = sent_to c x"
        using ur old sb(1) by (auto simp: unread_def)
      moreover have "x \<notin> set (reader_chans hs)"
      proof
        assume "x \<in> set (reader_chans hs)"
        then obtain g y where g: "g \<in> set hs" "i_rx g = Some (x, y)" by (auto simp: reader_chans_iff)
        note R = readsD(1,3) [OF D(6) g]
        with old sb(1) \<open>x < fresh (c_index c) \<and> own x = ?p\<close> show False by auto
      qed
      ultimately show ?thesis using evolvesD(1,2) [OF ev] sb(4) by (auto simp: own_after_def tx_ok_def)
    next
      assume new: "get_sub (c_index c) ?p = None \<and> fresh_sub nps (c_index c) ?p sub"
      then have "fresh_sub nps (c_index c) ?p sub" by simp
      then show ?thesis
      proof (cases rule: fresh_subE)
        case (new i)
        then have xe: "x = fresh (c_index c) + i" using sb(1) by simp
        have "x \<notin> set (reader_chans hs)"
          using readsD(2) [OF D(6)] xe by (fastforce simp: reader_chans_iff)
        moreover have "c_bufs c x = [] \<and> c_read c x = []" using so xe by (simp add: sent_ok_def)
        moreover have "sent_to c x = []" using sent_to_fresh [OF so] xe by simp
        ultimately show ?thesis using new xe sb(4) evolvesD(1,2) [OF ev]
          by (auto simp: own_after_def tx_ok_def split: if_splits)
      qed (use sb(1) in simp)
    qed
    with sb(2,3) h' x show ?thesis by (auto simp: reads_def I(2) S st')
  qed
  have "reads ?own c' h'" using new h' by (cases r) (auto simp: reads_def)
  then have "data_ok ?own c' (hs @ [h'])"
    by (rule data_ok_add [OF dk]) (use new h' in auto)
  then have "static P ?own c' (hs @ [h'])"
    using inv hk ch K(6) I(2) S(3) by (intro staticI) simp_all
  moreover note same_ingress_ok [OF I(1) ev' sg pg]
  ultimately show ?thesis by (rule conn_okI)
qed

text \<open>\<open>Incoming::take_reader\<close>\<close>

lemma step_take:
  assumes ok: "conn_ok P W fs b (c, hs @ h # hs')" and tk: "take_reader h c = (c', h', Some g)"
  shows "conn_ok P W fs b (c', hs @ h' # hs' @ [g])"
proof -
  let ?hs = "hs @ h # hs'" and ?hs' = "hs @ h' # hs' @ [g]"
  obtain own where st: "static P own c ?hs" and sg: "stage_ok c" and pg: "progress W fs b c" using ok by (auto simp: conn_ok_def)
  note D = staticD [OF st]
  let ?s = "if i_path h = [] then c_index c else retain (c_index c) (i_path h)"
  have hg: "h' = h\<lparr>i_rx := None\<rparr>" "i_path g = i_path h" "i_rx g = i_rx h" "c_index c' = ?s" "same_ingress c c'"
    using tk by (auto simp: take_reader_def same_ingress_def split: option.splits if_splits)
  note S = same_ingressD [OF hg(5)]
  have hin: "i_path h \<in> set (map i_path ?hs)" by simp
  note res = handles_okD(1) [OF D(3) hin] and idx = handles_okD(3) [OF D(3) hin]
  have el: "\<not> is_element (c_index c) []"
    using subs_invD(1) [OF D(1)] by (auto simp: is_element_def resolve_iff matches_def split: option.splits)
  have un0: "untaken (c_index c)" by (rule D(4)) simp
  note R = retain_grows(2) [OF subs_invD(1) [OF D(1)] res idx] and F = retain_facts [OF D(1,2) idx]
  have cnt: "count ?s q = count (c_index c) q + of_bool (prefix q (i_path h))" if "is_element (c_index c) q" for q
    using R [of q] that el by (cases "q = []") auto
  have inv: "subs_inv P ?s" "permit_inv (of_bool (c_permit c)) ?s" "patterns ?s = patterns (c_index c)" using D(1,2) F by auto
  obtain np where ev: "evolves np {} (c_index c) ?s"
  proof (cases "i_path h = []")
    case True
    have "evolves [] {} (c_index c) (c_index c)" by (rule evolvesI) (auto simp: same_slots_def)
    with True that show ?thesis by simp
  next
    case False
    with retain_evolves [OF D(1,2) res idx] that show ?thesis by auto
  qed
  have hk: "handles_ok ?s (map i_path ?hs')"
    by (rule handles_okI [OF inv(3)]) (use handles_okD(1,2) [OF D(3)] cnt hg in auto)
  have un: "untaken ?s"
    by (rule untaken_evolves [OF un0 ev inv(1)])
      (use R in \<open>auto simp: claimed_count\<close>)
  let ?own = "own_after own (c_index c) np"
  have ev': "evolves np {} (c_index c) (c_index c')" using ev hg(4) by simp
  have "subs_inv P (c_index c')" "handles_ok (c_index c') (map i_path ?hs')" using inv hk hg(4) by simp_all
  from data_evolves [OF st ev' this _ S(4,5,2)] S(1) hg
  have ch: "chans_ok ?own (c_index c')" and dk: "data_ok ?own c' ?hs" by auto
  have rd: "reads ?own c' h" using dk by (simp add: data_ok_def)
  have "data_ok ?own c' ?hs'"
    using dk reads_same [OF rd, of h'] reads_same [OF rd, of g] hg(1-3)
    by (auto simp: data_ok_def split: option.splits)
  then have "static P ?own c' ?hs'"
    using inv hk ch un S(3) hg(4) by (intro staticI) simp_all
  moreover note same_ingress_ok [OF hg(5) ev' sg pg]
  ultimately show ?thesis by (rule conn_okI)
qed

text \<open>Dropping a handle.\<close>

lemma step_drop:
  assumes ok: "conn_ok P W fs b (c, hs @ h # hs')"
  shows "conn_ok P W fs b (incoming_drop h c, hs @ hs')"
proof -
  let ?hs = "hs @ h # hs'" and ?c = "incoming_drop h c"
  obtain own where st: "static P own c ?hs" and sg: "stage_ok c" and pg: "progress W fs b c" using ok by (auto simp: conn_ok_def)
  note D = staticD [OF st]
  have hin: "i_path h \<in> set (map i_path ?hs)" by simp
  note res = handles_okD(1) [OF D(3) hin] and idx = handles_okD(3) [OF D(3) hin]
  obtain s u where rel: "\<exists>pd. release pd (c_index c) (i_path h) = (s, u)" and s: "i_path h \<noteq> [] \<Longrightarrow> c_index ?c = s"
  proof -
    let ?pd = "nonempty (case i_rx h of None \<Rightarrow> c | Some (ch, x) \<Rightarrow> c\<lparr>c_closed := (c_closed c)(ch := True)\<rparr>)"
    have n: "nonempty (fail_unprocessed d) = nonempty d" for d by (auto simp: nonempty_def)
    obtain s u where r: "release ?pd (c_index c) (i_path h) = (s, u)" by fastforce
    then have "i_path h \<noteq> [] \<Longrightarrow> c_index ?c = s"
      by (auto simp: incoming_drop_def Let_def n split: option.splits if_splits)
    with r that show ?thesis by blast
  qed
  have same: "same_ingress c ?c"
    by (auto simp: incoming_drop_def same_ingress_def Let_def split: option.splits prod.splits)
  have root: "i_path h = [] \<Longrightarrow> c_index ?c = c_index c"
    by (auto simp: incoming_drop_def Let_def split: option.splits prod.splits)
  note S = same_ingressD [OF same]
  have el: "\<not> is_element (c_index c) []"
    using subs_invD(1) [OF D(1)] by (auto simp: is_element_def resolve_iff matches_def split: option.splits)
  have un0: "untaken (c_index c)" by (rule D(4)) simp
  have "evolves [] {} (c_index c) (c_index ?c) \<and> subs_inv P (c_index ?c) \<and> permit_inv (of_bool (c_permit c)) (c_index ?c) \<and>
      handles_ok (c_index ?c) (map i_path (hs @ hs')) \<and> untaken (c_index ?c)"
  proof (cases "i_path h = []")
    case True
    have "evolves [] {} (c_index c) (c_index c)" by (rule evolvesI) (auto simp: same_slots_def)
    moreover have "handles_ok (c_index c) (map i_path (hs @ hs'))"
    proof (rule handles_okI [OF refl])
      show "count (c_index c) q = length (filter (prefix q) (map i_path (hs @ hs')))" if "is_element (c_index c) q" for q
        using handles_okD(2) [OF D(3) that] True that el by auto
    qed (use handles_okD(1) [OF D(3)] in auto)
    ultimately show ?thesis using root [OF True] D(1,2) un0 by simp
  next
    case False
    obtain pd where rl: "release pd (c_index c) (i_path h) = (s, u)" using rel by blast
    note E = release_evolves [OF D(1,2) res idx rl] and R = release_shape [OF D(1) res idx rl]
    have inv: "subs_inv P s" "permit_inv (of_bool (c_permit c)) s"
      using release_facts [OF D(1,2) idx, of pd] rl by auto
    have hk: "handles_ok s (map i_path (hs @ hs'))"
    proof (rule handles_okI [OF R(3)])
      show "count s q = length (filter (prefix q) (map i_path (hs @ hs')))" if q: "is_element (c_index c) q" for q
      proof (cases "get_sub s q")
        case (Some e')
        from R(4) [OF Some] q have "count (c_index c) q = count s q + of_bool (prefix q (i_path h))"
          using Some by (auto simp: count_def)
        with handles_okD(2) [OF D(3) q] show ?thesis by (cases "prefix q (i_path h)") (simp_all add: filter_map)
      next
        case None
        have "\<not> prefix q p" if p: "p \<in> set (map i_path (hs @ hs'))" for p
        proof
          assume qp: "prefix q p"
          have "count (c_index c) q > 0"
            using handles_okD(2) [OF D(3) q] p qp by (auto simp: filter_empty_conv)
          then have "get_sub (c_index c) q \<noteq> None" by (auto simp: count_def split: option.splits)
          from R(5) [OF this None] obtain r where r: "prefix r q" "prefix r (i_path h)" "is_element (c_index c) r"
            "count (c_index c) r = 1" by blast
          have "length (filter (prefix r) (map i_path (hs @ hs'))) = 0"
            using handles_okD(2) [OF D(3) r(3)] r(2,4) by simp
          moreover have "prefix r p" using r(1) qp by (rule prefix_order.trans)
          ultimately show False using p by (auto simp: filter_empty_conv)
        qed
        then have "filter (prefix q) (map i_path (hs @ hs')) = []" by (simp only: filter_empty_conv) blast
        with None show ?thesis by (simp add: count_def)
      qed
    qed (use handles_okD(1) [OF D(3)] in auto)
    have "untaken s"
    proof (rule untaken_evolves [OF un0 E inv(1)])
      show "claimed s q" if "claimed (c_index c) q" "get_sub s q \<noteq> None" for q using R(6) that .
    qed simp
    with E inv hk s [OF False] show ?thesis by simp
  qed
  then have ev: "evolves [] {} (c_index c) (c_index ?c)" and inv: "subs_inv P (c_index ?c)" "permit_inv (of_bool (c_permit ?c)) (c_index ?c)"
    and hk: "handles_ok (c_index ?c) (map i_path (hs @ hs'))" and un: "untaken (c_index ?c)" using S(3) by auto
  have dk: "data_ok own c (hs @ hs')" by (rule data_ok_remove [OF D(6)])
  have "data_ok (own_after own (c_index c) []) ?c (hs @ hs')"
  proof (rule data_ok_evolves [OF dk ev _ refl S(4,5,2)])
    show "\<not> released (c_index ?c) (i_path g)" if "g \<in> set (hs @ hs')" for g using handles_okD(4) [OF hk] that by auto
    show "ch < fresh (c_index ?c) \<and> own_after own (c_index c) [] ch = p" if "c_phase ?c = Sending p ch n r" for p ch n r
      using that S(1) D(6) evolvesD(1) [OF ev] by (auto simp: data_ok_def sent_ok_def own_after_def)
  qed
  then have "static P (own_after own (c_index c) []) ?c (hs @ hs')"
    using inv hk un evolves_chans_ok [OF D(5) ev inv(1)] by (intro staticI)
  moreover note same_ingress_ok [OF same ev sg pg]
  ultimately show ?thesis by (rule conn_okI)
qed

section \<open>The task of a connection\<close>

lemma set_err_fields [simp]:
  "c_index (set_err e c) = c_index c" "c_phase (set_err e c) = c_phase c" "c_sent (set_err e c) = c_sent c"
  "c_permit (set_err e c) = c_permit c" "c_bufs (set_err e c) = c_bufs c" "c_read (set_err e c) = c_read c"
  "\<exists>k. c_err (set_err e c) = Some k"
  by (simp_all add: set_err_def split: option.splits)

lemma static_shut_down:
  assumes st: "static P own c hs" and ph: "\<And>p ch n r. c_phase c \<noteq> Sending p ch n r"
  shows "static P own (c\<lparr>c_index := close_tx (c_index c), c_io := x\<rparr>) hs"
proof (rule static_slots [OF st])
  let ?f = "\<lambda>sub. case tx sub of Some (Open c) \<Rightarrow> sub\<lparr>tx := None\<rparr> | _ \<Rightarrow> sub"
  have F: "subs_inv P (close_tx (c_index c)) \<and> permit_inv (of_bool (c_permit c)) (close_tx (c_index c)) \<and>
      (\<forall>q. gone (close_tx (c_index c)) q = gone (c_index c) q)"
    by (rule map_sub_facts [where f = ?f and s = "c_index c"])
      (use staticD(1,2) [OF st] in \<open>auto simp: close_tx_def split: option.splits tx_slot.splits\<close>)
  then show "subs_inv P (close_tx (c_index c))" by blast
  show "permit_inv (of_bool (c_permit (c\<lparr>c_index := close_tx (c_index c), c_io := x\<rparr>))) (close_tx (c_index c))"
    using F by simp
  show "rel_option (\<lambda>sub sub'. (tx sub' = tx sub \<or> tx sub' = Some Closed \<or> tx sub' = None \<and> closed (close_tx (c_index c))) \<and>
      (rx sub' = rx sub \<or> hs = [] \<and> rx sub' = None) \<and> handles sub' = handles sub)
      (get_sub (c_index c) q) (get_sub (close_tx (c_index c)) q)" for q
    by (cases "get_sub (c_index c) q") (auto simp: close_tx_shape split: option.splits tx_slot.splits)
qed (use ph in \<open>simp_all add: close_tx_shape\<close>)

lemma static_close_receivers:
  assumes st: "static P own c []" and cr: "close_receivers c = (c', r)"
  shows "static P own c' []" and "same_ingress c c'" and "closed (c_index c') = closed (c_index c)"
    and "is_closed c' q = is_closed c q"
proof -
  let ?s = "fst (close_rx (nonempty c) (c_index c))"
  have c': "c' = store ?s None c"
    using cr by (auto simp: close_receivers_def Let_def split: prod.splits if_splits)
  have F: "subs_inv P ?s \<and> permit_inv (of_bool (c_permit c)) ?s \<and> (\<forall>q. gone ?s q = gone (c_index c) q)"
    by (rule map_sub_facts [where f = "\<lambda>sub. sub\<lparr>rx := None\<rparr>" and s = "c_index c"])
      (use staticD(1,2) [OF st] in \<open>auto simp: close_rx_def\<close>)
  show "static P own c' []"
  proof (rule static_slots [OF st])
    show "c_index c' = ?s" by (simp add: c')
    show "subs_inv P ?s" using F by blast
    show "permit_inv (of_bool (c_permit c')) ?s" using F by (simp add: c')
    show "rel_option (\<lambda>sub sub'. (tx sub' = tx sub \<or> tx sub' = Some Closed \<or> tx sub' = None \<and> closed ?s) \<and>
      (rx sub' = rx sub \<or> ([] :: incoming list) = [] \<and> rx sub' = None) \<and> handles sub' = handles sub)
      (get_sub (c_index c) q) (get_sub ?s q)" for q
      by (cases "get_sub (c_index c) q") (auto simp: close_rx_shape)
  qed (simp_all add: c' close_rx_shape)
  show "same_ingress c c'" by (simp add: c' same_ingress_def)
  show "closed (c_index c') = closed (c_index c)" by (simp add: c' close_rx_shape)
  show "is_closed c' q = is_closed c q"
    by (auto simp: c' is_closed_def get_tx_def close_rx_shape split: option.splits)
qed

context leb128
begin

lemma step_task:
  assumes tk: "task W cap (hs = []) c c'" and ok: "conn_ok P W fs b (c, hs)"
    and small: "\<forall>f \<in> set fs. frame_small f" and b: "prefix b (stream_bytes W fs)"
  shows "conn_ok P W fs b (c', hs)"
proof -
  obtain own where st: "static P own c hs" and sg: "stage_ok c" and pg: "progress W fs b c" using ok by (auto simp: conn_ok_def)
  note D = staticD [OF st]
  have plain: "conn_ok P W fs b (d, hs)"
    if "static P own d hs" "same_ingress c d" "closed (c_index d) = closed (c_index c)" "\<And>q. is_closed d q = is_closed c q" for d
  proof (rule conn_okI [OF that(1)])
    show "stage_ok d" using sg that(2,3) by (auto simp: stage_ok_def same_ingress_def)
    show "progress W fs b d" by (rule progress_cong [OF pg]) (use that(2,4) in \<open>auto simp: same_ingress_def\<close>)
  qed
  have fields: "static P own d hs" if "c_index d = c_index e" "c_permit d = c_permit e" "c_bufs d = c_bufs e" "c_read d = c_read e"
    "c_sent d = c_sent e" "c_phase d = c_phase e" "static P own e hs" for d e
    by (rule static_index [OF that(7)]) (use that in simp_all)
  from tk show ?thesis
  proof cases
    case Ingress
    from ingress_static [OF Ingress(3) st sg Ingress(2)] progress_ingress [OF Ingress(3) pg small b D(1,2)]
    show ?thesis by (auto intro: conn_okI)
  next
    case Failed
    have "static P own c' hs"
      unfolding Failed(1) by (rule static_index [OF static_drop_permit [OF st]]) (simp_all add: drop_permit_def)
    moreover have "stage_ok c'" using sg Failed(3) by (simp add: Failed(1) stage_ok_def)
    moreover have "progress W fs b c'"
      by (rule progress_returned [OF pg]) (simp_all add: Failed(1) is_closed_def)
    ultimately show ?thesis by (rule conn_okI)
  next
    case (Report r)
    have "static P own c' hs" unfolding Report(1) by (rule fields [OF _ _ _ _ _ _ st]) (simp_all split: sum.split)
    moreover have "stage_ok c'" using sg Report(4) by (cases r) (auto simp: Report(1) stage_ok_def)
    moreover have "progress W fs b c'"
      by (rule progress_cong [OF pg]) (simp_all add: Report(1) is_closed_def split: sum.splits)
    ultimately show ?thesis by (rule conn_okI)
  next
    case (Shut_Down r)
    have "static P own c' hs" unfolding Shut_Down(1) by (rule static_shut_down [OF st]) (simp add: Shut_Down(5))
    moreover have "stage_ok c'" using sg Shut_Down(3) by (simp add: Shut_Down(1) stage_ok_def)
    moreover have "progress W fs b c'"
    proof (rule progress_cong [OF pg])
      show "is_closed c q" if "is_closed c' q" for q
        using that by (auto simp: Shut_Down(1) is_closed_def get_tx_def close_tx_shape split: option.splits tx_slot.splits)
    qed (simp_all add: Shut_Down(1))
    ultimately show ?thesis by (rule conn_okI)
  next
    case (Io_Failed e)
    show ?thesis unfolding Io_Failed(1)
      by (rule plain [OF fields [OF _ _ _ _ _ _ st]]) (simp_all add: same_ingress_def is_closed_def)
  next
    case (Io_Complete d r)
    note R = static_close_receivers [OF st [unfolded Io_Complete(5)] Io_Complete(6), folded Io_Complete(5)]
    show ?thesis unfolding Io_Complete(1)
      by (rule plain [OF fields [OF _ _ _ _ _ _ R(1)]]) (use R(2-4) in \<open>simp_all add: same_ingress_def is_closed_def\<close>)
  next
    case (Handles_Dropped d r)
    note R = static_close_receivers [OF st [unfolded Handles_Dropped(5)] Handles_Dropped(6), folded Handles_Dropped(5)]
    show ?thesis unfolding Handles_Dropped(1)
      by (rule plain [OF fields [OF _ _ _ _ _ _ R(1)]])
        (use R(2-4) in \<open>simp_all add: same_ingress_def is_closed_def split: sum.split\<close>)
  next
    case Drained
    show ?thesis unfolding Drained(1)
      by (rule plain [OF fields [OF _ _ _ _ _ _ st]]) (simp_all add: same_ingress_def is_closed_def)
  qed
qed

end

section \<open>Delivery\<close>

lemma sent_to_on:
  assumes "static P own c hs" and "ch < fresh (c_index c)"
  shows "sent_to c ch = sent_on c (own ch)"
proof -
  note D = staticD [OF assms(1)]
  have so: "\<forall>(p, x, d) \<in> set (c_sent c). x < fresh (c_index c) \<and> own x = p" using D(6) by (simp add: data_ok_def sent_ok_def)
  have "filter (\<lambda>(p, x, d). x = ch) (c_sent c) = filter (\<lambda>(q, x, d). q = own ch) (c_sent c)"
  proof (rule filter_cong [OF refl])
    fix e
    assume "e \<in> set (c_sent c)"
    with so chans_okD(3) [OF D(5) _ assms(2)] show "(case e of (p, x, d) \<Rightarrow> x = ch) = (case e of (q, x, d) \<Rightarrow> q = own ch)"
      by (cases e) fastforce
  qed
  then show ?thesis by (simp add: sent_to_def sent_on_def)
qed

lemma conn_new_ok:
  assumes "consistent (set paths)" and d: "distinct paths"
  shows "conn_ok (set paths - {[]}) W fs b (fst (incoming_new paths b), [snd (incoming_new paths b)])"
proof -
  let ?c = "fst (incoming_new paths b)" and ?h = "snd (incoming_new paths b)" and ?s = "subs_new paths"
  have i: "subs_inv (set paths - {[]}) ?s" "permit_inv 0 ?s"
    using index_inv_new [OF assms(1)] by (simp_all add: index_inv_def)
  obtain own where o: "own 0 = []" "chans_ok own ?s" "0 < fresh ?s" "\<not> closed ?s" "get_sub ?s [] = Some root_sub"
    "\<And>p sub. get_sub ?s p = Some sub \<Longrightarrow> p \<noteq> [] \<Longrightarrow> \<exists>ch. tx sub = Some (Open ch) \<and> rx sub = Some ch"
    using subs_new_channels [OF d] by blast
  have el: "\<not> is_element ?s []"
    using subs_invD(1) [OF i(1)] by (auto simp: is_element_def resolve_iff matches_def split: option.splits)
  have root: "rx root_sub = None" "tx root_sub = Some (Open 0)" by (simp_all add: root_sub_def sub_default_def)
  have c: "c_index ?c = ?s" "c_sent ?c = []" "c_bufs ?c = (\<lambda>_. [])" "c_read ?c = (\<lambda>_. [])" "c_phase ?c = Frames b"
    "c_permit ?c = False" "c_reported ?c = False" "i_rx ?h = Some (0, [])" "i_path ?h = []"
    by (simp_all add: incoming_new_def)
  have cnt: "count ?s q = 0" for q
    using subs_new_entries(1) [of paths] by (auto simp: count_def get_sub_def split: option.split dest!: map_of_SomeD)
  have so: "sent_ok own ?c" by (simp add: sent_ok_def c)
  have "reads own ?c ?h"
    using o root by (simp add: reads_def c sent_to_def tx_ok_def)
  moreover have "unread ?c"
    unfolding unread_def
  proof (intro allI impI, elim conjE)
    fix p sub ch
    assume s: "get_sub (c_index ?c) p = Some sub" "rx sub = Some ch"
    have "p \<noteq> []" using s o(5) root by (auto simp: c)
    with o(6) [of p sub] s show "tx_ok (c_index ?c) sub ch \<and> c_read ?c ch = [] \<and> concat (c_bufs ?c ch) = sent_to ?c ch"
      by (auto simp: c tx_ok_def sent_to_def)
  qed
  ultimately have dk: "data_ok own ?c [?h]" using so by (simp add: data_ok_def c)
  have "static (set paths - {[]}) own ?c [?h]"
  proof (rule staticI)
    show "handles_ok (c_index ?c) (map i_path [?h])"
    proof (rule handles_okI [OF refl])
      show "resolve (c_index ?c) p \<noteq> None" if "p \<in> set (map i_path [?h])" for p
        using that subs_invD(3) [OF i(1) o(5)] by (simp add: c)
      show "count (c_index ?c) q = length (filter (prefix q) (map i_path [?h]))" if "is_element (c_index ?c) q" for q
        using that el cnt by (cases "q = []") (simp_all add: c)
    qed
    show "untaken (c_index ?c)" using untaken_new [OF d] by (simp add: c)
  qed (use i o(2) dk in \<open>simp_all add: c\<close>)
  moreover have "stage_ok ?c" using o(4) by (simp add: stage_ok_def c)
  moreover have "\<not> is_closed ?c q" for q
    using o(5) root by (cases "q = []") (auto simp: is_closed_def get_tx_def c dest: o(6) split: option.splits)
  then have "received fs ?c [] fs [] []" by (simp add: received_def sent_on_def c)
  then have "progress W fs b ?c" by (rule progressI) (simp_all add: c)
  ultimately show ?thesis by (rule conn_okI)
qed

context leb128
begin

lemma conn_reachable:
  assumes "consistent (set paths)" and "distinct paths"
    and small: "\<forall>f \<in> set fs. frame_small f" and b: "prefix b (stream_bytes W fs)"
    and "(conn_step W cap)\<^sup>*\<^sup>* (fst (incoming_new paths b), [snd (incoming_new paths b)]) st"
  shows "conn_ok (set paths - {[]}) W fs b st \<and> (\<forall>h \<in> set (snd st). \<forall>i \<in> set (i_path h). i < usize_max)"
  using assms(5)
proof induction
  case base
  then show ?case using conn_new_ok [OF assms(1,2)] by (simp add: incoming_new_def)
next
  case (step y z)
  note ok = conjunct1 [OF step.IH] and pt = conjunct2 [OF step.IH]
  from step.hyps(2) show ?case
  proof cases
    case (Task hs c c')
    then show ?thesis using step_task [OF Task(3) _ small b] ok pt by simp
  next
    case (Index h hs path c c' h')
    have "i_path h' = i_path h @ path"
      using Index(5) by (auto simp: incoming_index_def Let_def split: if_splits prod.splits option.splits)
    then show ?thesis using step_index [OF _ Index(3,4) _ Index(5)] ok pt Index by auto
  next
    case (Index_Error h hs path c c' e)
    then show ?thesis using step_index_error [OF _ Index_Error(3,5)] ok pt by simp
  next
    case (Read h n c c' h' r hs hs')
    from ok Read obtain own where st: "static (set paths - {[]}) own c (hs @ h # hs')" and "stage_ok c" "progress W fs b c"
      by (auto simp: conn_ok_def)
    note F = poll_read_fields [OF Read(3)]
    have "conn_ok (set paths - {[]}) W fs b (c', hs @ h' # hs')"
    proof (rule conn_okI [OF static_poll_read [OF st Read(3)]])
      show "stage_ok c'" using \<open>stage_ok c\<close> F by (simp add: stage_ok_def)
      show "progress W fs b c'" by (rule progress_cong [OF \<open>progress W fs b c\<close>]) (use F in \<open>simp_all add: is_closed_def\<close>)
    qed
    moreover have "i_path h' = i_path h" using Read(3) by (cases rule: poll_read_cases) simp_all
    ultimately show ?thesis using pt Read by auto
  next
    case (Take h c c' h' g hs hs')
    have "i_path h' = i_path h" "i_path g = i_path h" using Take(3) by (auto simp: take_reader_def split: option.splits)
    then show ?thesis using step_take [OF _ Take(3)] ok pt Take by auto
  next
    case (Drop_Handle c hs h hs')
    then show ?thesis using step_drop ok pt by auto
  qed
qed

end

text \<open>What the invariant says of a handle that reads.\<close>

lemma read_prefix:
  assumes "conn_ok P W fs b (c, hs)" and "h \<in> set hs" and "i_rx h = Some (ch, chunk)"
  shows "prefix (c_read c ch) (data_on (i_path h) fs)"
proof -
  obtain own where st: "static P own c hs" and pg: "progress W fs b c"
    using assms(1) by (auto simp: conn_ok_def)
  note R = readsD [OF staticD(6) [OF st] assms(2,3)]
  obtain pre post p x where rc: "received fs c pre post p x" using pg by (auto simp: progress_def)
  note V = receivedD [OF rc]
  have "prefix (data_on (i_path h) pre @ (if i_path h = p then x else [])) (data_on (i_path h) fs)"
    using V(1,5) by (cases "x = []") (auto simp: prefix_def)
  with V(2) [of "i_path h"] sent_to_on [OF st R(2)] R(1,4) show ?thesis
    by (metis append_prefixD)
qed

lemma read_end:
  assumes "conn_ok P W fs b (c, hs)" and "h \<in> set hs" and "i_rx h = Some (ch, chunk)"
    and "n > 0" and "poll_read h n c = (c', h', Ready (Inr []))"
  shows "\<exists>pre. prefix pre fs \<and> c_read c ch = data_on (i_path h) pre \<and>
    (\<lparr>f_path = i_path h, f_data = []\<rparr> \<in> set pre \<or> b = stream_bytes W pre)"
proof -
  obtain own where st: "static P own c hs" and pg: "progress W fs b c" and sg: "stage_ok c"
    using assms(1) by (auto simp: conn_ok_def)
  note R = readsD [OF staticD(6) [OF st] assms(2,3)]
  obtain pre post p x where rc: "received fs c pre post p x" and ph: "phase_ok W b pre post p x (c_phase c)"
    using pg unfolding progress_def by blast
  note V = receivedD [OF rc]
  have e: "chunk = []" "concat (c_bufs c ch) = []" "\<not> sender_alive c ch" "c_err c = None \<or> is_closed c (i_path h)"
    using assms(5) by (cases rule: poll_read_cases; use assms(3,4) in simp)+
  have "c_read c ch = sent_to c ch" using R(4) unfolding e(1,2) by simp
  then have rd: "c_read c ch = data_on (i_path h) pre @ (if i_path h = p then x else [])"
    using R(1) sent_to_on [OF st R(2)] V(2) [of "i_path h"] by simp
  have "prefix pre fs" using V(1) by simp
  show ?thesis
  proof (cases "is_closed c (i_path h)")
    case True
    then have "i_path h = p \<Longrightarrow> x = []" using V(4) by blast
    then have "c_read c ch = data_on (i_path h) pre" using rd by auto
    with V(3) [OF True] \<open>prefix pre fs\<close> show ?thesis by blast
  next
    case False
    obtain sub where sub: "get_sub (c_index c) (i_path h) = Some sub" "tx_ok (c_index c) sub ch" using R(3) by blast
    have "tx sub \<noteq> Some (Open ch)"
    proof
      assume "tx sub = Some (Open ch)"
      moreover have "(i_path h, sub) \<in> set (subs (c_index c))" using sub(1) by (simp add: get_sub_def map_of_SomeD)
      ultimately show False using e(3) by (auto simp: sender_alive_def list_ex_iff)
    qed
    moreover have "tx sub \<noteq> Some Closed" using False sub(1) by (auto simp: is_closed_def get_tx_def)
    ultimately have "closed (c_index c)" using sub(2) by (simp add: tx_ok_def)
    then obtain r where r: "c_phase c = Returned r" "\<forall>k. r = Inl k \<longrightarrow> c_err c \<noteq> None"
      using sg by (auto simp: stage_ok_def)
    with e(4) False have "r = Inr ()" by (cases r) auto
    with ph r(1) have "x = []" "b = stream_bytes W pre" by simp_all
    with rd \<open>prefix pre fs\<close> show ?thesis by auto
  qed
qed

section \<open>Memory\<close>

definition small_chunks :: "nat \<Rightarrow> bytes list \<Rightarrow> bool" where
  "small_chunks cap ds \<longleftrightarrow> length ds \<le> MAX_BUFFERED_CHUNKS \<and> (\<forall>d \<in> set ds. length d \<le> cap)"

definition small_buffers :: "nat \<Rightarrow> conn \<times> incoming list \<Rightarrow> bool" where
  "small_buffers cap st \<longleftrightarrow>
    (\<forall>ch. small_chunks cap (c_bufs (fst st) ch)) \<and>
    (\<forall>h \<in> set (snd st). \<forall>ch chunk. i_rx h = Some (ch, chunk) \<longrightarrow> length chunk \<le> cap)"

lemma ingress_bufs:
  assumes "ingress W cap c c'" and "\<forall>ch. small_chunks cap (c_bufs c ch)"
  shows "small_chunks cap (c_bufs c' ch)"
  using assms(1)
proof cases
  case (Route_Frame p n r)
  obtain s pm res where "route (c_index c) p (c_permit c) = (s, pm, res)" by (metis prod_cases3)
  then show ?thesis unfolding Route_Frame(1) using assms(2) by (cases rule: route_frame_cases [where n = n and r = r]) simp_all
next
  case (Send_Chunk p ch n r)
  then show ?thesis using assms(2) by (auto simp: send_chunk_def small_chunks_def Let_def split: if_splits)
qed (use assms(2) in simp_all)

lemma task_bufs:
  assumes "task W cap idle c c'" and "\<forall>ch. small_chunks cap (c_bufs c ch)"
  shows "small_chunks cap (c_bufs c' ch)"
  using assms(1)
proof cases
  case Ingress
  then show ?thesis using ingress_bufs assms(2) by blast
qed (use assms(2) in \<open>auto simp: close_receivers_def Let_def split: sum.splits prod.splits if_splits\<close>)

lemma small_chunks_Cons:
  assumes "small_chunks cap ds" and "dropWhile (\<lambda>d. d = []) ds = d # es"
  shows "small_chunks cap es" and "length d \<le> cap"
proof -
  have "set (d # es) \<subseteq> set ds" "length (d # es) \<le> length ds"
    using assms(2) by (metis set_dropWhileD subsetI, metis length_dropWhile_le)
  with assms(1) show "small_chunks cap es" "length d \<le> cap" by (auto simp: small_chunks_def)
qed

lemma poll_read_bufs:
  assumes pr: "poll_read h n c = (c', h', r)" and c: "\<forall>ch. small_chunks cap (c_bufs c ch)"
    and h: "\<And>ch x. i_rx h = Some (ch, x) \<Longrightarrow> length x \<le> cap"
  shows "small_chunks cap (c_bufs c' ch) \<and> (\<forall>ch x. i_rx h' = Some (ch, x) \<longrightarrow> length x \<le> cap)"
proof (cases "n = 0 \<or> i_rx h = None")
  case True
  then show ?thesis using assms by (auto simp: poll_read_def split: if_splits)
next
  case False
  then obtain k x where rx: "i_rx h = Some (k, x)" and n: "n > 0" by auto
  show ?thesis
  proof (cases "x = []")
    case False
    with pr rx n c h [OF rx] show ?thesis by (auto simp: poll_read_def reader_poll_def)
  next
    case True
    show ?thesis
    proof (cases "dropWhile (\<lambda>d. d = []) (c_bufs c k)")
      case Nil
      with pr rx n c True show ?thesis
        by (auto simp: poll_read_def reader_poll_def small_chunks_def split: if_splits)
    next
      case (Cons d ds)
      have "small_chunks cap ds" "length (drop n d) \<le> cap"
        using small_chunks_Cons [OF _ Cons, of cap] c by auto
      moreover have "take n d \<noteq> []" using hd_dropWhile [of "\<lambda>d. d = []" "c_bufs c k"] Cons n by simp
      ultimately show ?thesis using pr rx n c True Cons
        by (auto simp: poll_read_def reader_poll_def)
    qed
  qed
qed

text \<open>
  However much the peer sends and however slowly it is read, a channel holds at most sixteen chunks, and
  a chunk, also one being read, at most the initial capacity (claim C14).
\<close>

theorem memory_bounded:
  assumes "(conn_step W cap)\<^sup>*\<^sup>* (fst (incoming_new paths input), [snd (incoming_new paths input)]) st"
  shows "small_buffers cap st"
  using assms
proof induction
  case base
  then show ?case by (simp add: small_buffers_def incoming_new_def small_chunks_def)
next
  case (step y z)
  from step.hyps(2) show ?case
  proof cases
    case (Task hs c c')
    then show ?thesis using step.IH task_bufs by (fastforce simp: small_buffers_def)
  next
    case (Index h hs path c c' h')
    have "path \<noteq> []" using Index(5) by (auto simp: incoming_index_def)
    obtain s u r where i: "index_path (nonempty c) (c_index c) (i_path h @ path) = (s, u, r)" by (metis prod_cases3)
    note I = incoming_index_eq [OF \<open>path \<noteq> []\<close> i, unfolded Index(5) fst_conv snd_conv]
    have "i_rx h' = Some (ch, x) \<Longrightarrow> x = []" for ch x using I(3) by (auto split: option.splits)
    then show ?thesis using step.IH same_ingressD(4) [OF I(1)] Index by (auto simp: small_buffers_def)
  next
    case (Index_Error h hs path c c' e)
    have "c_bufs c' = c_bufs c"
    proof (cases "path = []")
      case False
      obtain s u r where i: "index_path (nonempty c) (c_index c) (i_path h @ path) = (s, u, r)" by (metis prod_cases3)
      show ?thesis using same_ingressD(4) [OF incoming_index_eq(1) [OF False i]] Index_Error(5) by simp
    qed (use Index_Error(5) in \<open>simp add: incoming_index_def\<close>)
    then show ?thesis using step.IH Index_Error by (auto simp: small_buffers_def)
  next
    case (Read h n c c' h' r hs hs')
    have "\<forall>ch. small_chunks cap (c_bufs c ch)" "\<And>ch x. i_rx h = Some (ch, x) \<Longrightarrow> length x \<le> cap"
      using step.IH Read by (auto simp: small_buffers_def)
    from poll_read_bufs [OF Read(3) this] step.IH Read show ?thesis by (auto simp: small_buffers_def)
  next
    case (Take h c c' h' g hs hs')
    then show ?thesis using step.IH by (auto simp: small_buffers_def take_reader_def split: option.splits)
  next
    case (Drop_Handle c hs h hs')
    have "c_bufs (incoming_drop h c) = c_bufs c"
      by (auto simp: incoming_drop_def Let_def split: option.splits prod.splits)
    then show ?thesis using step.IH Drop_Handle by (auto simp: small_buffers_def)
  qed
qed

text \<open>
  A run: the peer sends two bytes on the path \<open>[0]\<close>, an element of the root, and closes it; the
  receiver indexes the element, reads the bytes and then finds the end.
\<close>

definition ex_frames :: "frame list" where
  "ex_frames = [\<lparr>f_path = [0], f_data = [7, 8]\<rparr>, \<lparr>f_path = [0], f_data = []\<rparr>]"

definition ex_input :: bytes where
  "ex_input = [1, 0, 2, 7, 8, 1, 0, 0]"

definition ex_start :: "conn \<times> incoming" where
  "ex_start = incoming_new [[Some 0]] ex_input"

definition ex_index :: "conn \<times> (io_error + incoming)" where
  "ex_index = incoming_index (snd ex_start) [0] (fst ex_start)"

definition ex_handle :: incoming where
  "ex_handle = \<lparr>i_rx = Some (1, []), i_subscribed = True, i_path = [0]\<rparr>"

definition ingress_next :: "conn \<Rightarrow> conn" where
  "ingress_next c =
    (case c_phase c of
       Routing p n r \<Rightarrow> route_frame p n r c
     | Sending p ch n r \<Rightarrow> (case send_chunk 16 p ch n r c of Some c' \<Rightarrow> c' | None \<Rightarrow> c)
     | _ \<Rightarrow> c)"

definition ex_frame1 :: conn where
  "ex_frame1 = (fst ex_index)\<lparr>c_phase := Routing [0] 2 [7, 8, 1, 0, 0]\<rparr>"

definition ex_sent :: conn where
  "ex_sent = ingress_next (ingress_next ex_frame1)"

definition ex_read :: conn where
  "ex_read = fst (poll_read ex_handle 8 ex_sent)"

definition ex_frame2 :: conn where
  "ex_frame2 = (ingress_next ex_read)\<lparr>c_phase := Routing [0] 0 []\<rparr>"

definition ex_closed :: conn where
  "ex_closed = ingress_next ex_frame2"

lemma ex_stream: "stream_bytes wasm_ref ex_frames = ex_input"
  by (simp add: ex_frames_def ex_input_def frame_bytes_def uleb.simps as_u8_def)

lemma ex_header:
  "next_frame wasm_ref 1 [1, 0, 2, 7, 8, 1, 0, 0] = Routing [0] 2 [7, 8, 1, 0, 0]"
  "next_frame wasm_ref 1 [1, 0, 0] = Routing [0] 0 []"
proof -
  have "header_bytes wasm_ref \<lparr>f_path = [0], f_data = [7, 8]\<rparr> @ [7, 8, 1, 0, 0] = [1, 0, 2, 7, 8, 1, 0, 0]"
    "header_bytes wasm_ref \<lparr>f_path = [0], f_data = []\<rparr> @ [] = [1, 0, 0]"
    by (simp_all add: header_bytes_def uleb.simps as_u8_def)
  with ref.read_frame_header [of "\<lparr>f_path = [0], f_data = [7, 8]\<rparr>" 1 "[7, 8, 1, 0, 0]"]
    ref.read_frame_header [of "\<lparr>f_path = [0], f_data = []\<rparr>" 1 "[]"]
  show "next_frame wasm_ref 1 [1, 0, 2, 7, 8, 1, 0, 0] = Routing [0] 2 [7, 8, 1, 0, 0]"
    "next_frame wasm_ref 1 [1, 0, 0] = Routing [0] 0 []"
    by (simp_all add: next_frame_def frame_ok_def)
qed

lemma ex_ingress:
  assumes "c_done c = None \<and> \<not> c_reported c \<and>
    (case c_phase c of Routing p n r \<Rightarrow> True | Sending p ch n r \<Rightarrow> send_chunk 16 p ch n r c \<noteq> None | _ \<Rightarrow> False)"
  shows "conn_step wasm_ref 16 (c, hs) (ingress_next c, hs)"
proof -
  have "ingress wasm_ref 16 c (ingress_next c)"
  proof (cases "c_phase c")
    case (Routing p n r)
    then show ?thesis using ingress.Route_Frame [OF Routing, of wasm_ref 16] by (simp add: ingress_next_def)
  next
    case (Sending p ch n r)
    with assms obtain c' where c': "send_chunk 16 p ch n r c = Some c'" by auto
    from ingress.Send_Chunk [OF Sending c', of wasm_ref] show ?thesis using Sending c' by (simp add: ingress_next_def)
  qed (use assms in simp_all)
  with assms show ?thesis by (intro conn_step.Task task.Ingress) auto
qed

lemma ex_frame:
  assumes "c_phase c = Frames r" and "c_done c = None \<and> \<not> c_reported c" and "next_frame wasm_ref (depth (c_index c)) r = ph"
  shows "conn_step wasm_ref 16 (c, hs) (c\<lparr>c_phase := ph\<rparr>, hs)"
  using ingress.Read_Frame [OF assms(1), of wasm_ref 16] assms(2,3) by (intro conn_step.Task task.Ingress) auto

lemma ex_run_read: "(conn_step wasm_ref 16)\<^sup>*\<^sup>* (fst ex_start, [snd ex_start]) (ex_read, [snd ex_start, ex_handle])"
proof -
  let ?r = "snd ex_start"
  have "snd ex_index = Inr ex_handle" by code_simp
  then have "conn_step wasm_ref 16 (fst ex_start, [?r]) (fst ex_index, [?r] @ [ex_handle])"
    by (intro conn_step.Index [of ?r _ "[0]"]) (simp_all add: ex_index_def usize_max_def prod_eq_iff)
  moreover have "conn_step wasm_ref 16 (fst ex_index, [?r] @ [ex_handle]) (ex_frame1, [?r] @ [ex_handle])"
    unfolding ex_frame1_def
  proof (rule ex_frame)
    show "c_phase (fst ex_index) = Frames [1, 0, 2, 7, 8, 1, 0, 0]" "c_done (fst ex_index) = None \<and> \<not> c_reported (fst ex_index)"
      by code_simp+
    have "depth (c_index (fst ex_index)) = 1" by code_simp
    then show "next_frame wasm_ref (depth (c_index (fst ex_index))) [1, 0, 2, 7, 8, 1, 0, 0] = Routing [0] 2 [7, 8, 1, 0, 0]"
      by (simp only: ex_header)
  qed
  moreover have "conn_step wasm_ref 16 (ex_frame1, [?r] @ [ex_handle]) (ingress_next ex_frame1, [?r] @ [ex_handle])"
    by (rule ex_ingress) code_simp
  moreover have "conn_step wasm_ref 16 (ingress_next ex_frame1, [?r] @ [ex_handle]) (ex_sent, [?r] @ [ex_handle])"
    unfolding ex_sent_def by (rule ex_ingress) code_simp
  moreover have "snd (poll_read ex_handle 8 ex_sent) = (ex_handle, Ready (Inr [7, 8]))" by code_simp
  then have "conn_step wasm_ref 16 (ex_sent, [?r] @ ex_handle # []) (ex_read, [?r] @ ex_handle # [])"
    unfolding ex_read_def by (intro conn_step.Read [where n = 8 and r = "Ready (Inr [7, 8])"]) (simp add: prod_eq_iff)
  ultimately show ?thesis by simp
qed

lemma ex_run_closed: "(conn_step wasm_ref 16)\<^sup>*\<^sup>* (fst ex_start, [snd ex_start]) (ex_closed, [snd ex_start, ex_handle])"
proof -
  note ex_run_read
  also have "conn_step wasm_ref 16 (ex_read, [snd ex_start, ex_handle]) (ingress_next ex_read, [snd ex_start, ex_handle])"
    by (rule ex_ingress) code_simp
  also have "conn_step wasm_ref 16 (ingress_next ex_read, [snd ex_start, ex_handle]) (ex_frame2, [snd ex_start, ex_handle])"
    unfolding ex_frame2_def
  proof (rule ex_frame)
    show "c_phase (ingress_next ex_read) = Frames [1, 0, 0]" "c_done (ingress_next ex_read) = None \<and> \<not> c_reported (ingress_next ex_read)"
    by code_simp+
    have "depth (c_index (ingress_next ex_read)) = 1" by code_simp
    then show "next_frame wasm_ref (depth (c_index (ingress_next ex_read))) [1, 0, 0] = Routing [0] 0 []" by (simp only: ex_header)
  qed
  also have "conn_step wasm_ref 16 (ex_frame2, [snd ex_start, ex_handle]) (ex_closed, [snd ex_start, ex_handle])"
    unfolding ex_closed_def by (rule ex_ingress) code_simp
  finally show ?thesis .
qed

theorem memory_bounded_witness: "small_buffers 16 (ex_read, [snd ex_start, ex_handle])"
  using memory_bounded [OF ex_run_read [unfolded ex_start_def]] unfolding ex_start_def .

text \<open>
  Whatever the peer sent of a sequence of frames, and whatever the order of the steps of the task and the
  operations of the handles: what was read through a handle on a path is the beginning of the data the
  peer sent on that path (claim C10).
\<close>

theorem incoming_delivery:
  assumes "leb128 W" and "consistent (set paths)" and "distinct paths"
    and "\<forall>f \<in> set fs. frame_small f" and "prefix input (stream_bytes W fs)"
    and "(conn_step W cap)\<^sup>*\<^sup>* (fst (incoming_new paths input), [snd (incoming_new paths input)]) (c, hs)"
    and "h \<in> set hs" and "i_rx h = Some (ch, chunk)"
  shows "prefix (c_read c ch) (data_on (i_path h) fs)"
  by (rule read_prefix [OF conjunct1 [OF leb128.conn_reachable [OF assms(1-6)]] assms(7,8)])

theorem incoming_delivery_witness:
  "c_read ex_read 1 = [7, 8] \<and> prefix (c_read ex_read 1) (data_on [0] ex_frames)"
proof
  show "c_read ex_read 1 = [7, 8]" by code_simp
  have "consistent (set [[Some 0]])" "distinct [[Some (0 :: nat)]]" by (simp_all add: consistent_def)
  moreover have "\<forall>f \<in> set ex_frames. frame_small f" by (simp add: ex_frames_def frame_ok_def)
  moreover have "prefix ex_input (stream_bytes wasm_ref ex_frames)" by (simp add: ex_stream)
  moreover have "ex_handle \<in> set [snd ex_start, ex_handle]" "i_rx ex_handle = Some (1, [])" by (simp_all add: ex_handle_def)
  ultimately have "prefix (c_read ex_read 1) (data_on (i_path ex_handle) ex_frames)"
    by (rule incoming_delivery [OF ref.leb128_axioms _ _ _ _ ex_run_read [unfolded ex_start_def], folded ex_start_def])
  then show "prefix (c_read ex_read 1) (data_on [0] ex_frames)" by (simp add: ex_handle_def)
qed



end
