(* ===== verification/Multiplex.thy ===== *)
theory Multiplex
  imports Delivery
begin

text \<open>
  The sending side of a framed connection as an implementation of independent byte streams, one per
  path, and the two sides of a connection together: the specification \<open>mux_step\<close>, the handles of
  \<open>Outgoing\<close> and the queue of egress that refine it, and what a handle of the receiver reads of what was
  written through the handles of the sender.
\<close>

section \<open>Specification\<close>

text \<open>
  What a user of the handles sees: the paths that are open, what was written to each path and which
  paths were closed. A failed operation changes nothing.
\<close>

record mux =
  m_paths :: "path list"
  m_data :: "path \<Rightarrow> bytes"
  m_closed :: "path set"

definition mux_new :: mux where
  "mux_new = \<lparr>m_paths = [[]], m_data = (\<lambda>_. []), m_closed = {}\<rparr>"

datatype out_label = L_Index path path | L_Write path bytes | L_Close path | L_Error

inductive mux_step :: "out_label \<Rightarrow> mux \<Rightarrow> mux \<Rightarrow> bool" where
  Open_Path: "p \<in> set (m_paths m) \<Longrightarrow> q \<noteq> [] \<Longrightarrow> mux_step (L_Index p q) m (m\<lparr>m_paths := m_paths m @ [p @ q]\<rparr>)"
| Write: "p \<in> set (m_paths m) \<Longrightarrow> mux_step (L_Write p b) m (m\<lparr>m_data := (m_data m)(p := m_data m p @ b)\<rparr>)"
| Close: "p \<in> set (m_paths m) \<Longrightarrow> mux_step (L_Close p) m (m\<lparr>m_closed := insert p (m_closed m)\<rparr>)"
| Error: "mux_step L_Error m m"

section \<open>Implementation\<close>

text \<open>The operations of the handles, in any order, and the end of egress.\<close>

inductive out_step :: "wasm_tokio \<Rightarrow> out_label \<Rightarrow> outgoing list \<times> egress_queue \<Rightarrow> outgoing list \<times> egress_queue \<Rightarrow> bool"
  for W where
  Index: "h \<in> set hs \<Longrightarrow> outgoing_index W h p = Inr h' \<Longrightarrow> out_step W (L_Index (o_path h) p) (hs, q) (hs @ [h'], q)"
| Index_Error: "h \<in> set hs \<Longrightarrow> outgoing_index W h p = Inl e \<Longrightarrow> out_step W L_Error (hs, q) (hs, q)"
| Write_Bytes: "h \<in> set hs \<Longrightarrow> write_bytes h b q = (q', Inr ()) \<Longrightarrow> out_step W (L_Write (o_path h) b) (hs, q) (hs, q')"
| Write_Error: "h \<in> set hs \<Longrightarrow> write_bytes h b q = (q', Inl e) \<Longrightarrow> out_step W L_Error (hs, q) (hs, q')"
| Poll_Write: "h \<in> set hs \<Longrightarrow> poll_write h b q = (q', Inr n) \<Longrightarrow> out_step W (L_Write (o_path h) (take n b)) (hs, q) (hs, q')"
| Poll_Error: "h \<in> set hs \<Longrightarrow> poll_write h b q = (q', Inl e) \<Longrightarrow> out_step W L_Error (hs, q) (hs, q')"
| Close: "h \<in> set hs \<Longrightarrow> outgoing_close h q = (q', Inr ()) \<Longrightarrow> out_step W (L_Close (o_path h)) (hs, q) (hs, q')"
| Close_Error: "h \<in> set hs \<Longrightarrow> outgoing_close h q = (q', Inl e) \<Longrightarrow> out_step W L_Error (hs, q) (hs, q')"
| Egress_Done: "q_done q = None \<Longrightarrow> out_step W L_Error (hs, q) (hs, q\<lparr>q_done := Some r\<rparr>)"

definition path_bytes :: "wasm_tokio \<Rightarrow> path \<Rightarrow> bytes" where
  "path_bytes W p = leb_enc W 32 (length p) @ concat (map (leb_enc W 32) p)"

definition handle_ok :: "wasm_tokio \<Rightarrow> outgoing \<Rightarrow> bool" where
  "handle_ok W h \<longleftrightarrow> length (o_path h) < 2 ^ 32 \<and> (\<forall>i \<in> set (o_path h). i < 2 ^ 32) \<and> o_path_buf h = path_bytes W (o_path h)"

definition queued :: "wasm_tokio \<Rightarrow> frame list \<Rightarrow> (bytes \<times> bytes) list" where
  "queued W fs = map (\<lambda>f. (path_bytes W (f_path f), f_data f)) fs"

text \<open>The queue holds frames of at most the largest length whose data is what was written.\<close>

definition mux_rel :: "wasm_tokio \<Rightarrow> outgoing list \<times> egress_queue \<Rightarrow> mux \<Rightarrow> bool" where
  "mux_rel W st m \<longleftrightarrow>
    (\<forall>h \<in> set (fst st). handle_ok W h) \<and> map o_path (fst st) = m_paths m \<and>
    (\<exists>fs. q_frames (snd st) = queued W fs \<and> (\<forall>f \<in> set fs. frame_small f) \<and>
      (\<forall>p. m_data m p = data_on p fs) \<and> m_closed m = {p. \<lparr>f_path = p, f_data = []\<rparr> \<in> set fs})"

lemma queued_append [simp]: "queued W (fs @ gs) = queued W fs @ queued W gs"
  by (simp add: queued_def)

lemma outgoing_index_cases:
  assumes "outgoing_index W h p = Inr h'" and "handle_ok W h"
  shows "p \<noteq> []" and "o_path h' = o_path h @ p" and "handle_ok W h'"
proof -
  let ?p = "o_path h @ p"
  have p: "(if o_path h = [] then p else ?p) = ?p" by simp
  have a: "p \<noteq> []" "length ?p < 2 ^ 32" "\<forall>i \<in> set ?p. i < 2 ^ 32" "h' = \<lparr>o_path = ?p, o_path_buf = path_bytes W ?p\<rparr>"
    using assms(1) unfolding outgoing_index_def p Let_def
    by (simp_all add: and_then_eq_Inr encode_path_eq path_bytes_def split: if_splits)
  then show "p \<noteq> []" "o_path h' = ?p" "handle_ok W h'" by (simp_all add: handle_ok_def)
qed

lemma send_frame_eq:
  "send_frame h b q =
    (if q_done q = None then (q\<lparr>q_frames := q_frames q @ [(o_path_buf h, b)]\<rparr>, Inr ()) else (q, Inl (error_egress q)))"
  by (simp add: send_frame_def reserve_def send_reserved_def)

text \<open>\<open>write_bytes\<close> queues frames that are not empty and hold the bytes in order.\<close>

lemma write_bytes_frames:
  assumes "handle_ok W h" and "write_bytes h b q = (q', Inr ())"
  shows "\<exists>fs. q' = q\<lparr>q_frames := q_frames q @ queued W fs\<rparr> \<and> (\<forall>f \<in> set fs. frame_small f \<and> f_path f = o_path h \<and> f_data f \<noteq> []) \<and>
    concat (map f_data fs) = b"
  using assms
proof (induction h b q rule: write_bytes.induct)
  case (1 h b q)
  show ?case
  proof (cases "b = []")
    case True
    with 1(3) show ?thesis by (intro exI [of _ "[]"]) (simp add: queued_def)
  next
    case False
    let ?n = "min (length b) MAX_FRAME_DATA"
    let ?q = "q\<lparr>q_frames := q_frames q @ [(o_path_buf h, take ?n b)]\<rparr>" and ?f = "\<lparr>f_path = o_path h, f_data = take ?n b\<rparr>"
    have d: "q_done q = None" using 1(3) False by (subst (asm) write_bytes.simps) (auto simp: send_frame_eq Let_def split: if_splits)
    then have sf: "send_frame h (take ?n b) q = (?q, Inr ())" by (simp add: send_frame_eq)
    have "write_bytes h (drop ?n b) ?q = (q', Inr ())"
      using 1(3) False sf by (subst (asm) write_bytes.simps) (simp add: Let_def)
    from 1(1) [OF False refl sf [symmetric] refl 1(2) this] obtain fs where
      fs: "q' = ?q\<lparr>q_frames := q_frames ?q @ queued W fs\<rparr>"
        "\<forall>f \<in> set fs. frame_small f \<and> f_path f = o_path h \<and> f_data f \<noteq> []" "concat (map f_data fs) = drop ?n b"
      by auto
    have "take ?n b \<noteq> []" using False by (simp add: MAX_FRAME_DATA_def)
    moreover have "frame_small ?f" using 1(2) by (auto simp: frame_ok_def handle_ok_def MAX_FRAME_DATA_def)
    moreover have "q' = q\<lparr>q_frames := q_frames q @ queued W (?f # fs)\<rparr>"
      using fs(1) 1(2) by (simp add: queued_def handle_ok_def)
    moreover have "concat (map f_data (?f # fs)) = b" using fs(3) by simp
    ultimately show ?thesis using fs(2) by (intro exI [of _ "?f # fs"]) auto
  qed
qed

lemma write_bytes_error:
  assumes "write_bytes h b q = (q', Inl e)"
  shows "q' = q"
proof -
  have ok: "q_done q = None \<Longrightarrow> \<exists>q'. write_bytes h b q = (q', Inr ())"
  proof (induction h b q rule: write_bytes.induct)
    case (1 h b q)
    let ?n = "min (length b) MAX_FRAME_DATA"
    let ?q = "q\<lparr>q_frames := q_frames q @ [(o_path_buf h, take ?n b)]\<rparr>"
    have sf: "send_frame h (take ?n b) q = (?q, Inr ())" using 1(2) by (simp add: send_frame_eq)
    show ?case
    proof (cases "b = []")
      case False
      have "q_done ?q = None" using 1(2) by simp
      from 1(1) [OF False refl sf [symmetric] refl this] show ?thesis
        using False sf by (subst write_bytes.simps) (simp add: Let_def)
    qed simp
  qed
  with assms have "q_done q \<noteq> None" by auto
  with assms show ?thesis by (subst (asm) write_bytes.simps) (auto simp: send_frame_eq Let_def split: if_splits)
qed

lemma data_on_frames:
  "(\<And>f. f \<in> set fs \<Longrightarrow> f_path f = p) \<Longrightarrow> data_on q fs = (if q = p then concat (map f_data fs) else [])"
  by (induction fs) auto

text \<open>The frames an operation queues, by its label.\<close>

definition label_frames :: "out_label \<Rightarrow> frame list \<Rightarrow> bool" where
  "label_frames l gs =
    (case l of
       L_Write p b \<Rightarrow> (\<forall>f \<in> set gs. f_path f = p \<and> f_data f \<noteq> []) \<and> concat (map f_data gs) = b
     | L_Close p \<Rightarrow> gs = [\<lparr>f_path = p, f_data = []\<rparr>]
     | _ \<Rightarrow> gs = [])"

definition label_paths :: "out_label \<Rightarrow> path list \<Rightarrow> path list \<Rightarrow> bool" where
  "label_paths l ps ps' =
    (case l of
       L_Index p q \<Rightarrow> p \<in> set ps \<and> q \<noteq> [] \<and> ps' = ps @ [p @ q]
     | L_Write p b \<Rightarrow> p \<in> set ps \<and> ps' = ps
     | L_Close p \<Rightarrow> p \<in> set ps \<and> ps' = ps
     | L_Error \<Rightarrow> ps' = ps)"

lemma out_step_frames:
  assumes ok: "\<forall>h \<in> set (fst st). handle_ok W h" and "out_step W l st st'"
  shows "(\<forall>h \<in> set (fst st'). handle_ok W h) \<and> label_paths l (map o_path (fst st)) (map o_path (fst st')) \<and>
    (\<exists>gs. q_frames (snd st') = q_frames (snd st) @ queued W gs \<and> label_frames l gs \<and> (\<forall>f \<in> set gs. frame_small f))"
  using assms(2)
proof cases
  case (Index h hs p h' q)
  then show ?thesis using ok outgoing_index_cases [OF Index(5)] by (auto simp: label_frames_def label_paths_def queued_def)
next
  case (Write_Bytes h hs b q q')
  have hk: "handle_ok W h" using ok Write_Bytes by simp
  from write_bytes_frames [OF hk Write_Bytes(5)] show ?thesis
    using ok Write_Bytes by (auto simp: label_frames_def label_paths_def)
next
  case (Poll_Write h hs b q q' n)
  have hk: "handle_ok W h" using ok Poll_Write by simp
  let ?gs = "if b = [] then [] else [\<lparr>f_path = o_path h, f_data = take n b\<rparr>]"
  have n: "b \<noteq> [] \<Longrightarrow> n = min (length b) MAX_FRAME_DATA" and q': "q_frames q' = q_frames q @ queued W ?gs"
    using Poll_Write(5) hk by (auto simp: poll_write_def send_frame_eq Let_def queued_def handle_ok_def split: if_splits)
  have "\<forall>f \<in> set ?gs. frame_small f \<and> f_path f = o_path h \<and> f_data f \<noteq> []"
    using n hk by (auto simp: frame_ok_def handle_ok_def MAX_FRAME_DATA_def)
  then show ?thesis using ok Poll_Write q' by (auto simp: label_frames_def label_paths_def intro!: exI [of _ ?gs])
next
  case (Close h hs q q')
  have hk: "handle_ok W h" using ok Close by simp
  then have "frame_small \<lparr>f_path = o_path h, f_data = []\<rparr>" by (auto simp: frame_ok_def handle_ok_def)
  then show ?thesis using ok Close hk
    by (auto simp: outgoing_close_def send_frame_eq label_frames_def label_paths_def queued_def handle_ok_def split: if_splits
        intro!: exI [of _ "[\<lparr>f_path = o_path h, f_data = []\<rparr>]"])
next
  case (Write_Error h hs b q q' e)
  then show ?thesis using ok write_bytes_error [OF Write_Error(5)] by (auto simp: label_frames_def label_paths_def queued_def)
qed (use ok in \<open>auto simp: poll_write_def outgoing_close_def send_frame_eq label_frames_def label_paths_def queued_def Let_def
      split: if_splits\<close>)

section \<open>Refinement\<close>

lemma mux_rel_new:
  assumes "leb128 W"
  shows "mux_rel W ([fst outgoing_new], snd outgoing_new) mux_new"
proof -
  have "leb_enc W 32 0 = [0]" using leb128.enc_byte [OF assms, of 0] by (simp add: as_u8_def)
  then show ?thesis
    by (auto simp: mux_rel_def outgoing_new_def mux_new_def handle_ok_def path_bytes_def queued_def intro!: exI [of _ "[]"])
qed

lemma mux_rel_step:
  assumes rel: "mux_rel W st m" and os: "out_step W l st st'"
  shows "\<exists>m'. mux_step l m m' \<and> mux_rel W st' m'"
proof -
  obtain fs where ok: "\<forall>h \<in> set (fst st). handle_ok W h" "map o_path (fst st) = m_paths m"
    and f: "q_frames (snd st) = queued W fs" "\<forall>f \<in> set fs. frame_small f" "\<forall>p. m_data m p = data_on p fs"
      "m_closed m = {p. \<lparr>f_path = p, f_data = []\<rparr> \<in> set fs}"
    using rel unfolding mux_rel_def by blast
  from out_step_frames [OF ok(1) os] obtain gs where ok': "\<forall>h \<in> set (fst st'). handle_ok W h"
    and lp: "label_paths l (m_paths m) (map o_path (fst st'))" and lf: "label_frames l gs"
    and gs: "q_frames (snd st') = queued W (fs @ gs)" "\<forall>f \<in> set (fs @ gs). frame_small f"
    using ok(2) f(1,2) by auto
  have rel': "mux_rel W st' m'"
    if "m_paths m' = map o_path (fst st')" "\<And>p. m_data m' p = data_on p (fs @ gs)"
      "m_closed m' = {p. \<lparr>f_path = p, f_data = []\<rparr> \<in> set (fs @ gs)}" for m'
    unfolding mux_rel_def using that ok' gs by (intro conjI exI [of _ "fs @ gs"]) simp_all
  show ?thesis
  proof (cases l)
    case (L_Index p q)
    then have "mux_step l m (m\<lparr>m_paths := m_paths m @ [p @ q]\<rparr>)" using lp by (auto simp: label_paths_def intro: mux_step.Open_Path)
    moreover have "mux_rel W st' (m\<lparr>m_paths := m_paths m @ [p @ q]\<rparr>)"
      by (rule rel') (use L_Index lp lf f in \<open>simp_all add: label_paths_def label_frames_def\<close>)
    ultimately show ?thesis by blast
  next
    case (L_Write p b)
    have d: "data_on q gs = (if q = p then b else [])" for q
      using data_on_frames [of gs p q] lf L_Write by (auto simp: label_frames_def)
    have c: "\<lparr>f_path = q, f_data = []\<rparr> \<notin> set gs" for q using lf L_Write by (fastforce simp: label_frames_def)
    let ?m = "m\<lparr>m_data := (m_data m)(p := m_data m p @ b)\<rparr>"
    have "mux_step l m ?m" using L_Write lp by (auto simp: label_paths_def intro: mux_step.Write)
    moreover have "mux_rel W st' ?m" by (rule rel') (use L_Write lp f d c in \<open>simp_all add: label_paths_def\<close>)
    ultimately show ?thesis by blast
  next
    case (L_Close p)
    let ?m = "m\<lparr>m_closed := insert p (m_closed m)\<rparr>"
    have "mux_step l m ?m" using L_Close lp by (auto simp: label_paths_def intro: mux_step.Close)
    moreover have "mux_rel W st' ?m"
      by (rule rel') (use L_Close lp lf f in \<open>auto simp: label_paths_def label_frames_def\<close>)
    ultimately show ?thesis by blast
  next
    case L_Error
    have "mux_rel W st' m" by (rule rel') (use L_Error lp lf f in \<open>auto simp: label_paths_def label_frames_def\<close>)
    then show ?thesis using L_Error mux_step.Error by blast
  qed
qed

text \<open>
  The handles and the queue implement independent byte streams: they start in related states, and every
  operation of a handle is the operation of the specification with the same label (claim C3).
\<close>

theorem outgoing_refines:
  assumes "leb128 W"
  shows "mux_rel W ([fst outgoing_new], snd outgoing_new) mux_new \<and>
    (\<forall>st m l st'. mux_rel W st m \<and> out_step W l st st' \<longrightarrow> (\<exists>m'. mux_step l m m' \<and> mux_rel W st' m'))"
  using mux_rel_new [OF assms] mux_rel_step by blast

theorem outgoing_refines_witness:
  "\<exists>m. mux_step (L_Write [] [5]) mux_new m \<and>
    mux_rel wasm_ref ([fst outgoing_new], \<lparr>q_frames = [([0], [5])], q_done = None\<rparr>) m"
proof -
  have "write_bytes (fst outgoing_new) [5] (snd outgoing_new) = (\<lparr>q_frames = [([0], [5])], q_done = None\<rparr>, Inr ())"
    by (simp add: outgoing_new_def send_frame_eq MAX_FRAME_DATA_def Let_def)
  then have "out_step wasm_ref (L_Write (o_path (fst outgoing_new)) [5]) ([fst outgoing_new], snd outgoing_new)
      ([fst outgoing_new], \<lparr>q_frames = [([0], [5])], q_done = None\<rparr>)"
    by (intro out_step.Write_Bytes) simp_all
  then show ?thesis using outgoing_refines [OF ref.leb128_axioms] by (auto simp: outgoing_new_def)
qed

section \<open>Both sides\<close>

text \<open>A history of the sender from its start, with the labels of its operations.\<close>

inductive out_run :: "wasm_tokio \<Rightarrow> out_label list \<Rightarrow> outgoing list \<times> egress_queue \<Rightarrow> bool" for W where
  Start: "out_run W [] ([fst outgoing_new], snd outgoing_new)"
| Step: "out_run W ls st \<Longrightarrow> out_step W l st st' \<Longrightarrow> out_run W (ls @ [l]) st'"

definition written :: "path \<Rightarrow> out_label list \<Rightarrow> bytes" where
  "written p ls = concat (map (\<lambda>l. case l of L_Write q b \<Rightarrow> if q = p then b else [] | _ \<Rightarrow> []) ls)"

lemma written_simps [simp]:
  "written p [] = []" "written p (ls @ ks) = written p ls @ written p ks"
  "written p (l # ls) = (case l of L_Write q b \<Rightarrow> if q = p then b else [] | _ \<Rightarrow> []) @ written p ls"
  by (simp_all add: written_def)

lemma label_frames_data: "label_frames l gs \<Longrightarrow> data_on p gs = (case l of L_Write q b \<Rightarrow> if q = p then b else [] | _ \<Rightarrow> [])"
  using data_on_frames [of gs _ p] by (auto simp: label_frames_def split: out_label.splits)

text \<open>The frames in the queue, operation by operation.\<close>

lemma out_run_frames:
  assumes "out_run W ls st" and "leb128 W"
  shows "(\<forall>h \<in> set (fst st). handle_ok W h) \<and>
    (\<exists>fss. q_frames (snd st) = queued W (concat fss) \<and> list_all2 label_frames ls fss \<and> (\<forall>f \<in> set (concat fss). frame_small f))"
  using assms(1)
proof induction
  case Start
  then show ?case using mux_rel_new [OF assms(2)] by (auto simp: mux_rel_def outgoing_new_def queued_def intro!: exI [of _ "[]"])
next
  case (Step ls st l st')
  then obtain fss where f: "q_frames (snd st) = queued W (concat fss)" "list_all2 label_frames ls fss" "\<forall>f \<in> set (concat fss). frame_small f"
    by blast
  from out_step_frames [OF conjunct1 [OF Step.IH] Step.hyps(2)] obtain gs where
    ok: "\<forall>h \<in> set (fst st'). handle_ok W h"
    and g: "q_frames (snd st') = q_frames (snd st) @ queued W gs" "label_frames l gs" "\<forall>f \<in> set gs. frame_small f" by blast
  have "q_frames (snd st') = queued W (concat (fss @ [gs]))" using f(1) g(1) by simp
  moreover have "list_all2 label_frames (ls @ [l]) (fss @ [gs])" using f(2) g(2) by (simp add: list_all2_appendI)
  ultimately show ?case using ok f(3) g(3) by (intro conjI exI [of _ "fss @ [gs]"]) auto
qed

lemma label_frames_written:
  "list_all2 label_frames ls fss \<Longrightarrow> data_on p (concat fss) = written p ls"
  by (induction rule: list_all2_induct) (simp_all add: label_frames_data)

text \<open>A prefix of the frames that holds an empty frame of a path comes after a close of that path.\<close>

lemma closed_prefix:
  assumes "list_all2 label_frames ls fss" and "concat fss = pre @ post" and "\<lparr>f_path = p, f_data = []\<rparr> \<in> set pre"
    and "\<And>xs ys. ls = xs @ L_Close p # ys \<Longrightarrow> written p ys = []"
  shows "data_on p pre = written p ls"
  using assms
proof (induction arbitrary: pre rule: list_all2_induct)
  case (Cons l ls gs fss)
  from Cons.prems(1) have "gs @ concat fss = pre @ post" by simp
  then show ?case
  proof (cases rule: append_prefix_cases)
    case (first u)
    then have "\<lparr>f_path = p, f_data = []\<rparr> \<in> set gs" using Cons.prems(2) by simp
    then have l: "l = L_Close p" using Cons.hyps(1) by (auto simp: label_frames_def split: out_label.splits)
    then have "pre = gs" using Cons.hyps(1) first Cons.prems(2) by (auto simp: label_frames_def append_eq_Cons_conv Cons_eq_append_conv)
    then show ?thesis using Cons.prems(3) [of "[]" ls] l label_frames_data [OF Cons.hyps(1), of p] by simp
  next
    case (second u)
    have w: "data_on p gs = (case l of L_Write q b \<Rightarrow> if q = p then b else [] | _ \<Rightarrow> [])" by (rule label_frames_data [OF Cons.hyps(1)])
    show ?thesis
    proof (cases "\<lparr>f_path = p, f_data = []\<rparr> \<in> set u")
      case True
      have "data_on p u = written p ls"
        by (rule Cons.IH [OF second(2) True]) (use Cons.prems(3) [of "l # xs" ys for xs ys] in simp)
      then show ?thesis using second(1) w by simp
    next
      case False
      then have "\<lparr>f_path = p, f_data = []\<rparr> \<in> set gs" using Cons.prems(2) second(1) by simp
      then have l: "l = L_Close p" using Cons.hyps(1) by (auto simp: label_frames_def split: out_label.splits)
      then have "written p ls = []" using Cons.prems(3) [of "[]" ls] by simp
      then have "data_on p (u @ post) = []" using label_frames_written [OF Cons.hyps(2), of p] second(2) by simp
      then show ?thesis using second(1) w l \<open>written p ls = []\<close> by simp
    qed
  qed
qed simp

lemma frame_bytes_path: "frame_bytes W f = path_bytes W (f_path f) @ leb_enc W 32 (length (f_data f)) @ f_data f"
  by (simp add: frame_bytes_def path_bytes_def)

lemma egress_stream:
  "\<forall>f \<in> set fs. frame_small f \<Longrightarrow> egress W None (queued W fs) out = (out @ stream_bytes W fs, Inr ())"
  by (induction fs arbitrary: out) (auto simp: queued_def frame_bytes_path u32_try_from_def frame_ok_def)

lemma egress_prefix:
  "\<forall>f \<in> set fs. frame_small f \<Longrightarrow> prefix (fst (egress W fault (queued W fs) out)) (out @ stream_bytes W fs)"
proof (induction fs arbitrary: out)
  case (Cons f fs)
  let ?out = "out @ frame_bytes W f"
  have u: "u32_try_from (length (f_data f)) = Inr (length (f_data f))" using Cons.prems by (auto simp: frame_ok_def)
  have "prefix (fst (egress W fault (queued W fs) ?out)) (?out @ stream_bytes W fs)"
    by (rule Cons.IH) (use Cons.prems in simp)
  moreover have "prefix (take k ?out) (?out @ stream_bytes W fs)" for k by (rule prefix_prefix [OF take_is_prefix])
  moreover have "egress W fault (queued W (f # fs)) out =
      (case fault of None \<Rightarrow> egress W fault (queued W fs) ?out
       | Some (k, e) \<Rightarrow> if k < length ?out then (take k ?out, Inl e) else egress W fault (queued W fs) ?out)"
    using u by (simp add: queued_def frame_bytes_path Let_def split: option.split)
  ultimately show ?case by (cases fault) (auto simp del: append_assoc simp add: append_assoc [symmetric])
qed (simp add: queued_def)

lemma stream_bytes_inj:
  assumes "leb128 W" and "\<forall>f \<in> set fs. frame_small f" and "fs = pre @ post" and "stream_bytes W fs = stream_bytes W pre"
  shows "pre = fs"
proof (cases post)
  case (Cons f post')
  then have "header_bytes W f \<noteq> []" using leb128.header_not_Nil [OF assms(1)] assms(2,3) by simp
  with assms(3,4) Cons show ?thesis by (simp add: frame_bytes_header)
qed (use assms(3) in simp)


text \<open>The sender of the run of the receiver above: it indexes \<open>[0]\<close>, writes two bytes and closes the path.\<close>

definition ex_out :: outgoing where
  "ex_out = \<lparr>o_path = [0], o_path_buf = [1, 0]\<rparr>"

definition ex_queue :: egress_queue where
  "ex_queue = \<lparr>q_frames = [([1, 0], [7, 8]), ([1, 0], [])], q_done = None\<rparr>"

lemma ex_out_run: "out_run wasm_ref [L_Index [] [0], L_Write [0] [7, 8], L_Close [0]] ([fst outgoing_new, ex_out], ex_queue)"
proof -
  let ?r = "fst outgoing_new" and ?q = "\<lparr>q_frames = [([1, 0], [7, 8])], q_done = None\<rparr>"
  have "outgoing_index wasm_ref ?r [0] = Inr ex_out"
    by (simp add: outgoing_index_def outgoing_new_def ex_out_def encode_path_eq uleb.simps as_u8_def)
  then have "out_step wasm_ref (L_Index (o_path ?r) [0]) ([?r], snd outgoing_new) ([?r] @ [ex_out], snd outgoing_new)"
    by (intro out_step.Index) simp_all
  with out_run.Start have 1: "out_run wasm_ref ([] @ [L_Index [] [0]]) ([?r] @ [ex_out], snd outgoing_new)"
    by (auto intro: out_run.Step simp: outgoing_new_def simp del: append_Nil)
  have "write_bytes ex_out [7, 8] (snd outgoing_new) = (?q, Inr ())"
    by (simp add: send_frame_eq outgoing_new_def ex_out_def MAX_FRAME_DATA_def Let_def)
  then have "out_step wasm_ref (L_Write (o_path ex_out) [7, 8]) ([?r] @ [ex_out], snd outgoing_new) ([?r] @ [ex_out], ?q)"
    by (intro out_step.Write_Bytes) simp_all
  from out_run.Step [OF 1 this] have 2: "out_run wasm_ref [L_Index [] [0], L_Write [0] [7, 8]] ([?r] @ [ex_out], ?q)"
    by (simp add: ex_out_def)
  have "outgoing_close ex_out ?q = (ex_queue, Inr ())" by (simp add: outgoing_close_def send_frame_eq ex_out_def ex_queue_def)
  then have "out_step wasm_ref (L_Close (o_path ex_out)) ([?r] @ [ex_out], ?q) ([?r] @ [ex_out], ex_queue)"
    by (intro out_step.Close) simp_all
  from out_run.Step [OF 2 this] show ?thesis by (simp add: ex_out_def)
qed


end
