(* ===== verification/Val_Codec.thy ===== *)
theory Val_Codec
  imports Wave_Codec Value_Codec
begin

text \<open>
  The codec of component values with resources, futures and streams, \<open>crates/wasmtime/src/codec.rs\<close>:
  \<open>ValEncoder::encode\<close> and \<open>read_value\<close>, for the feature \<open>wasmtime-wasi\<close>.

  \<^item> Both run on the store of \<open>wasmtime\<close>, whose tables they change. The store belongs to \<open>wasmtime\<close>: it is
    a type variable, and what the code calls on it is the record \<open>host\<close>, an argument of the definitions. The
    table of shared resources (\<open>SharedResourceTable\<close>) is of the crate itself, a map from the bytes of a UUID.
  \<^item> An action changes a state and gives a result or an error; the state is changed on an error as well. An
    encoder is the action of a fresh \<open>ValEncoder\<close> on a buffer, whose result is the buffer and the deferred
    operation, a tree as in \<open>Value_Codec\<close>.
  \<^item> A reader has besides an argument \<open>idx\<close>, which is \<open>Incoming::index\<close> on the state of the connection, and the path
    of the value that is read.
  \<^item> Capacities (\<open>reserve\<close>, \<open>with_capacity\<close>) and tracing are left out.
\<close>

section \<open>Actions\<close>

type_synonym ('s, 'e, 'a) exec = "'s \<Rightarrow> 's \<times> ('e + 'a)"

definition yield :: "'a \<Rightarrow> ('s, 'e, 'a) exec" where
  "yield a s = (s, Inr a)"

definition raise :: "'e \<Rightarrow> ('s, 'e, 'a) exec" where
  "raise e s = (s, Inl e)"

definition chain :: "('s, 'e, 'a) exec \<Rightarrow> ('a \<Rightarrow> ('s, 'e, 'b) exec) \<Rightarrow> ('s, 'e, 'b) exec" where
  "chain m f s = (case m s of (s, Inl e) \<Rightarrow> (s, Inl e) | (s, Inr a) \<Rightarrow> f a s)"

definition attempt :: "('x \<Rightarrow> 'e) \<Rightarrow> 'x + 'a \<Rightarrow> ('s, 'e, 'a) exec" where
  "attempt g r s = (s, case r of Inl x \<Rightarrow> Inl (g x) | Inr a \<Rightarrow> Inr a)"

section \<open>The store\<close>

text \<open>
  What one read of a \<open>wasi:io\<close> input stream gives. What the resource table has for a stream that was received:
  a pipe from the sub-stream of a connection, or bytes. What a future or stream that was received is made of:
  the value or values themselves, or the sub-stream and the type of the payload. Sub-streams are numbers.
\<close>

datatype stream_read = Read bytes | Closed | Failed | Not_Ready

datatype input_stream = Piped nat | Memory bytes

datatype val_future = Ready_Future "val option" | Pending_Future nat "ty option"

datatype val_stream = Ready_Stream "val list" | Pending_Stream nat ty

text \<open>
  The operations of the store. \<open>h_input_type\<close> and \<open>h_remote_type\<close> are the host types of \<open>DynInputStream\<close> and
  \<open>RemoteResource\<close>; \<open>h_type\<close> is \<open>ResourceAny::ty\<close>. \<open>try_into_resource\<close> gives the entry of the table and whether
  the resource is owned. The others are \<open>delete\<close>, \<open>get\<close> and \<open>push\<close> of the table, \<open>try_into_resource_any\<close>,
  \<open>Uuid::now_v7\<close> (as the bytes of \<open>to_bytes_le\<close>), \<open>try_into_future_reader\<close> with \<open>pipe\<close>, \<open>close\<close>, and \<open>FutureReader::new\<close> with
  \<open>try_into_future_any\<close>, and the same for streams.
\<close>

record 's host =
  h_input_type :: resource_type
  h_remote_type :: resource_type
  h_type :: "nat \<Rightarrow> resource_type"
  h_as_input :: "nat \<Rightarrow> ('s, unit, nat \<times> bool) exec"
  h_as_remote :: "nat \<Rightarrow> ('s, unit, nat \<times> bool) exec"
  h_delete_input :: "nat \<Rightarrow> ('s, unit, stream_read list) exec"
  h_get_input :: "nat \<Rightarrow> ('s, unit, unit) exec"
  h_delete_remote :: "nat \<Rightarrow> ('s, unit, bytes) exec"
  h_get_remote :: "nat \<Rightarrow> ('s, unit, bytes) exec"
  h_uuid :: "'s \<Rightarrow> 's \<times> bytes"
  h_pipe_future :: "nat \<Rightarrow> ty option \<Rightarrow> ('s, unit, unit) exec"
  h_pipe_stream :: "nat \<Rightarrow> ty \<Rightarrow> ('s, unit, unit) exec"
  h_close_future :: "nat \<Rightarrow> ('s, unit, unit) exec"
  h_close_stream :: "nat \<Rightarrow> ('s, unit, unit) exec"
  h_push_input :: "input_stream \<Rightarrow> ('s, unit, nat) exec"
  h_push_remote :: "bytes \<Rightarrow> ('s, unit, nat) exec"
  h_any_input :: "nat \<Rightarrow> ('s, unit, nat) exec"
  h_any_remote :: "nat \<Rightarrow> ('s, unit, nat) exec"
  h_new_future :: "val_future \<Rightarrow> ('s, unit, nat) exec"
  h_new_stream :: "val_stream \<Rightarrow> ('s, unit, nat) exec"

record 's world =
  w_store :: 's
  w_shared :: "bytes \<rightharpoonup> nat"

record resource_types =
  guest :: "resource_type list"
  io_streams :: "resource_type list"

definition on_store :: "'e \<Rightarrow> ('s, unit, 'a) exec \<Rightarrow> ('s world, 'e, 'a) exec" where
  "on_store e f w =
    (case f (w_store w) of
       (s, Inl _) \<Rightarrow> (w\<lparr>w_store := s\<rparr>, Inl e)
     | (s, Inr a) \<Rightarrow> (w\<lparr>w_store := s\<rparr>, Inr a))"

section \<open>Encoding\<close>

text \<open>The messages of the failures; \<open>Panicked\<close> is the overflow of a counter where it is checked.\<close>

datatype val_error =
    Unknown_Enum | Unknown_Variant | List_Length | Field_Count | Element_Count | Case_Count | Name_Count
  | Variant_Type_Missing | Variant_Payload_Missing | Result_Type_Unknown | Result_Value_Missing
  | Not_Input_Stream | Input_Delete | Input_Get | Input_Borrowed | Input_Encode io_error
  | Not_Remote | Remote_Delete | Remote_Get | Handle_Encode io_error | Host_Resource
  | Future_Convert | Future_Close | Future_Payload | Stream_Convert | Stream_Close | Stream_Payload | Stream_No_Payload
  | Error_Context_Unsupported | Map_Unsupported | Fixed_Length_List_Unsupported | Value_Mismatch
  | String_Encode io_error | Panicked

text \<open>What a deferred operation transmits: the offset of the status byte and the source of the data.\<close>

datatype leaf =
    Write_Future nat nat "ty option"
  | Write_Stream nat nat ty
  | Write_Input nat bytes "poll list"

type_synonym 's encoding = "bytes \<Rightarrow> ('s world, val_error, bytes \<times> leaf deferred option) exec"

text \<open>
  \<open>zip(0u8.., names).find_map(..)\<close>: the counter is advanced before the next name is asked for. Advancing it past the
  largest value of \<open>w\<close> bits panics if overflow is checked (\<open>checked\<close>), and wraps around otherwise.
\<close>

fun find_discriminant :: "bool \<Rightarrow> nat \<Rightarrow> val_error \<Rightarrow> nat \<Rightarrow> (string \<times> 'a) list \<Rightarrow> string \<Rightarrow> val_error + nat \<times> 'a" where
  "find_discriminant checked w unknown i names c =
    (if checked \<and> i + 1 = 2 ^ w then Inl Panicked
     else
      (case names of
         [] \<Rightarrow> Inl unknown
       | (n, a) # names \<Rightarrow>
           if n = c then Inr (i, a) else find_discriminant checked w unknown ((i + 1) mod 2 ^ w) names c))"

declare find_discriminant.simps [simp del]

text \<open>
  \<open>flag_bits\<close> at an integer type of \<open>w\<close> bits, and the table of the types by the number of flags. The addition in the
  number of bytes saturates in the code; a list in memory is too short for that.
\<close>

definition flag_word :: "nat \<Rightarrow> string list \<Rightarrow> string list \<Rightarrow> nat" where
  "flag_word w names flags =
    fold (\<lambda>(i, name) v. if name \<in> set flags then or v (take_bit w (push_bit i 1)) else v) (enumerate 0 names) 0"

definition flag_width :: "nat \<Rightarrow> nat" where
  "flag_width n = (if n \<le> 8 then 8 else if n \<le> 16 then 16 else if n \<le> 32 then 32 else if n \<le> 64 then 64 else 128)"

definition val_flags :: "string list \<Rightarrow> string list \<Rightarrow> bytes" where
  "val_flags names flags =
    (let bits = length names in
     if bits \<le> 128 then
       take (max 1 ((bits + 7) div 8)) (to_le_bytes (flag_width bits div 8) (flag_word (flag_width bits) names flags))
     else
       fold (set_flag flags) (enumerate 0 names)
         (replicate (if bits mod 8 \<noteq> 0 then bits div 8 + 1 else bits div 8) 0))"

text \<open>\<open>with_payload!\<close>: the types a future or stream may carry.\<close>

definition payload :: "ty \<Rightarrow> bool" where
  "payload t \<longleftrightarrow>
    t \<in> {TBool, TS8, TU8, TS16, TU16, TS32, TU32, TS64, TU64, TFloat32, TFloat64, TChar, TString}"

definition with_payload :: "ty option \<Rightarrow> bool" where
  "with_payload u = (case u of None \<Rightarrow> True | Some t \<Rightarrow> payload t)"

text \<open>
  \<open>encode_future\<close> and \<open>encode_stream\<close>: the deferred operation for a future or stream, which is piped to it. \<open>encode_val_future\<close> and
  \<open>encode_val_stream\<close> are the branches of \<open>encode\<close>.
\<close>

definition encode_future :: "'s host \<Rightarrow> nat \<Rightarrow> ty option \<Rightarrow> nat \<Rightarrow> ('s world, val_error, leaf deferred) exec" where
  "encode_future H future u offset =
    chain (on_store Future_Convert (h_pipe_future H future u)) (\<lambda>_. yield (Here (Write_Future offset future u)))"

definition encode_val_future :: "'s host \<Rightarrow> nat \<Rightarrow> ty option \<Rightarrow> 's encoding" where
  "encode_val_future H future u dst =
    (if with_payload u then
       chain (encode_future H future u (length dst)) (\<lambda>deferred. yield (dst @ [0], Some deferred))
     else chain (on_store Future_Close (h_close_future H future)) (\<lambda>_. raise Future_Payload))"

definition encode_stream :: "'s host \<Rightarrow> nat \<Rightarrow> ty \<Rightarrow> nat \<Rightarrow> ('s world, val_error, leaf deferred) exec" where
  "encode_stream H stream t offset =
    chain (on_store Stream_Convert (h_pipe_stream H stream t)) (\<lambda>_. yield (Here (Write_Stream offset stream t)))"

definition encode_val_stream :: "'s host \<Rightarrow> nat \<Rightarrow> ty option \<Rightarrow> 's encoding" where
  "encode_val_stream H stream u dst =
    (case u of
       Some t \<Rightarrow>
         if payload t then
           chain (encode_stream H stream t (length dst)) (\<lambda>deferred. yield (dst @ [0], Some deferred))
         else chain (on_store Stream_Close (h_close_stream H stream)) (\<lambda>_. raise Stream_Payload)
     | None \<Rightarrow> chain (on_store Stream_Close (h_close_stream H stream)) (\<lambda>_. raise Stream_No_Payload))"

definition READ_CHUNK_SIZE :: nat where
  "READ_CHUNK_SIZE = 8192"

text \<open>The reader over an input stream: empty reads are repeated.\<close>

fun input_items :: "stream_read list \<Rightarrow> poll list" where
  "input_items [] = []"
| "input_items (Read buf # rs) = (if buf = [] then input_items rs else Data buf # input_items rs)"
| "input_items (Closed # rs) = [Eof]"
| "input_items (Failed # rs) = [Error Other]"
| "input_items (Not_Ready # rs) = Wait # input_items rs"

definition encode_input :: "wasm_tokio \<Rightarrow> 's host \<Rightarrow> nat \<Rightarrow> 's encoding" where
  "encode_input W H resource dst =
    chain (on_store Not_Input_Stream (h_as_input H resource)) (\<lambda>(stream, owned).
      if owned then
        chain (on_store Input_Delete (h_delete_input H stream)) (\<lambda>reads.
          attempt Input_Encode (stream_encode_read W Write_Input READ_CHUNK_SIZE (input_items reads) dst))
      else chain (on_store Input_Get (h_get_input H stream)) (\<lambda>_. raise Input_Borrowed))"

text \<open>A handle is a vector of bytes; \<open>encode_handle\<close> appends it.\<close>

definition encode_handle :: "wasm_tokio \<Rightarrow> bytes \<Rightarrow> 's encoding" where
  "encode_handle W buf dst = chain (attempt Handle_Encode (vec_enc W buf)) (\<lambda>b. yield (dst @ b, None))"

definition new_uuid :: "'s host \<Rightarrow> ('s world, 'e, bytes) exec" where
  "new_uuid H w = (case h_uuid H (w_store w) of (s, u) \<Rightarrow> (w\<lparr>w_store := s\<rparr>, Inr u))"

definition share :: "bytes \<Rightarrow> nat \<Rightarrow> ('s world, 'e, unit) exec" where
  "share u resource w = (w\<lparr>w_shared := (w_shared w)(u \<mapsto> resource)\<rparr>, Inr ())"

definition encode_resource :: "wasm_tokio \<Rightarrow> 's host \<Rightarrow> resource_types \<Rightarrow> nat \<Rightarrow> resource_type \<Rightarrow> 's encoding" where
  "encode_resource W H R resource r dst =
    (if r = h_input_type H \<or> r \<in> set (io_streams R) then encode_input W H resource dst
     else if h_type H resource = h_remote_type H then
       chain (on_store Not_Remote (h_as_remote H resource)) (\<lambda>(entry, owned).
         if owned then chain (on_store Remote_Delete (h_delete_remote H entry)) (\<lambda>buf. encode_handle W buf dst)
         else chain (on_store Remote_Get (h_get_remote H entry)) (\<lambda>buf. encode_handle W buf dst))
     else if r \<in> set (guest R) then
       chain (new_uuid H) (\<lambda>u.
         chain (encode_handle W u dst) (\<lambda>r. chain (share u resource) (\<lambda>_. yield r)))
     else raise Host_Resource)"

definition mismatch :: "ty \<Rightarrow> val_error" where
  "mismatch t =
    (case t of
       TErrorContext \<Rightarrow> Error_Context_Unsupported
     | TMap _ _ \<Rightarrow> Map_Unsupported
     | TFixedLengthList _ _ \<Rightarrow> Fixed_Length_List_Unsupported
     | _ \<Rightarrow> Value_Mismatch)"

definition put :: "bool \<Rightarrow> ty \<Rightarrow> bytes \<Rightarrow> 's encoding" where
  "put ok t b dst = (if ok then yield (dst @ b, None) else raise (mismatch t))"

text \<open>The loop over the elements of a compound value.\<close>

fun encode_each :: "'s encoding list \<Rightarrow> bytes \<Rightarrow> ('s world, val_error, bytes \<times> leaf deferred option list) exec" where
  "encode_each [] dst = yield (dst, [])"
| "encode_each (e # es) dst =
    chain (e dst) (\<lambda>(dst, d). chain (encode_each es dst) (\<lambda>(dst, ds). yield (dst, d # ds)))"

definition encode_elements :: "'s encoding list \<Rightarrow> 's encoding" where
  "encode_elements es dst = chain (encode_each es dst) (\<lambda>(dst, ds). yield (dst, collect ds))"

definition val_list :: "wasm_tokio \<Rightarrow> 's encoding list \<Rightarrow> 's encoding" where
  "val_list W es dst =
    (if length es < 2 ^ 32 then encode_elements es (dst @ leb_enc W 32 (length es)) else raise List_Length)"

definition val_record :: "(string \<times> (ty \<Rightarrow> 's encoding)) list \<Rightarrow> (string \<times> ty) list \<Rightarrow> 's encoding" where
  "val_record fs ts dst =
    (if length fs \<noteq> length ts then raise Field_Count
     else encode_elements (map (\<lambda>((name, e), (_, u)). e u) (zip fs ts)) dst)"

definition val_tuple :: "(ty \<Rightarrow> 's encoding) list \<Rightarrow> ty list \<Rightarrow> 's encoding" where
  "val_tuple es ts dst =
    (if length es \<noteq> length ts then raise Element_Count
     else encode_elements (map (\<lambda>(e, u). e u) (zip es ts)) dst)"

definition val_variant ::
  "wasm_tokio \<Rightarrow> bool \<Rightarrow> string \<Rightarrow> (ty \<Rightarrow> 's encoding) option \<Rightarrow> (string \<times> ty option) list \<Rightarrow> 's encoding" where
  "val_variant W checked c v cases dst =
    (case disc_width (length cases) of
       None \<Rightarrow> raise Case_Count
     | Some w \<Rightarrow>
         chain (attempt id (find_discriminant checked w Unknown_Variant 0 cases c)) (\<lambda>(discriminant, u).
           (let dst = dst @ leb_enc W w discriminant in
            case v of
              Some e \<Rightarrow> (case u of None \<Rightarrow> raise Variant_Type_Missing | Some u \<Rightarrow> e u dst)
            | None \<Rightarrow> if u \<noteq> None then raise Variant_Payload_Missing else yield (dst, None))))"

definition val_enum :: "wasm_tokio \<Rightarrow> bool \<Rightarrow> string \<Rightarrow> string list \<Rightarrow> 's encoding" where
  "val_enum W checked c names dst =
    (case disc_width (length names) of
       None \<Rightarrow> raise Name_Count
     | Some w \<Rightarrow>
         chain (attempt id (find_discriminant checked w Unknown_Enum 0 (map (\<lambda>n. (n, ())) names) c))
           (\<lambda>(discriminant, _). yield (dst @ leb_enc W w discriminant, None)))"

definition val_option :: "(ty \<Rightarrow> 's encoding) option \<Rightarrow> ty \<Rightarrow> 's encoding" where
  "val_option v u dst = (case v of None \<Rightarrow> yield (dst @ [0], None) | Some e \<Rightarrow> e u (dst @ [1]))"

definition val_result :: "bool \<Rightarrow> (ty \<Rightarrow> 's encoding) option \<Rightarrow> ty option \<Rightarrow> 's encoding" where
  "val_result ok v u dst =
    (case (v, u) of
       (Some e, Some u) \<Rightarrow> e u (dst @ [if ok then 0 else 1])
     | (Some _, None) \<Rightarrow> raise Result_Type_Unknown
     | (None, Some _) \<Rightarrow> raise Result_Value_Missing
     | (None, None) \<Rightarrow> yield (dst @ [if ok then 0 else 1], None))"

primrec val_encode :: "wasm_tokio \<Rightarrow> bool \<Rightarrow> 's host \<Rightarrow> resource_types \<Rightarrow> val \<Rightarrow> ty \<Rightarrow> 's encoding" where
  "val_encode W checked H R (VBool b) = (\<lambda>t. put (t = TBool) t [if b then 1 else 0])"
| "val_encode W checked H R (VS8 i) = (\<lambda>t. put (t = TS8) t [i8_byte i])"
| "val_encode W checked H R (VU8 n) = (\<lambda>t. put (t = TU8) t [as_u8 n])"
| "val_encode W checked H R (VS16 i) = (\<lambda>t. put (t = TS16) t (sleb_enc W 16 i))"
| "val_encode W checked H R (VU16 n) = (\<lambda>t. put (t = TU16) t (leb_enc W 16 n))"
| "val_encode W checked H R (VS32 i) = (\<lambda>t. put (t = TS32) t (sleb_enc W 32 i))"
| "val_encode W checked H R (VU32 n) = (\<lambda>t. put (t = TU32) t (leb_enc W 32 n))"
| "val_encode W checked H R (VS64 i) = (\<lambda>t. put (t = TS64) t (sleb_enc W 64 i))"
| "val_encode W checked H R (VU64 n) = (\<lambda>t. put (t = TU64) t (leb_enc W 64 n))"
| "val_encode W checked H R (VFloat32 n) = (\<lambda>t. put (t = TFloat32) t (to_le_bytes 4 n))"
| "val_encode W checked H R (VFloat64 n) = (\<lambda>t. put (t = TFloat64) t (to_le_bytes 8 n))"
| "val_encode W checked H R (VChar c) = (\<lambda>t. put (t = TChar) t (char_enc W c))"
| "val_encode W checked H R (VString s) =
    (\<lambda>t dst. if t = TString then chain (attempt String_Encode (name_enc W s)) (\<lambda>b. yield (dst @ b, None))
             else raise (mismatch t))"
| "val_encode W checked H R (VList vs) =
    (\<lambda>t. case as_list t of
       Some u \<Rightarrow> val_list W (map (\<lambda>e. e u) (map (val_encode W checked H R) vs))
     | None \<Rightarrow> \<lambda>dst. raise (mismatch t))"
| "val_encode W checked H R (VRecord fs) =
    (\<lambda>t. case as_record t of
       Some ts \<Rightarrow> val_record (map (map_prod id (val_encode W checked H R)) fs) ts
     | None \<Rightarrow> \<lambda>dst. raise (mismatch t))"
| "val_encode W checked H R (VTuple vs) =
    (\<lambda>t. case as_tuple t of
       Some ts \<Rightarrow> val_tuple (map (val_encode W checked H R) vs) ts
     | None \<Rightarrow> \<lambda>dst. raise (mismatch t))"
| "val_encode W checked H R (VVariant c v) =
    (\<lambda>t. case as_variant t of
       Some cases \<Rightarrow> val_variant W checked c (map_option (val_encode W checked H R) v) cases
     | None \<Rightarrow> \<lambda>dst. raise (mismatch t))"
| "val_encode W checked H R (VEnum c) =
    (\<lambda>t. case as_enum t of
       Some names \<Rightarrow> val_enum W checked c names
     | None \<Rightarrow> \<lambda>dst. raise (mismatch t))"
| "val_encode W checked H R (VOption v) =
    (\<lambda>t. case as_option t of
       Some u \<Rightarrow> val_option (map_option (val_encode W checked H R) v) u
     | None \<Rightarrow> \<lambda>dst. raise (mismatch t))"
| "val_encode W checked H R (VResult ok v) =
    (\<lambda>t. case as_result t of
       Some (a, b) \<Rightarrow> val_result ok (map_option (val_encode W checked H R) v) (if ok then a else b)
     | None \<Rightarrow> \<lambda>dst. raise (mismatch t))"
| "val_encode W checked H R (VFlags fs) =
    (\<lambda>t. case as_flags t of
       Some names \<Rightarrow> \<lambda>dst. yield (dst @ val_flags names fs, None)
     | None \<Rightarrow> \<lambda>dst. raise (mismatch t))"
| "val_encode W checked H R (VResource x) =
    (\<lambda>t. case t of
       TOwn r \<Rightarrow> encode_resource W H R x r
     | TBorrow r \<Rightarrow> encode_resource W H R x r
     | _ \<Rightarrow> \<lambda>dst. raise (mismatch t))"
| "val_encode W checked H R (VFuture x) =
    (\<lambda>t. case t of TFuture u \<Rightarrow> encode_val_future H x u | _ \<Rightarrow> \<lambda>dst. raise (mismatch t))"
| "val_encode W checked H R (VStream x) =
    (\<lambda>t. case t of TStream u \<Rightarrow> encode_val_stream H x u | _ \<Rightarrow> \<lambda>dst. raise (mismatch t))"

section \<open>Reading\<close>

text \<open>
  A reader changes the store and the connection. \<open>idx\<close> is \<open>Incoming::index\<close>, whose result is the number of the
  sub-stream.
\<close>

type_synonym ('s, 'c, 'a) reading = "bytes \<Rightarrow> ('s world \<times> 'c, io_error, 'a \<times> bytes) exec"

type_synonym 'c index = "path \<Rightarrow> ('c, io_error, nat) exec"

definition take_from :: "'a reader \<Rightarrow> ('s, 'c, 'a) reading" where
  "take_from f b s = (s, f b)"

definition vret :: "'a \<Rightarrow> ('s, 'c, 'a) reading" where
  "vret a b s = (s, Inr (a, b))"

definition vfail :: "io_error \<Rightarrow> ('s, 'c, 'a) reading" where
  "vfail e b s = (s, Inl e)"

definition vbind :: "('s, 'c, 'a) reading \<Rightarrow> ('a \<Rightarrow> ('s, 'c, 'b) reading) \<Rightarrow> ('s, 'c, 'b) reading" where
  "vbind m f b = chain (m b) (\<lambda>(a, r). f a r)"

definition with_store :: "('s world, io_error, 'a) exec \<Rightarrow> ('s, 'c, 'a) reading" where
  "with_store f b s =
    (case f (fst s) of
       (w, Inl e) \<Rightarrow> ((w, snd s), Inl e)
     | (w, Inr a) \<Rightarrow> ((w, snd s), Inr (a, b)))"

text \<open>\<open>r.index(path).map_err(std::io::Error::other)\<close>\<close>

definition index_at :: "'c index \<Rightarrow> path \<Rightarrow> ('s, 'c, nat) reading" where
  "index_at idx path b s =
    (case idx path (snd s) of
       (c, Inl _) \<Rightarrow> ((fst s, c), Inl Other)
     | (c, Inr i) \<Rightarrow> ((fst s, c), Inr (i, b)))"

primrec vread_each :: "('s, 'c, 'a) reading list \<Rightarrow> ('s, 'c, 'a list) reading" where
  "vread_each [] = vret []"
| "vread_each (f # fs) = vbind f (\<lambda>a. vbind (vread_each fs) (\<lambda>as. vret (a # as)))"

definition read_bytes :: "wasm_tokio \<Rightarrow> bytes reader" where
  "read_bytes W =
    bind (leb_read W 32) (\<lambda>n b. if length (take n b) \<noteq> n then Inl UnexpectedEof else Inr (take n b, drop n b))"

definition val_read_flags :: "string list \<Rightarrow> string list reader" where
  "val_read_flags names =
    (let bits = length names in
     if bits \<le> 128 then
       bind (read_le (max 1 ((bits + 7) div 8))) (\<lambda>flags.
         ret (map snd (filter (\<lambda>(i, name). bit flags i) (enumerate 0 names))))
     else
       bind (read_exact (if bits mod 8 \<noteq> 0 then bits div 8 + 1 else bits div 8)) (\<lambda>buf.
         ret (map snd (filter (\<lambda>(i, name). bit (buf ! (i div 8)) (i mod 8)) (enumerate 0 names)))))"

text \<open>\<open>Payload::from_val\<close>: whether a value is one of the type of the payload.\<close>

definition from_val :: "ty option \<Rightarrow> val option \<Rightarrow> bool" where
  "from_val u v =
    (case (u, v) of
       (None, None) \<Rightarrow> True
     | (Some t, Some v) \<Rightarrow>
         (case v of
            VBool _ \<Rightarrow> t = TBool | VS8 _ \<Rightarrow> t = TS8 | VU8 _ \<Rightarrow> t = TU8 | VS16 _ \<Rightarrow> t = TS16 | VU16 _ \<Rightarrow> t = TU16
          | VS32 _ \<Rightarrow> t = TS32 | VU32 _ \<Rightarrow> t = TU32 | VS64 _ \<Rightarrow> t = TS64 | VU64 _ \<Rightarrow> t = TU64
          | VFloat32 _ \<Rightarrow> t = TFloat32 | VFloat64 _ \<Rightarrow> t = TFloat64 | VChar _ \<Rightarrow> t = TChar
          | VString _ \<Rightarrow> t = TString | _ \<Rightarrow> False)
     | _ \<Rightarrow> False)"

definition read_payload ::
  "(path \<Rightarrow> ('s, 'c, val) reading) option \<Rightarrow> ty option \<Rightarrow> path \<Rightarrow> ('s, 'c, val option) reading" where
  "read_payload f u path =
    vbind (case f of None \<Rightarrow> vret None | Some g \<Rightarrow> vbind (g path) (\<lambda>v. vret (Some v))) (\<lambda>v.
      if from_val u v then vret v else vfail Other)"

definition read_future ::
  "wasm_tokio \<Rightarrow> 's host \<Rightarrow> 'c index \<Rightarrow> ty option \<Rightarrow> (path \<Rightarrow> ('s, 'c, val) reading) option \<Rightarrow> path \<Rightarrow>
   ('s, 'c, nat) reading" where
  "read_future W H idx u f path =
    vbind (take_from (read_option_status W)) (\<lambda>ready.
      if ready then
        vbind (read_payload f u path) (\<lambda>v. with_store (on_store Other (h_new_future H (Ready_Future v))))
      else
        vbind (index_at idx path) (\<lambda>r. with_store (on_store Other (h_new_future H (Pending_Future r u)))))"

definition read_stream ::
  "wasm_tokio \<Rightarrow> 's host \<Rightarrow> 'c index \<Rightarrow> (path \<Rightarrow> ('s, 'c, val) reading) \<Rightarrow> ty \<Rightarrow> path \<Rightarrow> ('s, 'c, nat) reading" where
  "read_stream W H idx f t path =
    vbind (take_from (read_option_status W)) (\<lambda>ready.
      if ready then
        vbind (take_from (leb_read W 32)) (\<lambda>n.
          vbind (vread_each (replicate n (read_payload (Some f) (Some t) path))) (\<lambda>vs.
            with_store (on_store Other (h_new_stream H (Ready_Stream (List.map_filter id vs))))))
      else
        vbind (index_at idx path) (\<lambda>r. with_store (on_store Other (h_new_stream H (Pending_Stream r t)))))"

text \<open>A stream with the status byte that says whether it is on a sub-stream of its own.\<close>

definition read_input :: "wasm_tokio \<Rightarrow> 's host \<Rightarrow> 'c index \<Rightarrow> path \<Rightarrow> ('s, 'c, val) reading" where
  "read_input W H idx path =
    vbind (take_from read_u8) (\<lambda>status.
      vbind (if status = 0 then vbind (index_at idx path) (\<lambda>r. vret (Piped r))
             else if status = 1 then vbind (take_from (read_bytes W)) (\<lambda>buf. vret (Memory buf))
             else vfail InvalidData) (\<lambda>stream.
        vbind (with_store (on_store OutOfMemory (h_push_input H stream))) (\<lambda>res.
          vbind (with_store (on_store Other (h_any_input H res))) (\<lambda>v. vret (VResource v)))))"

definition lookup_shared :: "bytes \<Rightarrow> ('s world, io_error, nat) exec" where
  "lookup_shared u w = (w, case w_shared w u of None \<Rightarrow> Inl NotFound | Some r \<Rightarrow> Inr r)"

definition read_resource ::
  "wasm_tokio \<Rightarrow> 's host \<Rightarrow> 'c index \<Rightarrow> resource_types \<Rightarrow> resource_type \<Rightarrow> path \<Rightarrow> ('s, 'c, val) reading" where
  "read_resource W H idx R r path =
    (if r = h_input_type H \<or> r \<in> set (io_streams R) then read_input W H idx path
     else if r \<in> set (guest R) then
       vbind (take_from (leb_read W 8)) (\<lambda>n.
         if n \<noteq> 16 then vfail InvalidInput
         else
           vbind (take_from (read_exact 16)) (\<lambda>u.
             vbind (with_store (lookup_shared u)) (\<lambda>v. vret (VResource v))))
     else
       vbind (take_from (read_bytes W)) (\<lambda>buf.
         vbind (with_store (on_store OutOfMemory (h_push_remote H buf))) (\<lambda>res.
           vbind (with_store (on_store Other (h_any_remote H res))) (\<lambda>v. vret (VResource v)))))"

definition val_read_list :: "wasm_tokio \<Rightarrow> (path \<Rightarrow> ('s, 'c, val) reading) \<Rightarrow> path \<Rightarrow> ('s, 'c, val) reading" where
  "val_read_list W f path =
    vbind (take_from (leb_read W 32)) (\<lambda>n.
      vbind (vread_each (map (\<lambda>i. f (path @ [i])) [0..<n])) (\<lambda>vs. vret (VList vs)))"

definition val_read_record :: "(string \<times> (path \<Rightarrow> ('s, 'c, val) reading)) list \<Rightarrow> path \<Rightarrow> ('s, 'c, val) reading" where
  "val_read_record fs path =
    vbind (vread_each (map (\<lambda>(i, (name, f)). f (path @ [i])) (enumerate 0 fs)))
      (\<lambda>vs. vret (VRecord (zip (map fst fs) vs)))"

definition val_read_tuple :: "(path \<Rightarrow> ('s, 'c, val) reading) list \<Rightarrow> path \<Rightarrow> ('s, 'c, val) reading" where
  "val_read_tuple fs path =
    vbind (vread_each (map (\<lambda>(i, f). f (path @ [i])) (enumerate 0 fs))) (\<lambda>vs. vret (VTuple vs))"

definition val_read_option :: "wasm_tokio \<Rightarrow> (path \<Rightarrow> ('s, 'c, val) reading) \<Rightarrow> path \<Rightarrow> ('s, 'c, val) reading" where
  "val_read_option W f path =
    vbind (take_from (read_option_status W)) (\<lambda>some.
      if some then vbind (f path) (\<lambda>v. vret (VOption (Some v))) else vret (VOption None))"

definition val_read_variant ::
  "wasm_tokio \<Rightarrow> (string \<times> (path \<Rightarrow> ('s, 'c, val) reading) option) list \<Rightarrow> path \<Rightarrow> ('s, 'c, val) reading" where
  "val_read_variant W cases path =
    vbind (take_from (leb_read W 32)) (\<lambda>discriminant.
      if discriminant < length cases then
        (case cases ! discriminant of
           (name, Some f) \<Rightarrow> vbind (f path) (\<lambda>v. vret (VVariant name (Some v)))
         | (name, None) \<Rightarrow> vret (VVariant name None))
      else vfail InvalidInput)"

definition val_read_enum :: "wasm_tokio \<Rightarrow> string list \<Rightarrow> ('s, 'c, val) reading" where
  "val_read_enum W names =
    vbind (take_from (leb_read W 32)) (\<lambda>discriminant.
      if discriminant < length names then vret (VEnum (names ! discriminant)) else vfail InvalidInput)"

definition val_read_result ::
  "wasm_tokio \<Rightarrow> (path \<Rightarrow> ('s, 'c, val) reading) option \<Rightarrow> (path \<Rightarrow> ('s, 'c, val) reading) option \<Rightarrow> path \<Rightarrow>
   ('s, 'c, val) reading" where
  "val_read_result W f g path =
    vbind (take_from (read_result_status W)) (\<lambda>ok.
      case (if ok then f else g) of
        Some h \<Rightarrow> vbind (h path) (\<lambda>v. vret (VResult ok (Some v)))
      | None \<Rightarrow> vret (VResult ok None))"

primrec val_read ::
  "wasm_tokio \<Rightarrow> 's host \<Rightarrow> 'c index \<Rightarrow> resource_types \<Rightarrow> ty \<Rightarrow> path \<Rightarrow> ('s, 'c, val) reading" where
  "val_read W H idx R TBool = (\<lambda>path. vbind (take_from (read_bool W)) (\<lambda>v. vret (VBool v)))"
| "val_read W H idx R TS8 = (\<lambda>path. vbind (take_from read_i8) (\<lambda>v. vret (VS8 v)))"
| "val_read W H idx R TU8 = (\<lambda>path. vbind (take_from read_u8) (\<lambda>v. vret (VU8 (unat v))))"
| "val_read W H idx R TS16 = (\<lambda>path. vbind (take_from (sleb_read W 16)) (\<lambda>v. vret (VS16 v)))"
| "val_read W H idx R TU16 = (\<lambda>path. vbind (take_from (leb_read W 16)) (\<lambda>v. vret (VU16 v)))"
| "val_read W H idx R TS32 = (\<lambda>path. vbind (take_from (sleb_read W 32)) (\<lambda>v. vret (VS32 v)))"
| "val_read W H idx R TU32 = (\<lambda>path. vbind (take_from (leb_read W 32)) (\<lambda>v. vret (VU32 v)))"
| "val_read W H idx R TS64 = (\<lambda>path. vbind (take_from (sleb_read W 64)) (\<lambda>v. vret (VS64 v)))"
| "val_read W H idx R TU64 = (\<lambda>path. vbind (take_from (leb_read W 64)) (\<lambda>v. vret (VU64 v)))"
| "val_read W H idx R TFloat32 = (\<lambda>path. vbind (take_from (read_le 4)) (\<lambda>v. vret (VFloat32 v)))"
| "val_read W H idx R TFloat64 = (\<lambda>path. vbind (take_from (read_le 8)) (\<lambda>v. vret (VFloat64 v)))"
| "val_read W H idx R TChar = (\<lambda>path. vbind (take_from (char_read W)) (\<lambda>v. vret (VChar v)))"
| "val_read W H idx R TString = (\<lambda>path. vbind (take_from (name_read W)) (\<lambda>v. vret (VString v)))"
| "val_read W H idx R (TList t) = val_read_list W (val_read W H idx R t)"
| "val_read W H idx R (TRecord fs) = val_read_record (map (map_prod id (val_read W H idx R)) fs)"
| "val_read W H idx R (TTuple ts) = val_read_tuple (map (val_read W H idx R) ts)"
| "val_read W H idx R (TVariant cs) = val_read_variant W (map (map_prod id (map_option (val_read W H idx R))) cs)"
| "val_read W H idx R (TEnum names) = (\<lambda>path. val_read_enum W names)"
| "val_read W H idx R (TOption t) = val_read_option W (val_read W H idx R t)"
| "val_read W H idx R (TResult a b) =
    val_read_result W (map_option (val_read W H idx R) a) (map_option (val_read W H idx R) b)"
| "val_read W H idx R (TFlags names) = (\<lambda>path. vbind (take_from (val_read_flags names)) (\<lambda>vs. vret (VFlags vs)))"
| "val_read W H idx R (TOwn r) = read_resource W H idx R r"
| "val_read W H idx R (TBorrow r) = read_resource W H idx R r"
| "val_read W H idx R (TFuture u) =
    (\<lambda>path. if with_payload u then
        vbind (read_future W H idx u (map_option (val_read W H idx R) u) path) (\<lambda>v. vret (VFuture v))
      else vfail Unsupported)"
| "val_read W H idx R (TStream u) =
    (\<lambda>path. case (u, map_option (val_read W H idx R) u) of
       (Some t, Some f) \<Rightarrow>
         if payload t then vbind (read_stream W H idx f t path) (\<lambda>v. vret (VStream v)) else vfail Unsupported
     | _ \<Rightarrow> vfail Unsupported)"
| "val_read W H idx R TErrorContext = (\<lambda>path. vfail Unsupported)"
| "val_read W H idx R (TMap _ _) = (\<lambda>path. vfail Unsupported)"
| "val_read W H idx R (TFixedLengthList _ _) = (\<lambda>path. vfail Unsupported)"

section \<open>Futures and streams of the store\<close>

text \<open>
  What the store does when it polls the consumer of a future or stream that is sent, and the producer of one that is
  received. The result of a poll of a stream is \<open>None\<close> while it is pending.
\<close>

datatype stream_result = Completed | Cancelled | Dropped

text \<open>
  The consumer of a future: whether it still has the sender of its channel, and the value that was read. It gives
  whether it has the sender afterwards, and what was sent.
\<close>

definition consume_future :: "bool \<Rightarrow> 'v option \<Rightarrow> bool \<times> 'v option" where
  "consume_future tx v = (False, if tx then v else None)"

text \<open>
  The consumer of a stream: whether the channel has room, is full, or its receiver is gone; \<open>open\<close> is whether the
  receiver is still there when the chunk is sent. It gives what was sent and what is left in the source.
\<close>

datatype reservation = Reserved | Gone | Full

definition consume_stream ::
  "reservation \<Rightarrow> bool \<Rightarrow> bool \<Rightarrow> 'v list \<Rightarrow> 'v list option \<times> 'v list \<times> stream_result option" where
  "consume_stream reserved open finish source =
    (case reserved of
       Gone \<Rightarrow> (None, source, Some Dropped)
     | Full \<Rightarrow> (None, source, if finish then Some Cancelled else None)
     | Reserved \<Rightarrow>
         (let n = length source in
          if n > 0 then
            (let k = min n READ_CHUNK_SIZE in
             if open then (Some (take k source), drop k source, Some Completed)
             else (None, drop k source, Some Dropped))
          else (None, source, Some Completed)))"

text \<open>
  What a future that is received on a sub-stream resolves to, given the first item the decoder gives and the bytes it left;
  \<open>None\<close> if it never does.
\<close>

definition await_future :: "(io_error + 'v) option \<Rightarrow> bytes \<Rightarrow> 'v option" where
  "await_future v unread =
    (case v of
       Some (Inr v) \<Rightarrow> if unread = [] then Some v else None
     | Some (Inl _) \<Rightarrow> None
     | None \<Rightarrow> None)"

text \<open>What polling the decoder of a stream gives; a chunk comes with the bytes that are left in the buffer.\<close>

datatype 'v next_chunk = Chunk "'v list" bytes | Chunk_Error io_error | Chunk_End | Chunk_Pending

text \<open>
  The producer of a stream: whether it still has the decoder, the room of the destination, and whether the
  operation is to be finished. It gives whether it has the decoder afterwards, the items for the destination and the result.
\<close>

definition poll_produce ::
  "bool \<Rightarrow> nat option \<Rightarrow> bool \<Rightarrow> 'v next_chunk \<Rightarrow> bool \<times> 'v list option \<times> stream_result option" where
  "poll_produce rx n finish next =
    (let waiting = (if finish then Some Cancelled else None) in
     if n = Some 0 then (rx, None, Some Completed)
     else if \<not> rx then (False, None, waiting)
     else
      (case next of
         Chunk [] unread \<Rightarrow> if unread = [] then (False, None, Some Dropped) else (False, None, waiting)
       | Chunk vs _ \<Rightarrow> (True, Some vs, Some Completed)
       | Chunk_Error _ \<Rightarrow> (False, None, waiting)
       | Chunk_End \<Rightarrow> (False, None, waiting)
       | Chunk_Pending \<Rightarrow> (True, None, waiting)))"

section \<open>Basic facts\<close>

lemma chain_yield [simp]: "chain (yield a) f = f a"
  by (rule ext) (simp add: chain_def yield_def)

lemma chain_raise [simp]: "chain (raise e) f = raise e"
  by (rule ext) (simp add: chain_def raise_def)

lemma yield_eq [simp]: "yield a s = (s', Inr b) \<longleftrightarrow> s' = s \<and> b = a"
  by (auto simp: yield_def)

lemma raise_neq [simp]: "raise e s \<noteq> (s', Inr b)"
  by (simp add: raise_def)

lemma chain_eq_Inr: "chain m f s = (s', Inr b) \<longleftrightarrow> (\<exists>a t. m s = (t, Inr a) \<and> f a t = (s', Inr b))"
  by (auto simp: chain_def split: prod.splits sum.splits)

lemma attempt_eq [simp]: "attempt g r s = (s', Inr a) \<longleftrightarrow> s' = s \<and> r = Inr a"
  by (auto simp: attempt_def split: sum.splits)

lemma on_store_eq:
  "on_store e f w = (w', Inr a) \<longleftrightarrow> (\<exists>s. f (w_store w) = (s, Inr a) \<and> w' = w\<lparr>w_store := s\<rparr>)"
  by (auto simp: on_store_def split: prod.splits sum.splits)

lemma vbind_eq_Inr:
  "vbind m f b s = (s', Inr (x, r)) \<longleftrightarrow> (\<exists>a c t. m b s = (t, Inr (a, c)) \<and> f a c t = (s', Inr (x, r)))"
  by (auto simp: vbind_def chain_eq_Inr)

lemma vret_eq [simp]: "vret a b s = (s', Inr (x, r)) \<longleftrightarrow> s' = s \<and> x = a \<and> r = b"
  by (auto simp: vret_def)

lemma vfail_neq [simp]: "vfail e b s \<noteq> (s', Inr x)"
  by (simp add: vfail_def)

lemma take_from_eq [simp]: "take_from f b s = (s', Inr x) \<longleftrightarrow> s' = s \<and> f b = Inr x"
  by (auto simp: take_from_def)

end
