(* ===== verification/Val_Store.thy ===== *)
theory Val_Store
  imports Val_Codec
begin

text \<open>
  What the codec of component values relies on of the store, as interfaces over the record \<open>host\<close>, and a store that
  provides it.

  \<^item> \<open>receiving_host\<close>: the table of resources is not full, and futures and streams can be made. \<open>push\<close> of \<open>ResourceTable\<close>
    fails only on a full table.
  \<^item> \<open>remote_table\<close>: a handle that was pushed is a resource of the type of handles, is owned, and can be taken out of the
    table again; a UUID has 16 bytes.
\<close>

locale receiving_host =
  fixes H :: "'s host"
  assumes push_input: "\<And>x s. \<exists>s' e. h_push_input H x s = (s', Inr e)"
    and any_input: "\<And>x s. \<exists>s' e. h_any_input H x s = (s', Inr e)"
    and push_remote: "\<And>x s. \<exists>s' e. h_push_remote H x s = (s', Inr e)"
    and any_remote: "\<And>x s. \<exists>s' e. h_any_remote H x s = (s', Inr e)"
    and new_future: "\<And>x s. \<exists>s' e. h_new_future H x s = (s', Inr e)"
    and new_stream: "\<And>x s. \<exists>s' e. h_new_stream H x s = (s', Inr e)"

locale remote_table = receiving_host H for H :: "'s host" +
  assumes pushed_type: "\<And>buf s s1 e s2 x. h_push_remote H buf s = (s1, Inr e) \<Longrightarrow> h_any_remote H e s1 = (s2, Inr x) \<Longrightarrow>
      h_type H x = h_remote_type H"
    and pushed_owned: "\<And>buf s s1 e s2 x. h_push_remote H buf s = (s1, Inr e) \<Longrightarrow> h_any_remote H e s1 = (s2, Inr x) \<Longrightarrow>
      \<exists>s3 s4. h_as_remote H x s2 = (s3, Inr (e, True)) \<and> h_delete_remote H e s3 = (s4, Inr buf)"
    and uuid_length: "\<And>s. length (snd (h_uuid H s)) = 16"

section \<open>A store with tables\<close>

text \<open>
  A resource is a number: its remainder by three is the type, with 0 the type of handles, 1 that of input streams and 2 that of
  the resources of a guest, and the rest is the entry of the table.
\<close>

datatype entry =
    Input_Entry input_stream | Source_Entry "stream_read list" | Remote_Entry bytes
  | Future_Entry val_future | Stream_Entry val_stream

record tables =
  t_next :: nat
  t_entries :: "nat \<rightharpoonup> entry"

definition t_push :: "entry \<Rightarrow> (tables, unit, nat) exec" where
  "t_push x s = (s\<lparr>t_next := t_next s + 1, t_entries := (t_entries s)(t_next s \<mapsto> x)\<rparr>, Inr (t_next s))"

definition t_delete :: "(entry \<Rightarrow> 'a option) \<Rightarrow> nat \<Rightarrow> (tables, unit, 'a) exec" where
  "t_delete f e s =
    (case t_entries s e of
       None \<Rightarrow> (s, Inl ())
     | Some x \<Rightarrow> (case f x of None \<Rightarrow> (s, Inl ()) | Some a \<Rightarrow> (s\<lparr>t_entries := (t_entries s)(e := None)\<rparr>, Inr a)))"

definition t_get :: "(entry \<Rightarrow> 'a option) \<Rightarrow> nat \<Rightarrow> (tables, unit, 'a) exec" where
  "t_get f e s = (s, case Option.bind (t_entries s e) f of None \<Rightarrow> Inl () | Some a \<Rightarrow> Inr a)"

definition remote_of :: "entry \<Rightarrow> bytes option" where
  "remote_of x = (case x of Remote_Entry b \<Rightarrow> Some b | _ \<Rightarrow> None)"

definition source_of :: "entry \<Rightarrow> stream_read list option" where
  "source_of x = (case x of Source_Entry rs \<Rightarrow> Some rs | _ \<Rightarrow> None)"

definition as_entry :: "nat \<Rightarrow> nat \<Rightarrow> (tables, unit, nat \<times> bool) exec" where
  "as_entry k x s = (s, if x mod 3 = k then Inr (x div 3, True) else Inl ())"

definition ref_host :: "tables host" where
  "ref_host =
    \<lparr>h_input_type = 1, h_remote_type = 0, h_type = (\<lambda>x. x mod 3), h_as_input = as_entry 1, h_as_remote = as_entry 0,
     h_delete_input = t_delete source_of, h_get_input = (\<lambda>e s. (s, Inr ())),
     h_delete_remote = t_delete remote_of, h_get_remote = t_get remote_of,
     h_uuid = (\<lambda>s. (s\<lparr>t_next := t_next s + 1\<rparr>, to_le_bytes 16 (t_next s))),
     h_pipe_future = (\<lambda>x u s. (s, Inr ())), h_pipe_stream = (\<lambda>x t s. (s, Inr ())),
     h_close_future = (\<lambda>x s. (s, Inr ())), h_close_stream = (\<lambda>x s. (s, Inr ())),
     h_push_input = (\<lambda>x. t_push (Input_Entry x)), h_push_remote = (\<lambda>b. t_push (Remote_Entry b)),
     h_any_input = (\<lambda>e s. (s, Inr (3 * e + 1))), h_any_remote = (\<lambda>e s. (s, Inr (3 * e))),
     h_new_future = (\<lambda>x. t_push (Future_Entry x)), h_new_stream = (\<lambda>x. t_push (Stream_Entry x))\<rparr>"

lemmas ref_host_simps [simp] = ref_host_def [THEN arg_cong, of h_input_type, simplified]
  ref_host_def [THEN arg_cong, of h_remote_type, simplified] ref_host_def [THEN arg_cong, of h_type, simplified]
  ref_host_def [THEN arg_cong, of h_as_input, simplified] ref_host_def [THEN arg_cong, of h_as_remote, simplified]
  ref_host_def [THEN arg_cong, of h_delete_input, simplified] ref_host_def [THEN arg_cong, of h_delete_remote, simplified]
  ref_host_def [THEN arg_cong, of h_uuid, simplified] ref_host_def [THEN arg_cong, of h_push_input, simplified]
  ref_host_def [THEN arg_cong, of h_push_remote, simplified] ref_host_def [THEN arg_cong, of h_any_input, simplified]
  ref_host_def [THEN arg_cong, of h_any_remote, simplified] ref_host_def [THEN arg_cong, of h_new_future, simplified]
  ref_host_def [THEN arg_cong, of h_new_stream, simplified] ref_host_def [THEN arg_cong, of h_pipe_future, simplified]
  ref_host_def [THEN arg_cong, of h_pipe_stream, simplified]

interpretation ref_store: remote_table ref_host
  by unfold_locales (auto simp: t_push_def as_entry_def t_delete_def remote_of_def)

definition no_tables :: tables where
  "no_tables = \<lparr>t_next = 0, t_entries = (\<lambda>_. None)\<rparr>"

end
