(* ===== verification/Val_Typing.thy ===== *)
theory Val_Typing
  imports Val_Store
begin

text \<open>
  The codec of component values (\<open>Val_Codec\<close>) and types.

  \<^item> \<open>val_typed\<close> extends \<open>has_type\<close> to values with resources, futures and streams.
  \<^item> On values without them the codec writes the bytes of the codec of \<open>Wave_Codec\<close> and reads what that one reads.
  \<^item> Whatever the bytes are, a value that is read has the type asked for.
  \<^item> What happens to a case that is not one of the type.
\<close>

section \<open>Typed values\<close>

primrec val_typed :: "val \<Rightarrow> ty \<Rightarrow> bool" where
  "val_typed (VBool b) = (\<lambda>t. has_type (VBool b) t)"
| "val_typed (VS8 i) = (\<lambda>t. has_type (VS8 i) t)"
| "val_typed (VU8 n) = (\<lambda>t. has_type (VU8 n) t)"
| "val_typed (VS16 i) = (\<lambda>t. has_type (VS16 i) t)"
| "val_typed (VU16 n) = (\<lambda>t. has_type (VU16 n) t)"
| "val_typed (VS32 i) = (\<lambda>t. has_type (VS32 i) t)"
| "val_typed (VU32 n) = (\<lambda>t. has_type (VU32 n) t)"
| "val_typed (VS64 i) = (\<lambda>t. has_type (VS64 i) t)"
| "val_typed (VU64 n) = (\<lambda>t. has_type (VU64 n) t)"
| "val_typed (VFloat32 n) = (\<lambda>t. has_type (VFloat32 n) t)"
| "val_typed (VFloat64 n) = (\<lambda>t. has_type (VFloat64 n) t)"
| "val_typed (VChar c) = (\<lambda>t. has_type (VChar c) t)"
| "val_typed (VString s) = (\<lambda>t. has_type (VString s) t)"
| "val_typed (VList vs) =
    (\<lambda>t. case as_list t of
       Some u \<Rightarrow> length vs < 2 ^ 32 \<and> list_all (\<lambda>p. p u) (map val_typed vs)
     | None \<Rightarrow> False)"
| "val_typed (VRecord fs) =
    (\<lambda>t. case as_record t of
       Some ts \<Rightarrow> list_all2 (\<lambda>(n, p) (m, u). n = m \<and> p u) (map (map_prod id val_typed) fs) ts
     | None \<Rightarrow> False)"
| "val_typed (VTuple vs) =
    (\<lambda>t. case as_tuple t of Some ts \<Rightarrow> list_all2 (\<lambda>p u. p u) (map val_typed vs) ts | None \<Rightarrow> False)"
| "val_typed (VVariant c v) =
    (\<lambda>t. case as_variant t of
       Some cs \<Rightarrow> distinct (map fst cs) \<and> length cs < 2 ^ 32 \<and>
         (case map_of cs c of None \<Rightarrow> False | Some u \<Rightarrow> rel_option (\<lambda>p u. p u) (map_option val_typed v) u)
     | None \<Rightarrow> False)"
| "val_typed (VEnum c) = (\<lambda>t. has_type (VEnum c) t)"
| "val_typed (VOption v) =
    (\<lambda>t. case as_option t of
       Some u \<Rightarrow> (case map_option val_typed v of None \<Rightarrow> True | Some p \<Rightarrow> p u)
     | None \<Rightarrow> False)"
| "val_typed (VResult ok v) =
    (\<lambda>t. case as_result t of
       Some (a, b) \<Rightarrow> rel_option (\<lambda>p u. p u) (map_option val_typed v) (if ok then a else b)
     | None \<Rightarrow> False)"
| "val_typed (VFlags fs) = (\<lambda>t. has_type (VFlags fs) t)"
| "val_typed (VResource x) = (\<lambda>t. case t of TOwn r \<Rightarrow> True | TBorrow r \<Rightarrow> True | _ \<Rightarrow> False)"
| "val_typed (VFuture x) = (\<lambda>t. case t of TFuture u \<Rightarrow> with_payload u | _ \<Rightarrow> False)"
| "val_typed (VStream x) = (\<lambda>t. case t of TStream (Some u) \<Rightarrow> payload u | _ \<Rightarrow> False)"

section \<open>Flags\<close>

text \<open>The flags are written as in \<open>Wave_Codec\<close>: the integer types are wide enough for the number of flags.\<close>

lemma bit_fold_flag_word:
  "bit (fold (\<lambda>(i, name) v. if name \<in> set flags then or v (take_bit w (push_bit i 1)) else v) (enumerate m names) v) j \<longleftrightarrow>
    bit v j \<or> m \<le> j \<and> j < m + length names \<and> j < w \<and> names ! (j - m) \<in> set flags"
  for v :: nat
proof (induction names arbitrary: m v)
  case (Cons n names)
  show ?case
    unfolding enumerate_simps fold_simps Cons.IH
    by (cases "j = m") (auto simp: bit_or_iff bit_take_bit_iff bit_exp_iff nth_Cons' not_less less_Suc_eq_le)
qed auto

lemma flag_word_eq: "length names \<le> w \<Longrightarrow> flag_word w names flags = flag_bits names flags"
  by (rule bit_eqI) (auto simp: flag_word_def bit_fold_flag_word bit_flag_bits)

lemma take_to_le: "take j (to_le_bytes k n) = to_le_bytes (min j k) n"
  by (simp add: to_le_bytes_def take_map take_upt min_def)

lemma flag_width_bounds: "n \<le> 128 \<Longrightarrow> n \<le> flag_width n \<and> max 1 ((n + 7) div 8) \<le> flag_width n div 8"
  by (auto simp: flag_width_def)

lemma ceil_div_8: "(if n mod 8 \<noteq> 0 then n div 8 + 1 else n div 8) = (n + 7) div 8" for n :: nat
  by presburger

lemma flag_bytes_eq: "flag_bytes n = max 1 ((n + 7) div 8)"
  by (auto simp: flag_bytes_def)

lemma val_flags_eq: "val_flags names flags = encode_flags names flags"
proof (cases "length names \<le> 128")
  case True
  from flag_width_bounds [OF this] True show ?thesis
    by (simp add: val_flags_def encode_flags_def Let_def flag_word_eq take_to_le flag_bytes_eq min_absorb1)
next
  case False
  then show ?thesis unfolding val_flags_def encode_flags_def flag_buf_def Let_def ceil_div_8 by simp
qed

lemma bit_from_le: "i < 8 * length bs \<Longrightarrow> bit (from_le_bytes bs) i \<longleftrightarrow> bit (bs ! (i div 8)) (i mod 8)"
proof (induction bs arbitrary: i)
  case (Cons b bs)
  have "bit (unat b + 256 * from_le_bytes bs) i \<longleftrightarrow> (if i < 8 then bit b i else bit (from_le_bytes bs) (i - 8))"
  proof -
    have "unat b + 256 * from_le_bytes bs = or (take_bit 8 (unat b)) (push_bit 8 (from_le_bytes bs))"
    proof -
      have "take_bit 8 (unat b) + push_bit 8 (from_le_bytes bs) = or (take_bit 8 (unat b)) (push_bit 8 (from_le_bytes bs))"
        by (rule disjunctive_add) (auto simp: bit_take_bit_iff bit_push_bit_iff)
      then show ?thesis by (simp add: push_bit_eq_mult take_bit_eq_mod)
    qed
    then show ?thesis by (auto simp: bit_or_iff bit_take_bit_iff bit_push_bit_iff bit_unsigned_iff)
  qed
  with Cons.IH [of "i - 8"] Cons.prems show ?case by (auto simp: nth_Cons' div_eq_0_iff mod_if le_div_geq le_mod_geq)
qed simp

lemma val_read_flags_eq: "val_read_flags names = bind (read_flags names) (\<lambda>buf. ret (flags_of names buf))"
proof (cases "length names \<le> 128")
  case True
  let ?n = "max 1 ((length names + 7) div 8)"
  have "map snd (filter (\<lambda>(i, name). bit (from_le_bytes buf) i) (enumerate 0 names)) = flags_of names buf"
    if "length buf = ?n" for buf
  proof -
    have "i < 8 * length buf" if "i < length names" for i using that \<open>length buf = ?n\<close> by linarith
    then show ?thesis unfolding flags_of_def
      by (intro arg_cong [where f = "map snd"] filter_cong) (auto simp: in_set_enumerate_eq bit_from_le)
  qed
  then show ?thesis using True
    by (auto simp: val_read_flags_def read_le_def read_flags_def bind_def fun_eq_iff read_exact_def)
next
  case False
  then have "max 1 ((length names + 7) div 8) = (length names + 7) div 8" by (simp add: max_def)
  with False show ?thesis unfolding val_read_flags_def read_flags_def flags_of_def Let_def ceil_div_8 by simp
qed

section \<open>Discriminants\<close>

lemma find_discriminant_found:
  "find_index i (map fst names) c = Some j \<Longrightarrow> i + length names < 2 ^ w \<Longrightarrow>
   find_discriminant k w e i names c = Inr (j, snd (names ! (j - i)))"
proof (induction names arbitrary: i)
  case (Cons x names)
  obtain n a where x: "x = (n, a)" by (cases x)
  from Cons.prems(2) have i: "i + 1 < 2 ^ w" "Suc i + length names < 2 ^ w" by simp_all
  show ?case
  proof (cases "n = c")
    case True
    with Cons.prems(1) i show ?thesis by (subst find_discriminant.simps) (simp add: x)
  next
    case False
    with Cons.prems(1) have j: "find_index (Suc i) (map fst names) c = Some j" by (simp add: x)
    with find_index_Some [OF j] have "(x # names) ! (j - i) = names ! (j - Suc i)" by (simp add: nth_Cons')
    moreover have "find_discriminant k w e i (x # names) c = find_discriminant k w e (Suc i) names c"
      using False i by (subst find_discriminant.simps) (simp add: x)
    ultimately show ?thesis using Cons.IH [OF j i(2)] by simp
  qed
qed simp

lemma find_discriminant_unknown:
  "c \<notin> fst ` set names \<Longrightarrow> i + length names < 2 ^ w \<Longrightarrow>
   find_discriminant k w e i names c = Inl (if k \<and> i + length names + 1 = 2 ^ w then Panicked else e)"
proof (induction names arbitrary: i)
  case Nil
  then show ?case by (subst find_discriminant.simps) simp
next
  case (Cons x names)
  obtain n a where x: "x = (n, a)" by (cases x)
  from Cons.prems(2) have i: "i + 1 < 2 ^ w" "Suc i + length names < 2 ^ w" by simp_all
  have "find_discriminant k w e i (x # names) c = find_discriminant k w e (Suc i) names c"
    using i Cons.prems(1) by (subst find_discriminant.simps) (auto simp: x)
  with Cons.IH [of "Suc i"] Cons.prems(1) i(2) show ?case by simp
qed

lemma disc_width_last: "disc_width n = Some w \<Longrightarrow> n + 1 = 2 ^ w \<longleftrightarrow> n \<in> {255, 65535, 4294967295}"
  by (auto simp: disc_width_def split: if_splits)

section \<open>Agreement with the codec of Wave\<close>

text \<open>An encoder that appends bytes, leaves the store as it is and defers nothing.\<close>

definition plain :: "'s encoding \<Rightarrow> bytes \<Rightarrow> bool" where
  "plain e b \<longleftrightarrow> (\<forall>dst w. e dst w = (w, Inr (dst @ b, None)))"

lemma plainI: "(\<And>dst w. e dst w = (w, Inr (dst @ b, None))) \<Longrightarrow> plain e b"
  by (simp add: plain_def)

lemma plainD: "plain e b \<Longrightarrow> e dst w = (w, Inr (dst @ b, None))"
  by (simp add: plain_def)

lemma chain_Inr [simp]: "m s = (s', Inr a) \<Longrightarrow> chain m f s = f a s'"
  by (simp add: chain_def)

lemma chain_Inl [simp]: "m s = (s', Inl e) \<Longrightarrow> chain m f s = (s', Inl e)"
  by (simp add: chain_def)

lemma yield_apply [simp]: "yield a s = (s, Inr a)"
  by (simp add: yield_def)

lemma raise_apply [simp]: "raise e s = (s, Inl e)"
  by (simp add: raise_def)

lemma attempt_apply [simp]: "attempt g (Inr a) s = (s, Inr a)" "attempt g (Inl x) s = (s, Inl (g x))"
  by (simp_all add: attempt_def)

lemma encode_each_plain:
  "encode_seq ds = Inr b \<Longrightarrow> list_all2 (\<lambda>e d. \<forall>b. d = Inr b \<longrightarrow> plain e b) es ds \<Longrightarrow>
   encode_each es dst w = (w, Inr (dst @ b, replicate (length es) None))"
proof (induction ds arbitrary: es b dst)
  case (Cons d ds)
  then obtain e es' b1 b2 where es: "es = e # es'" and b: "d = Inr b1" "encode_seq ds = Inr b2" "b = b1 @ b2"
    and e: "plain e b1" and rest: "list_all2 (\<lambda>e d. \<forall>b. d = Inr b \<longrightarrow> plain e b) es' ds"
    by (auto simp: list_all2_Cons2 and_then_eq_Inr)
  from Cons.IH [OF b(2) rest, of "dst @ b1"] plainD [OF e, of dst w] show ?case by (simp add: es b(3))
qed simp

lemma collect_sync [simp]: "collect (replicate n None) = None"
  by (simp add: collect_def list_ex_iff)

lemma encode_elements_plain:
  assumes "encode_seq ds = Inr b" and "list_all2 (\<lambda>e d. \<forall>b. d = Inr b \<longrightarrow> plain e b) es ds"
  shows "plain (encode_elements es) b"
  by (rule plainI) (simp add: encode_elements_def encode_each_plain [OF assms])

lemma val_encode_plain:
  "has_type v t \<Longrightarrow> wave_encode W v t = Inr b \<Longrightarrow> plain (val_encode W k H R v t) b"
proof (induction v arbitrary: t b)
  case (VString s)
  then show ?case by (cases "name_enc W s") (auto intro!: plainI)
next
  case (VList vs)
  from VList.prems(1) obtain u where t: "t = TList u" and n: "length vs < 2 ^ 32" and vs: "\<And>v. v \<in> set vs \<Longrightarrow> has_type v u"
    by (auto simp: list_all_iff split: option.splits)
  with VList.prems(2) obtain b' where b: "encode_seq (map (\<lambda>v. wave_encode W v u) vs) = Inr b'" "b = leb_enc W 32 (length vs) @ b'"
    by (auto simp: encode_list_def and_then_eq_Inr comp_def)
  have "list_all2 (\<lambda>e d. \<forall>b. d = Inr b \<longrightarrow> plain e b) (map (\<lambda>v. val_encode W k H R v u) vs) (map (\<lambda>v. wave_encode W v u) vs)"
    using VList.IH vs by (simp add: list_all2_conv_all_nth)
  from plainD [OF encode_elements_plain [OF b(1) this]] n show ?case
    by (intro plainI) (simp add: t b(2) val_list_def comp_def)
next
  case (VRecord fs)
  from VRecord.prems(1) obtain ts where t: "t = TRecord ts"
    and ts: "list_all2 (\<lambda>(n, p) (m, u). n = m \<and> p u) (map (map_prod id has_type) fs) ts"
    by (auto split: option.splits)
  let ?e = "map (\<lambda>((name, e), (_, u)). e u) (zip (map (map_prod id (val_encode W k H R)) fs) ts)"
  let ?d = "map (\<lambda>((name, e), (_, u)). e u) (zip (map (map_prod id (wave_encode W)) fs) ts)"
  from ts have n: "length fs = length ts" by (auto dest: list_all2_lengthD)
  have "plain (?e ! i) b" if i: "i < length ts" and b: "?d ! i = Inr b" for i b
  proof -
    have "fs ! i \<in> set fs" "snd (fs ! i) \<in> Basic_BNFs.snds (fs ! i)" using i n by (simp_all add: snds.simps prod_eq_iff)
    moreover have "has_type (snd (fs ! i)) (snd (ts ! i))"
      using list_all2_nthD2 [OF ts i] i n by (simp add: case_prod_beta)
    moreover have "wave_encode W (snd (fs ! i)) (snd (ts ! i)) = Inr b" using b i n by (simp add: case_prod_beta)
    ultimately have "plain (val_encode W k H R (snd (fs ! i)) (snd (ts ! i))) b" by (rule VRecord.IH)
    with i n show ?thesis by (simp add: case_prod_beta)
  qed
  then have "list_all2 (\<lambda>e d. \<forall>b. d = Inr b \<longrightarrow> plain e b) ?e ?d" by (auto simp: list_all2_conv_all_nth n)
  moreover have "encode_seq ?d = Inr b" using VRecord.prems(2) by (simp add: t record_fields_def)
  ultimately have "plain (encode_elements ?e) b" by (intro encode_elements_plain)
  from plainD [OF this] show ?case by (intro plainI) (simp add: t val_record_def n)
next
  case (VTuple vs)
  from VTuple.prems(1) obtain ts where t: "t = TTuple ts" and ts: "list_all2 (\<lambda>p u. p u) (map has_type vs) ts"
    by (auto split: option.splits)
  let ?e = "map (\<lambda>(e, u). e u) (zip (map (val_encode W k H R) vs) ts)"
  let ?d = "map (\<lambda>(e, u). e u) (zip (map (wave_encode W) vs) ts)"
  from ts have n: "length vs = length ts" by (auto dest: list_all2_lengthD)
  have "plain (?e ! i) b" if i: "i < length ts" and b: "?d ! i = Inr b" for i b
    using VTuple.IH [of "vs ! i" "ts ! i" b] list_all2_nthD2 [OF ts i] b i n by simp
  then have "list_all2 (\<lambda>e d. \<forall>b. d = Inr b \<longrightarrow> plain e b) ?e ?d" by (auto simp: list_all2_conv_all_nth n)
  moreover have "encode_seq ?d = Inr b" using VTuple.prems(2) by (simp add: t tuple_element_types_def)
  ultimately have "plain (encode_elements ?e) b" by (intro encode_elements_plain)
  from plainD [OF this] show ?case by (intro plainI) (simp add: t val_tuple_def n)
next
  case (VVariant c v)
  from VVariant.prems(1) obtain cs u where t: "t = TVariant cs" and u: "map_of cs c = Some u"
    and v: "rel_option (\<lambda>p u. p u) (map_option has_type v) u" and n: "length cs < 2 ^ 32"
    by (auto split: option.splits)
  obtain w where w: "disc_width (length cs) = Some w" using disc_width_small [OF n] by blast
  from u have "c \<in> set (map fst cs)" by (force dest: map_of_SomeD)
  then obtain i where i: "find_index 0 (map fst cs) c = Some i" by (metis find_index_None not_Some_eq)
  with find_index_map_of [OF i] u have "snd (cs ! i) = u" by simp
  moreover from disc_width_Some [OF w] have "0 + length cs < 2 ^ w" by simp
  ultimately have f: "find_discriminant k w Unknown_Variant 0 cs c = Inr (i, u)"
    "find_variant_discriminant cs c = Inr (i, u)"
    using find_discriminant_found [OF i] by (simp_all add: find_variant_discriminant_def i)
  show ?case
  proof (cases v)
    case None
    with v VVariant.prems(2) w f(2) show ?thesis
      by (intro plainI) (simp add: t val_variant_def f(1) encode_variant_def variant_cases_def encode_payload_def Let_def)
  next
    case (Some v')
    with v obtain u' where u': "u = Some u'" "has_type v' u'" by (cases u) auto
    with VVariant.prems(2) w f(2) Some obtain b' where b: "wave_encode W v' u' = Inr b'" "b = leb_enc W w i @ b'"
      by (auto simp: t encode_variant_def variant_cases_def encode_payload_def Let_def and_then_eq_Inr)
    from plainD [OF VVariant.IH [OF _ u'(2) b(1)]] Some w f(1) u'(1) show ?thesis
      by (intro plainI) (simp add: t val_variant_def b(2) Let_def)
  qed
next
  case (VEnum c)
  from VEnum.prems(1) obtain ns where t: "t = TEnum ns" and c: "c \<in> set ns" and n: "length ns < 2 ^ 32"
    by (auto split: option.splits)
  obtain w where w: "disc_width (length ns) = Some w" using disc_width_small [OF n] by blast
  from c obtain i where i: "find_index 0 ns c = Some i" by (metis find_index_None not_Some_eq)
  have "map fst (map (\<lambda>n. (n, ())) ns) = ns" by (simp add: comp_def)
  with find_discriminant_found [of 0 "map (\<lambda>n. (n, ())) ns" c i w k Unknown_Enum] i disc_width_Some [OF w]
  have "find_discriminant k w Unknown_Enum 0 (map (\<lambda>n. (n, ())) ns) c = Inr (i, ())" by simp
  moreover have "b = leb_enc W w i" using VEnum.prems(2) w i
    by (simp add: t encode_enum_def enum_cases_def Let_def find_enum_discriminant_def)
  ultimately show ?case using w by (intro plainI) (simp add: t val_enum_def)
next
  case (VOption v)
  from VOption.prems(1) obtain u where t: "t = TOption u" by (auto split: option.splits)
  show ?case
  proof (cases v)
    case None
    with VOption.prems(2) show ?thesis by (intro plainI) (simp add: t val_option_def encode_option_def)
  next
    case (Some v')
    with VOption.prems(2) obtain b' where b: "wave_encode W v' u = Inr b'" "b = 1 # b'"
      by (auto simp: t encode_option_def and_then_eq_Inr)
    from plainD [OF VOption.IH [OF _ _ b(1)]] Some VOption.prems(1) show ?thesis
      by (intro plainI) (simp add: t val_option_def b(2))
  qed
next
  case (VResult ok v)
  from VResult.prems(1) obtain x y where t: "t = TResult x y" by (auto split: option.splits)
  let ?u = "if ok then x else y"
  from VResult.prems(1) have v: "rel_option (\<lambda>p u. p u) (map_option has_type v) ?u" by (simp add: t)
  from VResult.prems(2) obtain b' where b': "encode_payload (map_option (wave_encode W) v) ?u = Inr b'"
      "b = (if ok then 0 else 1) # b'"
    by (auto simp: t encode_result_def and_then_eq_Inr)
  show ?case
  proof (cases v)
    case None
    with v b' show ?thesis by (cases ?u) (auto simp: t val_result_def encode_payload_def intro!: plainI)
  next
    case (Some v')
    with v obtain u' where u': "?u = Some u'" "has_type v' u'" by (cases ?u) auto
    with b' Some have "wave_encode W v' u' = Inr b'" by (simp add: encode_payload_def)
    from plainD [OF VResult.IH [OF _ u'(2) this]] Some u'(1) show ?thesis
      by (intro plainI) (simp add: t val_result_def b'(2))
  qed
next
  case (VFlags fs)
  then show ?case by (auto simp: val_flags_eq flags_names_def intro!: plainI split: option.splits)
qed (auto simp: put_def intro!: plainI)

lemma vbind_Inr [simp]: "m b s = (s', Inr (a, c)) \<Longrightarrow> vbind m f b s = f a c s'"
  by (simp add: vbind_def)

lemma vret_apply [simp]: "vret a b s = (s, Inr (a, b))"
  by (simp add: vret_def)

lemma take_from_apply [simp]: "f b = Inr x \<Longrightarrow> take_from f b s = (s, Inr x)"
  by (simp add: take_from_def)

text \<open>The reader \<open>g\<close> does what \<open>f\<close> does, and nothing else.\<close>

definition follows :: "'a reader \<Rightarrow> ('s, 'c, 'a) reading \<Rightarrow> bool" where
  "follows f g \<longleftrightarrow> (\<forall>b v r s. f b = Inr (v, r) \<longrightarrow> g b s = (s, Inr (v, r)))"

lemma followsD: "follows f g \<Longrightarrow> f b = Inr (v, r) \<Longrightarrow> g b s = (s, Inr (v, r))"
  unfolding follows_def by blast

lemma follows_take [simp]: "follows f (take_from f)"
  by (simp add: follows_def)

lemma follows_ret [simp]: "follows (ret a) (vret a)"
  by (simp add: follows_def)

lemma follows_fail [simp]: "follows (fail e) g"
  by (simp add: follows_def)

lemma follows_bind: "follows f g \<Longrightarrow> (\<And>a. follows (f' a) (g' a)) \<Longrightarrow> follows (bind f f') (vbind g g')"
  by (fastforce simp: follows_def bind_eq_Inr)

lemma follows_seq: "list_all2 follows fs gs \<Longrightarrow> follows (read_seq fs) (vread_each gs)"
  by (induction rule: list_all2_induct)
    (simp_all only: read_seq.simps vread_each.simps follows_ret follows_bind)

lemma make_all [simp]: "Wave_Codec.make (\<lambda>t v. True) t v = ret v"
  by (rule ext) (simp add: Wave_Codec.make_def)

lemma val_read_follows: "follows (wave_read W (\<lambda>t v. True) t) (val_read W H idx R t path)"
proof (induction t arbitrary: path)
  case (TList t)
  have "follows (read_n (wave_read W (\<lambda>t v. True) t) n) (vread_each (map (\<lambda>i. val_read W H idx R t (path @ [i])) [0..<n]))" for n
    unfolding read_n_seq by (intro follows_seq) (simp add: list_all2_conv_all_nth TList.IH)
  then show ?case by (simp add: val_read_list_def follows_bind)
next
  case (TRecord fs)
  have "follows (wave_read W (\<lambda>t v. True) (snd (fs ! i))) (val_read W H idx R (snd (fs ! i)) (path @ [i]))" if "i < length fs" for i
    using that by (intro TRecord.IH [of "fs ! i"]) (simp_all add: snds.simps prod_eq_iff)
  then have "follows (read_seq (map snd (map (map_prod id (wave_read W (\<lambda>t v. True))) fs)))
      (vread_each (map (\<lambda>(i, (name, f)). f (path @ [i])) (enumerate 0 (map (map_prod id (val_read W H idx R)) fs))))"
    by (intro follows_seq) (simp add: list_all2_conv_all_nth nth_enumerate_eq case_prod_beta)
  then show ?case by (simp add: val_read_record_def follows_bind comp_def)
next
  case (TTuple ts)
  have "follows (read_seq (map (wave_read W (\<lambda>t v. True)) ts))
      (vread_each (map (\<lambda>(i, f). f (path @ [i])) (enumerate 0 (map (val_read W H idx R) ts))))"
    by (intro follows_seq) (simp add: list_all2_conv_all_nth nth_enumerate_eq TTuple.IH)
  then show ?case by (simp add: val_read_tuple_def follows_bind)
next
  case (TVariant cs)
  have u: "follows (wave_read W (\<lambda>t v. True) u) (val_read W H idx R u path)" if "i < length cs" "snd (cs ! i) = Some u" for i u
    using that by (intro TVariant.IH [of "cs ! i" "Some u"]) (auto simp: snds.simps prod_eq_iff)
  show ?case unfolding wave_read.simps val_read.simps read_variant_def val_read_variant_def
  proof (rule follows_bind)
    fix i
    show "follows
        (if i < length cs then
          (case map snd (map (map_prod id (map_option (wave_read W (\<lambda>t v. True)))) cs) ! i of
             Some f \<Rightarrow> bind f (\<lambda>v. Wave_Codec.make (\<lambda>t v. True) (TVariant cs) (VVariant (fst (cs ! i)) (Some v)))
           | None \<Rightarrow> Wave_Codec.make (\<lambda>t v. True) (TVariant cs) (VVariant (fst (cs ! i)) None))
         else fail InvalidData)
        (if i < length (map (map_prod id (map_option (val_read W H idx R))) cs) then
          (case map (map_prod id (map_option (val_read W H idx R))) cs ! i of
             (name, Some f) \<Rightarrow> vbind (f path) (\<lambda>v. vret (VVariant name (Some v)))
           | (name, None) \<Rightarrow> vret (VVariant name None))
         else vfail InvalidInput)"
      using u [of i] by (cases "cs ! i"; cases "snd (cs ! i)") (auto intro!: follows_bind)
  qed simp
next
  case (TEnum ns)
  then show ?case by (auto simp: read_enum_def val_read_enum_def intro!: follows_bind)
next
  case (TOption t)
  then show ?case by (auto simp: val_read_option_def intro!: follows_bind)
next
  case (TResult a b)
  have "follows (case map_option (wave_read W (\<lambda>t v. True)) u of
         Some f \<Rightarrow> bind f (\<lambda>v. Wave_Codec.make (\<lambda>t v. True) (TResult a b) (VResult ok (Some v)))
       | None \<Rightarrow> Wave_Codec.make (\<lambda>t v. True) (TResult a b) (VResult ok None))
      (case map_option (val_read W H idx R) u of
         Some h \<Rightarrow> vbind (h path) (\<lambda>v. vret (VResult ok (Some v)))
       | None \<Rightarrow> vret (VResult ok None))" if "u = a \<or> u = b" for u ok
    using that TResult.IH by (cases u) (auto intro!: follows_bind)
  then show ?case by (auto simp: read_result_def val_read_result_def intro!: follows_bind)
next
  case (TFlags ns)
  then show ?case unfolding val_read.simps wave_read.simps val_read_flags_eq
    by (auto simp: follows_def bind_eq_Inr)
qed (auto intro!: follows_bind)

section \<open>Type soundness\<close>

lemma vread_each_all2:
  "vread_each gs b s = (s', Inr (vs, r)) \<Longrightarrow> (\<And>i v b s s' r. i < length gs \<Longrightarrow> (gs ! i) b s = (s', Inr (v, r)) \<Longrightarrow> P i v) \<Longrightarrow>
   length vs = length gs \<and> (\<forall>i < length gs. P i (vs ! i))"
proof (induction gs arbitrary: b s vs P)
  case (Cons g gs)
  from Cons.prems(1) obtain v c t ws where g: "g b s = (t, Inr (v, c))" "vread_each gs c t = (s', Inr (ws, r))" "vs = v # ws"
    by (auto simp: vbind_eq_Inr)
  have "P 0 v" using Cons.prems(2) [of 0] g(1) by simp
  moreover have "length ws = length gs \<and> (\<forall>i < length gs. P (Suc i) (ws ! i))"
    by (rule Cons.IH [OF g(2)]) (use Cons.prems(2) [of "Suc _"] in simp)
  ultimately have "P i (vs ! i)" if "i < length (g # gs)" for i using that by (cases i) (simp_all add: g(3))
  with \<open>length ws = length gs \<and> _\<close> show ?case by (simp add: g(3))
qed simp

lemma val_read_scalar:
  assumes "wasm_tokio_values W" and "payload t" and "val_read W H idx R t path b s = (s', Inr (v, r))"
  shows "val_typed v t"
  using assms(2,3) unfolding payload_def
  by (elim insertE emptyE)
    (auto simp: vbind_eq_Inr is_char_def srange_def dest: read_i8_range read_le_bound
    wasm_tokio_values.read_bound [OF assms(1), rotated] wasm_tokio_values.sread_bound [OF assms(1), rotated]
    wasm_tokio_values.name_read_bound [OF assms(1)] wasm_tokio_values.char_read_bound [OF assms(1)])

lemma val_read_typed_variant:
  assumes IH: "\<And>n u v b s s' r. (n, Some u) \<in> set cs \<Longrightarrow> val_read W H idx R u path b s = (s', Inr (v, r)) \<Longrightarrow> val_typed v u"
    and read: "val_read W H idx R (TVariant cs) path b s = (s', Inr (v, r))" and valid: "distinct (map fst cs)" "length cs < 2 ^ 32"
  shows "val_typed v (TVariant cs)"
proof -
  from read obtain i c where i: "i < length cs"
    and v: "(case map (map_prod id (map_option (val_read W H idx R))) cs ! i of
           (name, Some f) \<Rightarrow> vbind (f path) (\<lambda>v. vret (VVariant name (Some v)))
         | (name, None) \<Rightarrow> vret (VVariant name None)) c s = (s', Inr (v, r))"
    by (auto simp: val_read_variant_def vbind_eq_Inr split: if_splits)
  obtain n u where c: "cs ! i = (n, u)" by (cases "cs ! i")
  then have "(n, u) \<in> set cs" using i by (metis nth_mem)
  with valid(1) have "map_of cs n = Some u" by (intro map_of_is_SomeI) auto
  with v valid IH [of n] \<open>(n, u) \<in> set cs\<close> i show ?thesis
    by (cases u; cases s) (auto simp: c vbind_eq_Inr)
qed

lemma val_read_has_type:
  assumes W: "wasm_tokio_values W"
  shows "val_read W H idx R t path b s = (s', Inr (v, r)) \<Longrightarrow> valid_ty t \<Longrightarrow> val_typed v t"
proof (induction t arbitrary: path b s s' v r)
  case (TList t)
  then obtain n c vs where n: "leb_read W 32 b = Inr (n, c)"
    and vs: "vread_each (map (\<lambda>i. val_read W H idx R t (path @ [i])) [0..<n]) c s = (s', Inr (vs, r))" "v = VList vs"
    by (auto simp: val_read_list_def vbind_eq_Inr)
  have "n < 2 ^ 32" using wasm_tokio_values.read_bound [OF W _ n] by simp
  moreover have "length vs = n \<and> (\<forall>i < n. val_typed (vs ! i) t)"
    using vread_each_all2 [OF vs(1), of "\<lambda>i v. val_typed v t"] TList.IH TList.prems(2) by simp
  ultimately show ?case by (simp add: vs(2) list_all_length)
next
  case (TRecord fs)
  then obtain vs where vs: "vread_each (map (\<lambda>(i, (name, f)). f (path @ [i]))
      (enumerate 0 (map (map_prod id (val_read W H idx R)) fs))) b s = (s', Inr (vs, r))" and v: "v = VRecord (zip (map fst fs) vs)"
    by (auto simp: val_read_record_def vbind_eq_Inr comp_def)
  have "valid_ty (snd (fs ! i))" if "i < length fs" for i
    using TRecord.prems(2) that by (auto simp: list_all_length)
  then have "length vs = length fs \<and> (\<forall>i < length fs. val_typed (vs ! i) (snd (fs ! i)))"
    using vread_each_all2 [OF vs, of "\<lambda>i v. val_typed v (snd (fs ! i))"] TRecord.IH [OF nth_mem]
    by (simp add: nth_enumerate_eq case_prod_beta snds.simps prod_eq_iff)
  then show ?case by (auto simp: v list_all2_conv_all_nth case_prod_beta)
next
  case (TTuple ts)
  then obtain vs where vs: "vread_each (map (\<lambda>(i, f). f (path @ [i])) (enumerate 0 (map (val_read W H idx R) ts))) b s =
      (s', Inr (vs, r))" and v: "v = VTuple vs"
    by (auto simp: val_read_tuple_def vbind_eq_Inr)
  have "length vs = length ts \<and> (\<forall>i < length ts. val_typed (vs ! i) (ts ! i))"
    using vread_each_all2 [OF vs, of "\<lambda>i v. val_typed v (ts ! i)"] TTuple.IH [OF nth_mem] TTuple.prems(2)
    by (simp add: nth_enumerate_eq list_all_length)
  then show ?case by (auto simp: v list_all2_conv_all_nth)
next
  case (TVariant cs)
  have "val_typed w u" if "(n, Some u) \<in> set cs" "val_read W H idx R u path c x = (x', Inr (w, y))" for n u w c x x' y
    using that TVariant.prems(2) TVariant.IH [OF that(1) _ _ that(2)] by (force simp: list_all_iff)
  from val_read_typed_variant [OF this TVariant.prems(1)] TVariant.prems(2) show ?case by simp
next
  case (TOption t)
  then show ?case by (cases s) (auto simp: val_read_option_def vbind_eq_Inr split: if_splits)
next
  case (TResult x y)
  then show ?case
    by (cases x; cases y; cases s) (auto simp: val_read_result_def vbind_eq_Inr split: if_splits option.splits)
next
  case (TFlags ns)
  then show ?case using flags_of_subset by (auto simp: vbind_eq_Inr val_read_flags_eq bind_eq_Inr)
next
  case (TEnum ns)
  then show ?case by (auto simp: val_read_enum_def vbind_eq_Inr split: if_splits)
next
  case (TOwn x)
  then show ?case by (auto simp: read_resource_def read_input_def vbind_eq_Inr split: if_splits)
next
  case (TBorrow x)
  then show ?case by (auto simp: read_resource_def read_input_def vbind_eq_Inr split: if_splits)
next
  case (TFuture u)
  then show ?case by (auto simp: vbind_eq_Inr split: if_splits)
next
  case (TStream u)
  then show ?case by (cases u) (auto simp: vbind_eq_Inr split: if_splits)
qed ((rule val_read_scalar [OF W], simp add: payload_def, assumption) | simp)+

section \<open>Properties\<close>

text \<open>
  The two codecs of component values agree (claim C31). For a value of a type without resources, futures and streams,
  \<open>ValEncoder\<close> appends exactly the bytes of the encoder of \<open>crates/wave\<close>, changes nothing else and defers nothing; and
  \<open>read_value\<close> of either crate gives back the value from them and leaves what follows.
\<close>

theorem val_agrees_wave:
  assumes "wasm_tokio_values W" and "has_type v t"
  shows "\<exists>b. wave_encode W v t = Inr b \<and>
    (\<forall>dst w. val_encode W k H R v t dst w = (w, Inr (dst @ b, None))) \<and>
    (\<forall>path r s. val_read W H idx R t path (b @ r) s = (s, Inr (v, r))) \<and>
    (\<forall>r. wave_read W (\<lambda>t v. True) t (b @ r) = Inr (v, r))"
proof -
  have "codes (wave_read W (\<lambda>t v. True) t) v (wave_encode W v t)" by (rule wave_codes [OF assms(1) TrueI assms(2)])
  then obtain b where b: "wave_encode W v t = Inr b" "\<And>r. wave_read W (\<lambda>t v. True) t (b @ r) = Inr (v, r)"
    by (auto simp: codes_def)
  have "val_encode W k H R v t dst w = (w, Inr (dst @ b, None))" for dst w
    by (rule plainD [OF val_encode_plain [OF assms(2) b(1)]])
  moreover have "val_read W H idx R t path (b @ r) s = (s, Inr (v, r))" for path r s
    by (rule followsD [OF val_read_follows b(2)])
  ultimately show ?thesis using b by blast
qed

definition no_index :: "unit index" where
  "no_index path c = (c, Inl NotFound)"

definition no_resources :: resource_types where
  "no_resources = \<lparr>guest = [], io_streams = []\<rparr>"

theorem val_agrees_wave_witness:
  "\<exists>b. wave_encode wasm_ref example_val example_ty = Inr b \<and>
    (\<forall>dst w. val_encode wasm_ref True ref_host no_resources example_val example_ty dst w = (w, Inr (dst @ b, None))) \<and>
    (\<forall>path r s. val_read wasm_ref ref_host no_index no_resources example_ty path (b @ r) s = (s, Inr (example_val, r))) \<and>
    (\<forall>r. wave_read wasm_ref (\<lambda>t v. True) example_ty (b @ r) = Inr (example_val, r))"
  by (rule val_agrees_wave [OF ref.wasm_tokio_values_axioms example_val_typed])



text \<open>
  A case that is not one of the type (claim C39). Encoding an enum or a variant with an unknown name is an error that says so,
  unless overflow is checked and the names fill the integer type of the discriminant: the counter of
  \<open>zip(0u8.., names)\<close> is advanced past its largest value before the names end, and the encoder panics.
\<close>

theorem unknown_case:
  assumes "length cases < 2 ^ 32" and "c \<notin> fst ` set cases"
  shows "val_encode W k H R (VEnum c) (TEnum (map fst cases)) dst w =
      (w, Inl (if k \<and> length cases \<in> {255, 65535, 4294967295} then Panicked else Unknown_Enum)) \<and>
    val_encode W k H R (VVariant c v) (TVariant cases) dst w =
      (w, Inl (if k \<and> length cases \<in> {255, 65535, 4294967295} then Panicked else Unknown_Variant))"
proof -
  obtain n where n: "disc_width (length cases) = Some n" using disc_width_small [OF assms(1)] by blast
  from disc_width_Some [OF n] have "length cases < 2 ^ n" by simp
  moreover have "c \<notin> fst ` set (map (\<lambda>n. (n, ())) (map fst cases))" using assms(2) by (auto simp: image_image)
  ultimately have
    "find_discriminant k n Unknown_Enum 0 (map (\<lambda>n. (n, ())) (map fst cases)) c =
      Inl (if k \<and> length cases + 1 = 2 ^ n then Panicked else Unknown_Enum)"
    "find_discriminant k n Unknown_Variant 0 cases c =
      Inl (if k \<and> length cases + 1 = 2 ^ n then Panicked else Unknown_Variant)"
    using assms(2) by (simp_all add: find_discriminant_unknown del: map_map)
  with n show ?thesis unfolding disc_width_last [OF n]
    by (simp add: val_enum_def val_variant_def del: map_map)
qed

definition no_world :: "tables world" where
  "no_world = \<lparr>w_store = no_tables, w_shared = (\<lambda>_. None)\<rparr>"

theorem unknown_case_witness:
  "val_encode wasm_ref True ref_host no_resources (VEnum ''x'') (TEnum (replicate 255 ''a'')) [] no_world =
     (no_world, Inl Panicked) \<and>
   val_encode wasm_ref True ref_host no_resources (VEnum ''x'') (TEnum (replicate 254 ''a'')) [] no_world =
     (no_world, Inl Unknown_Enum)"
proof -
  have "''x'' \<notin> fst ` set (replicate n (''a'', None :: ty option))" for n by (cases n) auto
  from unknown_case [OF _ this, where k = True and W = wasm_ref and H = ref_host and R = no_resources and dst = "[]"
      and w = no_world]
  have "val_encode wasm_ref True ref_host no_resources (VEnum ''x'') (TEnum (replicate n ''a'')) [] no_world =
      (no_world, Inl (if n \<in> {255, 65535, 4294967295} then Panicked else Unknown_Enum))" if "n < 2 ^ 32" for n
    using that by simp
  from this [of 255] this [of 254] show ?thesis by simp
qed

end
