(* ===== verification/Val_Transfer.thy ===== *)
theory Val_Transfer
  imports Val_Typing Subscriptions
begin

text \<open>
  Properties of the codec of component values (\<open>Val_Codec\<close>) between two components.

  \<^item> The sender defers operations, and the receiver indexes its connection, only at positions the
    receiver subscribed to (\<open>async_paths\<close>).
  \<^item> What the sender writes, the receiver reads; it indexes the connection at the positions at which the sender
    defers operations, in the same order.
  \<^item> On values without resources, futures and streams the codec is the one of \<open>Wave_Codec\<close>.
  \<^item> What the receiver reads has the type asked for.
  \<^item> The handle of a resource comes back as the resource.
\<close>

section \<open>Subscribed positions\<close>

text \<open>
  The positions of a type that are subscribed to: the patterns of \<open>async_paths\<close>, and the position itself if the
  type is asynchronous.
\<close>

definition subscribed :: "resource_type list \<Rightarrow> ty \<Rightarrow> path \<Rightarrow> bool" where
  "subscribed ios t path \<longleftrightarrow>
    (\<exists>p \<in> fst (async_paths ios t). matches p path) \<or> snd (async_paths ios t) \<and> path = []"

text \<open>The resource types a type mentions.\<close>

primrec resources :: "ty \<Rightarrow> resource_type set" where
  "resources TBool = {}" | "resources TS8 = {}" | "resources TU8 = {}" | "resources TS16 = {}" | "resources TU16 = {}"
| "resources TS32 = {}" | "resources TU32 = {}" | "resources TS64 = {}" | "resources TU64 = {}"
| "resources TFloat32 = {}" | "resources TFloat64 = {}" | "resources TChar = {}" | "resources TString = {}"
| "resources (TList t) = resources t"
| "resources (TRecord fs) = \<Union> (set (map snd (map (map_prod id resources) fs)))"
| "resources (TTuple ts) = \<Union> (set (map resources ts))"
| "resources (TVariant cs) = \<Union> (\<Union> (set (map (set_option \<circ> snd) (map (map_prod id (map_option resources)) cs))))"
| "resources (TEnum ns) = {}"
| "resources (TOption t) = resources t"
| "resources (TResult a b) = \<Union> (set_option (map_option resources a)) \<union> \<Union> (set_option (map_option resources b))"
| "resources (TFlags ns) = {}"
| "resources (TOwn r) = {r}"
| "resources (TBorrow r) = {r}"
| "resources (TFuture u) = {}"
| "resources (TStream u) = {}"
| "resources TErrorContext = {}"
| "resources (TMap k v) = {}"
| "resources (TFixedLengthList t n) = {}"

text \<open>
  The resources that are sent as streams of bytes, and that they are among those that were subscribed to. Of the types of a
  component that is served, \<open>io_streams\<close> has the input streams before instantiation, where the host type does not occur; for the
  imports of a component it has the host type.
\<close>

definition is_input :: "'s host \<Rightarrow> resource_types \<Rightarrow> resource_type \<Rightarrow> bool" where
  "is_input H R r \<longleftrightarrow> r = h_input_type H \<or> r \<in> set (io_streams R)"

definition inputs_known :: "'s host \<Rightarrow> resource_types \<Rightarrow> resource_type list \<Rightarrow> ty \<Rightarrow> bool" where
  "inputs_known H R ios t \<longleftrightarrow> (\<forall>r \<in> resources t. is_input H R r \<longrightarrow> r \<in> set ios)"

lemma matches_Cons [simp]: "matches (a # p) (i # x) \<longleftrightarrow> (a = None \<or> a = Some i) \<and> matches p x"
  by (simp add: matches_def)

lemma matches_Nil [simp]: "matches [] x \<longleftrightarrow> x = []"
  by (simp add: matches_def)

lemma subscribed_push:
  assumes "subscribed ios t x" and "push_front a (async_paths ios t) \<subseteq> P" and "a = None \<or> a = Some i"
  shows "\<exists>p \<in> P. matches p (i # x)"
  using assms(1) unfolding subscribed_def
proof
  assume "\<exists>p \<in> fst (async_paths ios t). matches p x"
  then obtain p where "a # p \<in> push_front a (async_paths ios t)" "matches p x" by (auto simp: push_front_def)
  with assms(2,3) show ?thesis by (intro bexI [of _ "a # p"]) auto
next
  assume "snd (async_paths ios t) \<and> x = []"
  with assms(2,3) show ?thesis by (intro bexI [of _ "[a]"]) (auto simp: push_front_def)
qed

lemma subscribed_list: "subscribed ios t x \<Longrightarrow> subscribed ios (TList t) (i # x)"
  using subscribed_push [of ios t x None] by (simp add: subscribed_def)

lemma ty_paths_types_nth:
  "i < length ts \<Longrightarrow> push_front (Some (m + i)) (async_paths ios (ts ! i)) \<subseteq> ty_paths_types ios m ts"
proof (induction ts arbitrary: i m)
  case (Cons t ts)
  show ?case
  proof (cases i)
    case (Suc j)
    with Cons.prems Cons.IH [of j "m + 1"] show ?thesis by auto
  qed simp
qed simp

lemma ty_paths_fields_types: "ty_paths_fields ios m fs = ty_paths_types ios m (map snd fs)"
  by (induction fs arbitrary: m) auto

lemma subscribed_tuple: "i < length ts \<Longrightarrow> subscribed ios (ts ! i) x \<Longrightarrow> subscribed ios (TTuple ts) (i # x)"
  using subscribed_push [of ios "ts ! i" x "Some i" _ i] ty_paths_types_nth [of i ts 0 ios] by (simp add: subscribed_def)

lemma subscribed_record:
  "i < length fs \<Longrightarrow> subscribed ios (snd (fs ! i)) x \<Longrightarrow> subscribed ios (TRecord fs) (i # x)"
  using subscribed_tuple [of i "map snd fs"] by (simp add: subscribed_def ty_paths_fields_types)

lemma subscribed_merge:
  assumes "subscribed ios t x" and "fst (async_paths ios t) \<subseteq> P" and "snd (async_paths ios t) \<Longrightarrow> f"
  shows "(\<exists>p \<in> merge_wildcards P. matches p x) \<or> f \<and> x = []"
proof (cases "snd (async_paths ios t) \<and> x = []")
  case False
  with assms(1,2) obtain p where "p \<in> P" "matches p x" by (auto simp: subscribed_def)
  moreover from merge_steps_covers [OF this(1)] obtain q where "q \<in> merge_wildcards P" "covers q p"
    unfolding merge_wildcards_def Let_def by blast
  ultimately show ?thesis using covers_matches by blast
qed (use assms(3) in blast)

lemma ty_paths_cases_mem:
  "(n, Some t) \<in> set cs \<Longrightarrow>
   fst (async_paths ios t) \<subseteq> fst (ty_paths_cases ios cs) \<and> (snd (async_paths ios t) \<longrightarrow> snd (ty_paths_cases ios cs))"
proof (induction cs)
  case (Cons c cs)
  then show ?case by (cases c) (auto simp: Let_def split: prod.splits)
qed simp

lemma subscribed_variant: "(n, Some t) \<in> set cs \<Longrightarrow> subscribed ios t x \<Longrightarrow> subscribed ios (TVariant cs) x"
  using subscribed_merge [of ios t x "fst (ty_paths_cases ios cs)" "snd (ty_paths_cases ios cs)"] ty_paths_cases_mem [of n t cs ios]
  by (simp add: subscribed_def [of ios "TVariant cs"] case_prod_beta)

lemma subscribed_result:
  "u = a \<or> u = b \<Longrightarrow> u = Some t \<Longrightarrow> subscribed ios t x \<Longrightarrow> subscribed ios (TResult a b) x"
  using subscribed_merge [of ios t x "fst (ty_paths_opt ios a) \<union> fst (ty_paths_opt ios b)"
      "snd (ty_paths_opt ios a) \<or> snd (ty_paths_opt ios b)"]
  by (auto simp: subscribed_def [of ios "TResult a b"] case_prod_beta Let_def)

lemma subscribed_option: "subscribed ios t x \<Longrightarrow> subscribed ios (TOption t) x"
  by (simp add: subscribed_def)

lemma subscribed_here:
  "subscribed ios (TFuture u) []" "subscribed ios (TStream u) []"
  "r \<in> set ios \<Longrightarrow> subscribed ios (TOwn r) []" "r \<in> set ios \<Longrightarrow> subscribed ios (TBorrow r) []"
  by (simp_all add: subscribed_def)

section \<open>The receiver indexes subscribed positions\<close>

lemma index_at_cong: "idx path = idx' path \<Longrightarrow> index_at idx path = index_at idx' path"
  by (rule ext)+ (simp add: index_at_def)

lemma vbind_ext: "(\<And>a. f a = g a) \<Longrightarrow> vbind m f = vbind m g"
  by presburger

lemma read_resource_cong:
  assumes "is_input H R r \<Longrightarrow> idx path = idx' path"
  shows "read_resource W H idx R r path = read_resource W H idx' R r path"
  using assms by (auto simp: is_input_def read_resource_def read_input_def index_at_cong [of idx path idx'] cong: if_cong)

lemma inputs_known_part: "inputs_known H R ios t \<Longrightarrow> resources u \<subseteq> resources t \<Longrightarrow> inputs_known H R ios u"
  by (auto simp: inputs_known_def)

lemma resources_record: "(n, t) \<in> set fs \<Longrightarrow> resources t \<subseteq> resources (TRecord fs)"
proof -
  assume "(n, t) \<in> set fs"
  then have "snd (map_prod id resources (n, t)) \<in> set (map snd (map (map_prod id resources) fs))"
    unfolding set_map by (intro imageI)
  then show ?thesis unfolding resources.simps by (intro Union_upper) simp
qed

lemma resources_variant: "(n, Some t) \<in> set cs \<Longrightarrow> resources t \<subseteq> resources (TVariant cs)"
proof -
  assume "(n, Some t) \<in> set cs"
  then have "(set_option \<circ> snd) (map_prod id (map_option resources) (n, Some t)) \<in>
      set (map (set_option \<circ> snd) (map (map_prod id (map_option resources)) cs))"
    unfolding set_map by (intro imageI)
  then have "{resources t} \<in> set (map (set_option \<circ> snd) (map (map_prod id (map_option resources)) cs))" by simp
  then have "resources t \<in> \<Union> (set (map (set_option \<circ> snd) (map (map_prod id (map_option resources)) cs)))"
    by (rule UnionI) simp
  then show ?thesis unfolding resources.simps by (rule Union_upper)
qed

lemma resources_parts:
  "resources t \<subseteq> resources (TList t)" "resources t \<subseteq> resources (TOption t)"
  "i < length ts \<Longrightarrow> resources (ts ! i) \<subseteq> resources (TTuple ts)"
  "i < length fs \<Longrightarrow> resources (snd (fs ! i)) \<subseteq> resources (TRecord fs)"
  "(n, Some t) \<in> set cs \<Longrightarrow> resources t \<subseteq> resources (TVariant cs)"
  "a = Some t \<or> b = Some t \<Longrightarrow> resources t \<subseteq> resources (TResult a b)"
proof -
  show "resources (snd (fs ! i)) \<subseteq> resources (TRecord fs)" if "i < length fs"
    using that by (intro resources_record [of "fst (fs ! i)"]) (simp only: prod.collapse nth_mem)
  show "resources t \<subseteq> resources (TVariant cs)" if "(n, Some t) \<in> set cs"
    by (rule resources_variant [OF that])
  show "resources (ts ! i) \<subseteq> resources (TTuple ts)" if "i < length ts"
    using nth_mem [OF that] by auto
qed auto

lemma inputs_known_parts:
  "inputs_known H R ios (TList t) \<Longrightarrow> inputs_known H R ios t" "inputs_known H R ios (TOption t) \<Longrightarrow> inputs_known H R ios t"
  "inputs_known H R ios (TTuple ts) \<Longrightarrow> i < length ts \<Longrightarrow> inputs_known H R ios (ts ! i)"
  "inputs_known H R ios (TRecord fs) \<Longrightarrow> i < length fs \<Longrightarrow> inputs_known H R ios (snd (fs ! i))"
  "inputs_known H R ios (TVariant cs) \<Longrightarrow> (n, Some t) \<in> set cs \<Longrightarrow> inputs_known H R ios t"
  "inputs_known H R ios (TResult a b) \<Longrightarrow> a = Some t \<or> b = Some t \<Longrightarrow> inputs_known H R ios t"
  by (erule inputs_known_part, simp only: resources_parts)+

lemma payload_read:
  "payload t \<Longrightarrow> val_read W H idx R t path = val_read W H idx' R t path'"
  unfolding payload_def by (elim insertE emptyE) simp_all

lemma payload_read': "payload t \<Longrightarrow> val_read W H idx R t = val_read W H idx' R t"
  by (rule ext) (rule payload_read)

lemma val_read_index:
  assumes "inputs_known H R ios t" and "\<And>x. subscribed ios t x \<Longrightarrow> idx (path @ x) = idx' (path @ x)"
  shows "val_read W H idx R t path = val_read W H idx' R t path"
  using assms
proof (induction t arbitrary: path)
  case (TList t)
  have "val_read W H idx R t (path @ [i]) = val_read W H idx' R t (path @ [i])" for i
    using TList.prems(2) [OF subscribed_list] inputs_known_parts(1) [OF TList.prems(1)] by (intro TList.IH) auto
  then show ?case by (simp add: val_read_list_def)
next
  case (TRecord fs)
  have "val_read W H idx R (snd (fs ! i)) (path @ [i]) = val_read W H idx' R (snd (fs ! i)) (path @ [i])"
    if i: "i < length fs" for i
  proof (rule TRecord.IH)
    show "fs ! i \<in> set fs" using i by simp
    show "inputs_known H R ios (snd (fs ! i))" by (rule inputs_known_parts(4) [OF TRecord.prems(1) i])
    show "idx ((path @ [i]) @ x) = idx' ((path @ [i]) @ x)" if "subscribed ios (snd (fs ! i)) x" for x
      using TRecord.prems(2) [OF subscribed_record [OF i that]] by simp
  qed (simp add: snds.simps prod_eq_iff)
  then have "map (\<lambda>(i, (name, f)). f (path @ [i])) (enumerate 0 (map (map_prod id (val_read W H idx R)) fs)) =
      map (\<lambda>(i, (name, f)). f (path @ [i])) (enumerate 0 (map (map_prod id (val_read W H idx' R)) fs))"
    by (intro nth_equalityI) (simp_all add: nth_enumerate_eq map_prod_def case_prod_beta)
  then show ?case by (simp add: val_read_record_def comp_def)
next
  case (TTuple ts)
  have "val_read W H idx R (ts ! i) (path @ [i]) = val_read W H idx' R (ts ! i) (path @ [i])" if "i < length ts" for i
    using TTuple.prems(2) [OF subscribed_tuple] inputs_known_parts(3) [OF TTuple.prems(1)] that
    by (intro TTuple.IH) auto
  then have "map (\<lambda>(i, f). f (path @ [i])) (enumerate 0 (map (val_read W H idx R) ts)) =
      map (\<lambda>(i, f). f (path @ [i])) (enumerate 0 (map (val_read W H idx' R) ts))"
    by (intro nth_equalityI) (auto simp: nth_enumerate_eq)
  then show ?case by (simp add: val_read_tuple_def)
next
  case (TVariant cs)
  have *: "val_read W H idx R u path = val_read W H idx' R u path" if "(n, Some u) \<in> set cs" for n u
  proof (rule TVariant.IH [OF that])
    show "inputs_known H R ios u" by (rule inputs_known_parts(5) [OF TVariant.prems(1) that])
    show "idx (path @ x) = idx' (path @ x)" if "subscribed ios u x" for x
      by (rule TVariant.prems(2) [OF subscribed_variant [OF \<open>(n, Some u) \<in> set cs\<close> that]])
  qed (simp_all add: snds.intros)
  have "(case map (map_prod id (map_option (val_read W H idx R))) cs ! i of
           (name, Some f) \<Rightarrow> vbind (f path) (\<lambda>v. vret (VVariant name (Some v)))
         | (name, None) \<Rightarrow> vret (VVariant name None)) =
       (case map (map_prod id (map_option (val_read W H idx' R))) cs ! i of
           (name, Some f) \<Rightarrow> vbind (f path) (\<lambda>v. vret (VVariant name (Some v)))
         | (name, None) \<Rightarrow> vret (VVariant name None))" if i: "i < length cs" for i
  proof -
    obtain n u where c: "cs ! i = (n, u)" by (cases "cs ! i")
    then have "(n, u) \<in> set cs" using i by (metis nth_mem)
    with * c i show ?thesis by (cases u) auto
  qed
  then show ?case by (simp add: val_read_variant_def cong: if_cong)
next
  case (TOption t)
  have "val_read W H idx R t path = val_read W H idx' R t path"
    using TOption.prems(2) [OF subscribed_option] inputs_known_parts(2) [OF TOption.prems(1)] by (intro TOption.IH) auto
  then show ?case by (simp add: val_read_option_def cong: if_cong)
next
  case (TResult a b)
  have "val_read W H idx R u path = val_read W H idx' R u path" if "a = Some u" for u
    using TResult.prems(2) [OF subscribed_result [of a]] inputs_known_parts(6) [OF TResult.prems(1)] that
    by (intro TResult.IH) auto
  moreover have "val_read W H idx R u path = val_read W H idx' R u path" if "b = Some u" for u
    using TResult.prems(2) [OF subscribed_result [of b]] inputs_known_parts(6) [OF TResult.prems(1)] that
    by (intro TResult.IH) auto
  ultimately show ?case by (cases a; cases b) (auto simp: val_read_result_def intro!: vbind_ext)
next
  case (TFuture u)
  have "idx path = idx' path" using TFuture.prems(2) [OF subscribed_here(1)] by simp
  note index = index_at_cong [of idx path idx', OF this]
  have "map_option (val_read W H idx R) u = map_option (val_read W H idx' R) u" if "with_payload u"
    using that payload_read' [of _ W H idx R idx'] by (cases u) (simp_all add: with_payload_def)
  then show ?case by (simp add: index read_future_def cong: if_cong)
next
  case (TStream u)
  have "idx path = idx' path" using TStream.prems(2) [OF subscribed_here(2)] by simp
  note index = index_at_cong [of idx path idx', OF this]
  have "val_read W H idx R t = val_read W H idx' R t" if "payload t" for t
    by (rule payload_read' [OF that])
  then show ?case by (cases u) (simp_all add: index read_stream_def cong: if_cong)
next
  case (TOwn r)
  then show ?case using TOwn.prems(2) [OF subscribed_here(3)] by (auto simp: inputs_known_def intro!: read_resource_cong)
next
  case (TBorrow r)
  then show ?case using TBorrow.prems(2) [OF subscribed_here(4)] by (auto simp: inputs_known_def intro!: read_resource_cong)
qed simp_all

section \<open>The sender defers at subscribed positions\<close>

lemma encode_each_length: "encode_each es dst w = (w', Inr (dst', ds)) \<Longrightarrow> length ds = length es"
  by (induction es arbitrary: dst w ds) (auto simp: chain_eq_Inr)

lemma encode_each_nth:
  "encode_each es dst w = (w', Inr (dst', ds)) \<Longrightarrow> i < length es \<Longrightarrow>
   \<exists>c v c' v'. (es ! i) c v = (v', Inr (c', ds ! i))"
proof (induction es arbitrary: dst w ds i)
  case (Cons e es)
  then obtain c v d ds' where e: "e dst w = (v, Inr (c, d))" "encode_each es c v = (w', Inr (dst', ds'))" "ds = d # ds'"
    by (auto simp: chain_eq_Inr)
  show ?case
  proof (cases i)
    case (Suc j)
    with Cons.IH [OF e(2), of j] Cons.prems(2) e(3) show ?thesis by simp
  qed (use e in auto)
qed simp

lemma element_positions_nth:
  "p \<in> set (element_positions m ds) \<Longrightarrow> \<exists>i q. i < length ds \<and> p = (m + i) # q \<and> q \<in> set (positions (ds ! i))"
proof (induction ds arbitrary: m)
  case (Cons d ds)
  from Cons.prems consider q where "p = m # q" "q \<in> set (positions d)" | "p \<in> set (element_positions (Suc m) ds)" by auto
  then show ?case
  proof cases
    case 2
    from Cons.IH [OF this] obtain i q where "i < length ds" "p = (Suc m + i) # q" "q \<in> set (positions (ds ! i))" by blast
    then show ?thesis by (intro exI [of _ "Suc i"] exI [of _ q]) simp
  qed (rule exI [of _ 0], simp)
qed simp

lemma encode_elements_position:
  assumes "encode_elements es dst w = (w', Inr (dst', d))" and "p \<in> set (positions d)"
  obtains i q c v c' v' e where "i < length es" "p = i # q" "(es ! i) c v = (v', Inr (c', e))" "q \<in> set (positions e)"
proof -
  from assms(1) obtain ds where ds: "encode_each es dst w = (w', Inr (dst', ds))" "d = collect ds"
    by (auto simp: encode_elements_def chain_eq_Inr)
  from assms(2) ds(2) element_positions_nth [of p 0 ds]
  obtain i q where i: "i < length es" "p = i # q" "q \<in> set (positions (ds ! i))"
    by (auto simp: positions_collect encode_each_length [OF ds(1)])
  with encode_each_nth [OF ds(1) i(1)] show thesis using that by blast
qed

lemma encode_resource_position:
  assumes "encode_resource W H R x r dst w = (w', Inr (dst', d))" and "p \<in> set (positions d)"
  shows "is_input H R r \<and> p = []"
  using assms by (auto simp: is_input_def encode_resource_def encode_input_def stream_encode_read_def encode_handle_def chain_eq_Inr
      and_then_eq_Inr split: if_splits)

lemma find_discriminant_mem: "find_discriminant k w e i cs c = Inr (j, u) \<Longrightarrow> (c, u) \<in> set cs"
proof (induction cs arbitrary: i)
  case Nil
  then show ?case by (subst (asm) find_discriminant.simps) (simp split: if_splits)
next
  case (Cons x cs)
  then show ?case using find_discriminant.simps [of k w e i "x # cs" c] by (cases x) (auto split: if_splits)
qed

text \<open>The inversion rules of the encoder on compound values.\<close>

lemma val_encode_list:
  assumes "val_encode W k H R (VList vs) t dst w = (w', Inr (dst', d))"
  obtains u where "t = TList u" "length vs < 2 ^ 32"
    "encode_elements (map (\<lambda>v. val_encode W k H R v u) vs) (dst @ leb_enc W 32 (length vs)) w = (w', Inr (dst', d))"
proof (cases "as_list t")
  case (Some u)
  with assms have "length vs < 2 ^ 32 \<and>
      encode_elements (map (\<lambda>v. val_encode W k H R v u) vs) (dst @ leb_enc W 32 (length vs)) w = (w', Inr (dst', d))"
    by (simp add: val_list_def comp_def split: if_splits)
  with Some that show thesis by simp
qed (use assms in simp)

lemma val_encode_record:
  assumes "val_encode W k H R (VRecord fs) t dst w = (w', Inr (dst', d))"
  obtains ts where "t = TRecord ts" "length fs = length ts"
    "encode_elements (map (\<lambda>(v, u). val_encode W k H R (snd v) (snd u)) (zip fs ts)) dst w = (w', Inr (dst', d))"
proof (cases "as_record t")
  case (Some ts)
  have "map (\<lambda>((name, e), (_, u)). e u) (zip (map (map_prod id (val_encode W k H R)) fs) ts) =
      map (\<lambda>(v, u). val_encode W k H R (snd v) (snd u)) (zip fs ts)"
    by (simp add: zip_map1 comp_def case_prod_beta)
  with assms Some that [of ts] show thesis by (simp add: val_record_def split: if_splits)
qed (use assms in simp)

lemma val_encode_tuple:
  assumes "val_encode W k H R (VTuple vs) t dst w = (w', Inr (dst', d))"
  obtains ts where "t = TTuple ts" "length vs = length ts"
    "encode_elements (map (\<lambda>(v, u). val_encode W k H R v u) (zip vs ts)) dst w = (w', Inr (dst', d))"
proof (cases "as_tuple t")
  case (Some ts)
  have "map (\<lambda>(e, u). e u) (zip (map (val_encode W k H R) vs) ts) = map (\<lambda>(v, u). val_encode W k H R v u) (zip vs ts)"
    by (simp add: zip_map1 comp_def case_prod_beta)
  with assms Some that [of ts] show thesis by (simp add: val_tuple_def split: if_splits)
qed (use assms in simp)

lemma val_variant_cases:
  assumes "val_variant W k c v cs dst w = (w', Inr (dst', d))"
  obtains u b where "(c, u) \<in> set cs" "v = None" "u = None" "dst' = dst @ b" "d = None" "w' = w"
  | e u b where "v = Some e" "(c, Some u) \<in> set cs" "e u (dst @ b) w = (w', Inr (dst', d))"
proof -
  from assms obtain n where n: "disc_width (length cs) = Some n" by (cases "disc_width (length cs)") (auto simp: val_variant_def)
  with assms obtain i u where i: "find_discriminant k n Unknown_Variant 0 cs c = Inr (i, u)"
    and e: "(case v of
        Some e \<Rightarrow> (case u of None \<Rightarrow> raise Variant_Type_Missing | Some u \<Rightarrow> e u (dst @ leb_enc W n i))
      | None \<Rightarrow> if u \<noteq> None then raise Variant_Payload_Missing else yield (dst @ leb_enc W n i, None)) w = (w', Inr (dst', d))"
    by (auto simp: val_variant_def chain_eq_Inr Let_def)
  note mem = find_discriminant_mem [OF i]
  show thesis
  proof (cases v)
    case None
    with e that(1) [OF mem] show thesis by (auto split: if_splits)
  next
    case (Some f)
    with e mem that(2) [OF Some] show thesis by (cases u) auto
  qed
qed

lemma val_result_cases:
  assumes "val_result ok v u dst w = (w', Inr (dst', d))"
  obtains "v = None" "u = None" "dst' = dst @ [if ok then 0 else 1]" "d = None" "w' = w"
  | e t where "v = Some e" "u = Some t" "e t (dst @ [if ok then 0 else 1]) w = (w', Inr (dst', d))"
  using assms by (cases v; cases u) (auto simp: val_result_def)

lemma val_encode_position:
  assumes "val_encode W k H R v t dst w = (w', Inr (dst', d))" and "inputs_known H R ios t" and "p \<in> set (positions d)"
  shows "subscribed ios t p"
  using assms
proof (induction v arbitrary: t dst w w' dst' d p)
  case (VList vs)
  from VList.prems(1) obtain u where t: "t = TList u"
    and e: "encode_elements (map (\<lambda>v. val_encode W k H R v u) vs) (dst @ leb_enc W 32 (length vs)) w = (w', Inr (dst', d))"
    by (rule val_encode_list)
  from e VList.prems(3) show ?case
  proof (rule encode_elements_position)
    fix i q c x c' x' e
    assume i: "i < length (map (\<lambda>v. val_encode W k H R v u) vs)" and p: "p = i # q"
      and "(map (\<lambda>v. val_encode W k H R v u) vs ! i) c x = (x', Inr (c', e))" and q: "q \<in> set (positions e)"
    then have "val_encode W k H R (vs ! i) u c x = (x', Inr (c', e))" "vs ! i \<in> set vs" by simp_all
    from VList.IH [OF this(2,1) inputs_known_parts(1) [OF VList.prems(2) [unfolded t]] q] show ?thesis
      unfolding t p by (rule subscribed_list)
  qed
next
  case (VRecord fs)
  from VRecord.prems(1) obtain ts where t: "t = TRecord ts" and n: "length fs = length ts"
    and e: "encode_elements (map (\<lambda>(v, u). val_encode W k H R (snd v) (snd u)) (zip fs ts)) dst w = (w', Inr (dst', d))"
    by (rule val_encode_record)
  from e VRecord.prems(3) show ?case
  proof (rule encode_elements_position)
    fix i q c x c' x' e
    assume i: "i < length (map (\<lambda>(v, u). val_encode W k H R (snd v) (snd u)) (zip fs ts))" and p: "p = i # q"
      and "(map (\<lambda>(v, u). val_encode W k H R (snd v) (snd u)) (zip fs ts) ! i) c x = (x', Inr (c', e))"
      and q: "q \<in> set (positions e)"
    then have e: "val_encode W k H R (snd (fs ! i)) (snd (ts ! i)) c x = (x', Inr (c', e))" and i: "i < length ts" by simp_all
    have "fs ! i \<in> set fs" "snd (fs ! i) \<in> Basic_BNFs.snds (fs ! i)" using i n by (simp_all add: snds.simps prod_eq_iff)
    from VRecord.IH [OF this e inputs_known_parts(4) [OF VRecord.prems(2) [unfolded t] i] q] show ?thesis
      unfolding t p by (rule subscribed_record [OF i])
  qed
next
  case (VTuple vs)
  from VTuple.prems(1) obtain ts where t: "t = TTuple ts" and n: "length vs = length ts"
    and e: "encode_elements (map (\<lambda>(v, u). val_encode W k H R v u) (zip vs ts)) dst w = (w', Inr (dst', d))"
    by (rule val_encode_tuple)
  from e VTuple.prems(3) show ?case
  proof (rule encode_elements_position)
    fix i q c x c' x' e
    assume i: "i < length (map (\<lambda>(v, u). val_encode W k H R v u) (zip vs ts))" and p: "p = i # q"
      and "(map (\<lambda>(v, u). val_encode W k H R v u) (zip vs ts) ! i) c x = (x', Inr (c', e))"
      and q: "q \<in> set (positions e)"
    then have e: "val_encode W k H R (vs ! i) (ts ! i) c x = (x', Inr (c', e))" and i: "i < length ts" by simp_all
    have "vs ! i \<in> set vs" using i n by simp
    from VTuple.IH [OF this e inputs_known_parts(3) [OF VTuple.prems(2) [unfolded t] i] q] show ?thesis
      unfolding t p by (rule subscribed_tuple [OF i])
  qed
next
  case (VVariant c v)
  from VVariant.prems(1) obtain cs where t: "t = TVariant cs"
    and e: "val_variant W k c (map_option (val_encode W k H R) v) cs dst w = (w', Inr (dst', d))"
    by (auto split: option.splits)
  from e show ?case
  proof (cases rule: val_variant_cases)
    case (2 e u b)
    then obtain v' where v: "v = Some v'" "e = val_encode W k H R v'" by auto
    have "inputs_known H R ios u" by (rule inputs_known_parts(5) [OF VVariant.prems(2) [unfolded t] 2(2)])
    from VVariant.IH [OF _ 2(3) [unfolded v(2)] this VVariant.prems(3)] v(1) show ?thesis
      unfolding t by (intro subscribed_variant [OF 2(2)]) simp
  qed (use VVariant.prems(3) in simp)
next
  case (VOption v)
  from VOption.prems(1) obtain u where t: "t = TOption u" by (auto split: option.splits)
  show ?case
  proof (cases v)
    case None
    with VOption.prems(1,3) show ?thesis by (simp add: t val_option_def)
  next
    case (Some v')
    with VOption.prems(1) have e: "val_encode W k H R v' u (dst @ [1]) w = (w', Inr (dst', d))" by (simp add: t val_option_def)
    from VOption.IH [OF _ e inputs_known_parts(2) [OF VOption.prems(2) [unfolded t]] VOption.prems(3)] Some show ?thesis
      unfolding t by (intro subscribed_option) simp
  qed
next
  case (VResult ok v)
  from VResult.prems(1) obtain a b where t: "t = TResult a b" by (auto split: option.splits)
  with VResult.prems(1) have "val_result ok (map_option (val_encode W k H R) v) (if ok then a else b) dst w = (w', Inr (dst', d))"
    by simp
  then show ?case
  proof (cases rule: val_result_cases)
    case (2 e u)
    then obtain v' where v: "v = Some v'" "e = val_encode W k H R v'" by auto
    have "a = Some u \<or> b = Some u" using 2(2) by (simp split: if_splits)
    moreover from this have "inputs_known H R ios u" using VResult.prems(2) inputs_known_parts(6) unfolding t by blast
    ultimately show ?thesis using VResult.IH [of v' u, OF _ 2(3) [unfolded v(2)] _ VResult.prems(3)] v(1)
      unfolding t by (intro subscribed_result [of "Some u" a b u]) auto
  qed (use VResult.prems(3) in simp)
next
  case (VResource x)
  consider r where "t = TOwn r \<or> t = TBorrow r" "encode_resource W H R x r dst w = (w', Inr (dst', d))"
    using VResource.prems(1) by (cases t) auto
  then show ?case
  proof cases
    case 1
    from encode_resource_position [OF 1(2) VResource.prems(3)] 1(1) VResource.prems(2) show ?thesis
      by (auto simp: inputs_known_def subscribed_here)
  qed
next
  case (VFuture x)
  from VFuture.prems(1) obtain u where "t = TFuture u" "encode_val_future H x u dst w = (w', Inr (dst', d))" by (cases t) auto
  with VFuture.prems(3) show ?case by (auto simp: encode_val_future_def encode_future_def chain_eq_Inr subscribed_here split: if_splits)
next
  case (VStream x)
  from VStream.prems(1) obtain u where "t = TStream u" "encode_val_stream H x u dst w = (w', Inr (dst', d))" by (cases t) auto
  with VStream.prems(3) show ?case by (auto simp: encode_val_stream_def encode_stream_def chain_eq_Inr subscribed_here split: if_splits option.splits)
qed (auto simp: put_def val_enum_def chain_eq_Inr split: if_splits option.splits)

section \<open>The subscriptions of a function\<close>

lemma subscribed_param:
  assumes "i < length params" and "subscribed ios (params ! i) p"
  shows "\<exists>pat \<in> set (params_async_paths ios params). matches pat (i # p)"
  using subscribed_push [OF assms(2), of "Some i" _ i] ty_paths_types_nth [OF assms(1), of 0 ios] by simp

text \<open>Whether the index of a connection has a position, once the paths of the parameters were declared.\<close>

definition declared_at :: "resource_type list \<Rightarrow> ty list \<Rightarrow> path \<Rightarrow> bool" where
  "declared_at ios params p \<longleftrightarrow>
    (\<exists>n pat. resolve (subs_new (params_async_paths ios params)) p = Some (n, pat) \<and> declared n)"

lemma subscribed_indexed:
  assumes "i < length params" and "subscribed ios (params ! i) p"
  shows "declared_at ios params (i # p)"
proof -
  let ?P = "params_async_paths ios params"
  obtain pat where pat: "pat \<in> set ?P" "matches pat (i # p)" using subscribed_param [OF assms] by blast
  then have "pat \<noteq> []" by auto
  note ok = nodes_ok_new [of ?P]
  have "map_of (patterns (subs_new ?P)) pat \<noteq> None" using nodes_okD(1) [OF ok, of pat] pat(1) \<open>pat \<noteq> []\<close> by auto
  then obtain n where n: "map_of (patterns (subs_new ?P)) pat = Some n" by auto
  have "consistent (set ?P)" by (simp add: async_paths_consistent)
  from resolve_iff [OF declares_new [OF this]] n pat(2) nodes_okD(3) [OF ok n] pat(1) \<open>pat \<noteq> []\<close> show ?thesis
    unfolding declared_at_def by (intro exI [of _ n] exI [of _ pat]) simp
qed

text \<open>
  The positions of asynchronous parts (claim C16). Let the parameters of a function be received on a connection with the paths of
  \<open>params_async_paths\<close>. Then whatever the sender encodes for a parameter, it defers operations only at positions the
  index of the connection has; and what the receiver reads for it depends on indexing at such positions only. The
  assumption is that the resources either side sends as streams of bytes are among the types the paths were computed with.
\<close>

theorem async_positions_indexed:
  assumes "i < length params" and "inputs_known H R ios (params ! i)" and "inputs_known H' R' ios (params ! i)"
  shows "(\<forall>v dst w w' dst' d. val_encode W k H R v (params ! i) dst w = (w', Inr (dst', d)) \<longrightarrow>
      list_all (\<lambda>p. declared_at ios params (i # p)) (positions d)) \<and>
    (\<forall>idx idx'. (\<forall>p. declared_at ios params p \<longrightarrow> idx p = idx' p) \<longrightarrow>
      val_read W H' idx R' (params ! i) [i] = val_read W H' idx' R' (params ! i) [i])"
proof (intro conjI allI impI)
  fix v dst w w' dst' d
  assume "val_encode W k H R v (params ! i) dst w = (w', Inr (dst', d))"
  from val_encode_position [OF this assms(2)] show "list_all (\<lambda>p. declared_at ios params (i # p)) (positions d)"
    unfolding list_all_iff using subscribed_indexed [OF assms(1)] by blast
next
  fix idx idx' :: "'c index"
  assume "\<forall>p. declared_at ios params p \<longrightarrow> idx p = idx' p"
  then have "idx ([i] @ x) = idx' ([i] @ x)" if "subscribed ios (params ! i) x" for x
    using subscribed_indexed [OF assms(1) that] by simp
  with assms(3) show "val_read W H' idx R' (params ! i) [i] = val_read W H' idx' R' (params ! i) [i]"
    by (rule val_read_index)
qed

theorem async_positions_indexed_witness:
  "list_all (\<lambda>p. declared_at [1] [TU8, TList (TFuture (Some TU8))] (1 # p))
     (positions (Some (At [Some (Here (Write_Future 1 7 (Some TU8))), Some (Here (Write_Future 2 9 (Some TU8)))])))"
proof -
  let ?ps = "[TU8, TList (TFuture (Some TU8))]"
  have "inputs_known ref_host no_resources [1] (?ps ! 1)" by (simp add: inputs_known_def)
  then have "(\<forall>v dst w w' dst' d. val_encode wasm_ref True ref_host no_resources v (?ps ! 1) dst w = (w', Inr (dst', d)) \<longrightarrow>
      list_all (\<lambda>p. declared_at [1] ?ps (1 # p)) (positions d))"
    by (intro conjunct1 [OF async_positions_indexed [of 1 ?ps ref_host no_resources "[1]" ref_host no_resources wasm_ref True]]) simp_all
  moreover have "val_encode wasm_ref True ref_host no_resources (VList [VFuture 7, VFuture 9]) (?ps ! 1) [] no_world =
      (no_world, Inr ([2, 0, 0], Some (At [Some (Here (Write_Future 1 7 (Some TU8))), Some (Here (Write_Future 2 9 (Some TU8)))])))"
    by (simp add: val_list_def encode_elements_def encode_val_future_def encode_future_def with_payload_def payload_def on_store_def
        collect_def chain_def uleb.simps as_u8_def no_world_def)
  ultimately show ?thesis by blast
qed

end
