(* ===== verification/Val_Exchange.thy ===== *)
theory Val_Exchange
  imports Val_Transfer
begin

text \<open>
  Two components that exchange values with resources, futures and streams, each with a store of its own.

  \<^item> What the encoder of one appended, the reader of the other reads as the same value with handles of its own store, and it
    indexes the connection at the positions of the deferred operations, in their order.
  \<^item> A resource of a guest is sent as a handle; the handle comes back as the resource.
\<close>

section \<open>Values up to handles\<close>

primrec erase :: "val \<Rightarrow> val" where
  "erase (VBool b) = VBool b"
| "erase (VS8 i) = VS8 i" | "erase (VU8 n) = VU8 n" | "erase (VS16 i) = VS16 i" | "erase (VU16 n) = VU16 n"
| "erase (VS32 i) = VS32 i" | "erase (VU32 n) = VU32 n" | "erase (VS64 i) = VS64 i" | "erase (VU64 n) = VU64 n"
| "erase (VFloat32 n) = VFloat32 n" | "erase (VFloat64 n) = VFloat64 n" | "erase (VChar c) = VChar c" | "erase (VString s) = VString s"
| "erase (VList vs) = VList (map erase vs)"
| "erase (VRecord fs) = VRecord (map (map_prod id erase) fs)"
| "erase (VTuple vs) = VTuple (map erase vs)"
| "erase (VVariant c v) = VVariant c (map_option erase v)"
| "erase (VEnum c) = VEnum c"
| "erase (VOption v) = VOption (map_option erase v)"
| "erase (VResult ok v) = VResult ok (map_option erase v)"
| "erase (VFlags fs) = VFlags fs"
| "erase (VResource x) = VResource 0"
| "erase (VFuture x) = VFuture 0"
| "erase (VStream x) = VStream 0"

text \<open>Indexing at a list of positions, one after the other.\<close>

fun index_all :: "'c index \<Rightarrow> path list \<Rightarrow> 'c \<Rightarrow> 'c option" where
  "index_all idx [] c = Some c"
| "index_all idx (p # ps) c = (case idx p c of (c, Inl _) \<Rightarrow> None | (c, Inr _) \<Rightarrow> index_all idx ps c)"

lemma index_all_append:
  "index_all idx (ps @ qs) c = Option.bind (index_all idx ps c) (index_all idx qs)"
  by (induction ps arbitrary: c) (auto split: prod.splits sum.splits)

text \<open>The reader \<open>f\<close> reads the value \<open>v\<close> up to handles off \<open>b\<close> and indexes the positions \<open>ps\<close>.\<close>

definition receives ::
  "'c index \<Rightarrow> (path \<Rightarrow> ('s, 'c, val) reading) \<Rightarrow> bytes \<Rightarrow> path list \<Rightarrow> val \<Rightarrow> bool" where
  "receives idx f b ps v \<longleftrightarrow>
    (\<forall>path r w c c'. index_all idx (map ((@) path) ps) c = Some c' \<longrightarrow>
      (\<exists>w' v'. f path (b @ r) (w, c) = ((w', c'), Inr (v', r)) \<and> erase v' = erase v))"

definition sends :: "'c index \<Rightarrow> 's encoding \<Rightarrow> (path \<Rightarrow> ('t, 'c, val) reading) \<Rightarrow> val \<Rightarrow> bool" where
  "sends idx e f v \<longleftrightarrow>
    (\<forall>dst w w' dst' d. e dst w = (w', Inr (dst', d)) \<longrightarrow> (\<exists>b. dst' = dst @ b \<and> receives idx f b (positions d) v))"

lemma receivesI:
  "(\<And>path r w c c'. index_all idx (map ((@) path) ps) c = Some c' \<Longrightarrow>
      \<exists>w' v'. f path (b @ r) (w, c) = ((w', c'), Inr (v', r)) \<and> erase v' = erase v) \<Longrightarrow> receives idx f b ps v"
  unfolding receives_def by blast

lemma receivesE:
  assumes "receives idx f b ps v" and "index_all idx (map ((@) path) ps) c = Some c'"
  obtains w' v' where "f path (b @ r) (w, c) = ((w', c'), Inr (v', r))" "erase v' = erase v"
  using assms unfolding receives_def by blast

lemma sendsI:
  "(\<And>dst w w' dst' d. e dst w = (w', Inr (dst', d)) \<Longrightarrow> \<exists>b. dst' = dst @ b \<and> receives idx f b (positions d) v) \<Longrightarrow>
   sends idx e f v"
  unfolding sends_def by blast

lemma sendsE:
  assumes "sends idx e f v" and "e dst w = (w', Inr (dst', d))"
  obtains b where "dst' = dst @ b" "receives idx f b (positions d) v"
  using assms unfolding sends_def by blast

text \<open>A prefix that is read before the value.\<close>

lemma receives_skip:
  assumes "receives idx f b ps v" and "\<And>r. m (p @ r) = Inr (a, r)" and "\<And>path. h a path = f path"
  shows "receives idx (\<lambda>path. vbind (take_from m) (\<lambda>x. h x path)) (p @ b) ps v"
proof (rule receivesI)
  fix path r w c c'
  assume "index_all idx (map ((@) path) ps) c = Some c'"
  from receivesE [OF assms(1) this] obtain w' v' where "f path (b @ r) (w, c) = ((w', c'), Inr (v', r))" "erase v' = erase v" .
  moreover have "take_from m ((p @ b) @ r) (w, c) = ((w, c), Inr (a, b @ r))" using assms(2) [of "b @ r"] by simp
  ultimately show "\<exists>w' v'. vbind (take_from m) (\<lambda>x. h x path) ((p @ b) @ r) (w, c) = ((w', c'), Inr (v', r)) \<and> erase v' = erase v"
    using assms(3) by simp
qed

lemma receives_map:
  assumes "receives idx f b ps v" and "\<And>v'. erase v' = erase v \<Longrightarrow> erase (C v') = erase u"
  shows "receives idx (\<lambda>path. vbind (f path) (\<lambda>v. vret (C v))) b ps u"
proof (rule receivesI)
  fix path r w c c'
  assume "index_all idx (map ((@) path) ps) c = Some c'"
  from receivesE [OF assms(1) this] obtain w' v' where "f path (b @ r) (w, c) = ((w', c'), Inr (v', r))" "erase v' = erase v" .
  with assms(2) show "\<exists>w' v'. vbind (f path) (\<lambda>v. vret (C v)) (b @ r) (w, c) = ((w', c'), Inr (v', r)) \<and> erase v' = erase u"
    by simp
qed

lemma receives_plain:
  assumes "\<And>path r s. f path (b @ r) s = (s, Inr (v, r))"
  shows "receives idx f b [] v"
  using assms by (auto intro!: receivesI)

lemma sends_each:
  assumes "length es = length fs" and "length vs = length fs"
    and "\<And>i. i < length fs \<Longrightarrow> sends idx (es ! i) (fs ! i) (vs ! i)" and "encode_each es dst w = (w', Inr (dst', ds))"
  shows "\<exists>b. dst' = dst @ b \<and> (\<forall>path r x c c'. index_all idx (map ((@) path) (element_positions m ds)) c = Some c' \<longrightarrow>
    (\<exists>x' us. vread_each (map (\<lambda>(i, f). f (path @ [i])) (enumerate m fs)) (b @ r) (x, c) = ((x', c'), Inr (us, r)) \<and>
      map erase us = map erase vs))"
  using assms
proof (induction es arbitrary: fs vs dst w ds m)
  case (Cons e es)
  then obtain f gs v us where fs: "fs = f # gs" and vs: "vs = v # us" by (cases fs; cases vs) auto
  from Cons.prems(4) obtain x y d es' where e: "e dst w = (x, Inr (y, d))" "encode_each es y x = (w', Inr (dst', es'))"
    "ds = d # es'"
    by (auto simp: chain_eq_Inr)
  from Cons.prems(3) [of 0] have "sends idx e f v" by (simp add: fs vs)
  from sendsE [OF this e(1)] obtain b where b: "y = dst @ b" "receives idx f b (positions d) v" .
  have "\<exists>b. dst' = y @ b \<and> (\<forall>path r x c c'. index_all idx (map ((@) path) (element_positions (Suc m) es')) c = Some c' \<longrightarrow>
    (\<exists>x' ws. vread_each (map (\<lambda>(i, f). f (path @ [i])) (enumerate (Suc m) gs)) (b @ r) (x, c) = ((x', c'), Inr (ws, r)) \<and>
      map erase ws = map erase us))"
    using Cons.prems(1,2) Cons.prems(3) [of "Suc _"] by (intro Cons.IH [OF _ _ _ e(2)]) (simp_all add: fs vs)
  then obtain b' where b': "dst' = y @ b'"
    and rest: "\<And>path r x c c'. index_all idx (map ((@) path) (element_positions (Suc m) es')) c = Some c' \<Longrightarrow>
      \<exists>x' ws. vread_each (map (\<lambda>(i, f). f (path @ [i])) (enumerate (Suc m) gs)) (b' @ r) (x, c) = ((x', c'), Inr (ws, r)) \<and>
        map erase ws = map erase us"
    by blast
  show ?case
  proof (intro exI [of _ "b @ b'"] conjI allI impI)
    show "dst' = dst @ b @ b'" by (simp add: b' b(1))
    fix path r x c c'
    assume "index_all idx (map ((@) path) (element_positions m ds)) c = Some c'"
    moreover have "(@) (path @ [m]) = (\<lambda>x. path @ m # x)" by (rule ext) simp
    ultimately obtain c1 where c1: "index_all idx (map ((@) (path @ [m])) (positions d)) c = Some c1"
      "index_all idx (map ((@) path) (element_positions (Suc m) es')) c1 = Some c'"
      by (auto simp: e(3) index_all_append comp_def bind_eq_Some_conv)
    from receivesE [OF b(2) c1(1)] obtain x1 v1
      where v1: "f (path @ [m]) (b @ b' @ r) (x, c) = ((x1, c1), Inr (v1, b' @ r))" "erase v1 = erase v" .
    from rest [OF c1(2)] obtain x' ws where
      "vread_each (map (\<lambda>(i, f). f (path @ [i])) (enumerate (Suc m) gs)) (b' @ r) (x1, c1) = ((x', c'), Inr (ws, r))"
      "map erase ws = map erase us" by blast
    with v1 show "\<exists>x' us. vread_each (map (\<lambda>(i, f). f (path @ [i])) (enumerate m fs)) ((b @ b') @ r) (x, c) = ((x', c'), Inr (us, r)) \<and>
        map erase us = map erase vs"
      by (intro exI [of _ x'] exI [of _ "v1 # ws"]) (simp add: fs vs)
  qed
qed simp

text \<open>The elements of a compound value after a prefix.\<close>

lemma sends_elements:
  assumes "length es = length fs" and "length vs = length fs"
    and "\<And>i. i < length fs \<Longrightarrow> sends idx (es ! i) (fs ! i) (vs ! i)" and "encode_elements es dst w = (w', Inr (dst', d))"
    and "\<And>path b s. g path b s = vbind (vread_each (map (\<lambda>(i, f). f (path @ [i])) (enumerate 0 fs))) (\<lambda>us. vret (C us)) b s"
    and "\<And>us. map erase us = map erase vs \<Longrightarrow> erase (C us) = erase v"
  shows "\<exists>b. dst' = dst @ b \<and> receives idx g b (positions d) v"
proof -
  from assms(4) obtain ds where ds: "encode_each es dst w = (w', Inr (dst', ds))" "d = collect ds"
    by (auto simp: encode_elements_def chain_eq_Inr)
  from sends_each [OF assms(1-3) ds(1), of 0] obtain b where b: "dst' = dst @ b"
    and read: "\<And>path r x c c'. index_all idx (map ((@) path) (positions d)) c = Some c' \<Longrightarrow>
      \<exists>x' us. vread_each (map (\<lambda>(i, f). f (path @ [i])) (enumerate 0 fs)) (b @ r) (x, c) = ((x', c'), Inr (us, r)) \<and>
        map erase us = map erase vs"
    by (auto simp: ds(2) positions_collect)
  have "receives idx g b (positions d) v"
  proof (rule receivesI)
    fix path r x c c'
    assume "index_all idx (map ((@) path) (positions d)) c = Some c'"
    from read [OF this] obtain x' us where
      "vread_each (map (\<lambda>(i, f). f (path @ [i])) (enumerate 0 fs)) (b @ r) (x, c) = ((x', c'), Inr (us, r))"
      "map erase us = map erase vs" by blast
    with assms(5,6) show "\<exists>w' v'. g path (b @ r) (x, c) = ((w', c'), Inr (v', r)) \<and> erase v' = erase v" by simp
  qed
  with b show ?thesis by blast
qed

section \<open>Sending and receiving\<close>

lemma sends_plain:
  assumes "wasm_tokio_values W" and "has_type v t"
  shows "sends idx (val_encode W k H R v t) (val_read W H' idx R' t) v"
proof (rule sendsI)
  fix dst w w' dst' d
  assume e: "val_encode W k H R v t dst w = (w', Inr (dst', d))"
  have "codes (wave_read W (\<lambda>t v. True) t) v (wave_encode W v t)" by (rule wave_codes [OF assms(1) TrueI assms(2)])
  then obtain b where b: "wave_encode W v t = Inr b" "\<And>r. wave_read W (\<lambda>t v. True) t (b @ r) = Inr (v, r)"
    by (auto simp: codes_def)
  have "receives idx (val_read W H' idx R' t) b [] v" by (rule receives_plain) (rule followsD [OF val_read_follows b(2)])
  moreover from e plainD [OF val_encode_plain [OF assms(2) b(1)], of k H R dst w] have "dst' = dst @ b" "d = None" by simp_all
  ultimately show "\<exists>b. dst' = dst @ b \<and> receives idx (val_read W H' idx R' t) b (positions d) v" by auto
qed

lemma read_bytes_enc:
  assumes "wasm_tokio_values W" and "length buf < 2 ^ 32"
  shows "read_bytes W (leb_enc W 32 (length buf) @ buf @ r) = Inr (buf, r)"
proof -
  have "leb_read W 32 (leb_enc W 32 (length buf) @ buf @ r) = Inr (length buf, buf @ r)"
    by (rule wasm_tokio_values.read_enc [OF assms(1)]) (use assms(2) in simp_all)
  then show ?thesis by (simp add: read_bytes_def)
qed

lemma vec_enc_Inr:
  assumes "wasm_tokio_values W" and "vec_enc W buf = Inr b"
  shows "length buf < 2 ^ 32 \<and> b = leb_enc W 32 (length buf) @ buf"
proof (cases "length buf < 2 ^ 32")
  case True
  with wasm_tokio_values.vec_enc_small [OF assms(1), of buf] assms(2) show ?thesis by simp
next
  case False
  with wasm_tokio_values.vec_enc_big [OF assms(1), of buf] assms(2) show ?thesis by auto
qed

lemma with_store_total:
  assumes "\<And>s. \<exists>s' a. f s = (s', Inr a)"
  obtains w' a where "with_store (on_store e f) b (w, c) = ((w', c), Inr (a, b))"
proof -
  from assms [of "w_store w"] obtain s a where "f (w_store w) = (s, Inr a)" by blast
  then show thesis using that by (simp add: with_store_def on_store_def)
qed

lemma index_at_Some:
  assumes "index_all idx [path] c = Some c'"
  obtains i where "index_at idx path b (w, c) = ((w, c'), Inr (i, b))"
proof (cases "idx path c")
  case (Pair x y)
  with assms that show thesis by (cases y) (simp_all add: index_at_def)
qed

lemma ball_subset: "\<forall>x \<in> A. P x \<Longrightarrow> B \<subseteq> A \<Longrightarrow> \<forall>x \<in> B. P x"
  by blast

text \<open>The types of resources two components agree on: handles are sent to where they are not resources of the guest.\<close>

definition resources_agree :: "'s host \<Rightarrow> resource_types \<Rightarrow> 't host \<Rightarrow> resource_types \<Rightarrow> ty \<Rightarrow> bool" where
  "resources_agree H R H' R' t \<longleftrightarrow>
    (\<forall>r \<in> resources t. is_input H R r = is_input H' R' r \<and> (is_input H' R' r \<or> r \<notin> set (guest R')))"

lemma resources_agree_parts:
  "resources_agree H R H' R' (TList t) \<Longrightarrow> resources_agree H R H' R' t"
  "resources_agree H R H' R' (TOption t) \<Longrightarrow> resources_agree H R H' R' t"
  "resources_agree H R H' R' (TTuple ts) \<Longrightarrow> i < length ts \<Longrightarrow> resources_agree H R H' R' (ts ! i)"
  "resources_agree H R H' R' (TRecord fs) \<Longrightarrow> i < length fs \<Longrightarrow> resources_agree H R H' R' (snd (fs ! i))"
  "resources_agree H R H' R' (TVariant cs) \<Longrightarrow> (n, Some t) \<in> set cs \<Longrightarrow> resources_agree H R H' R' t"
  "resources_agree H R H' R' (TResult a b) \<Longrightarrow> a = Some t \<or> b = Some t \<Longrightarrow> resources_agree H R H' R' t"
  unfolding resources_agree_def by (erule ball_subset, simp only: resources_parts)+

context receiving_host
begin

lemma receives_handle:
  assumes "wasm_tokio_values W" and "length buf < 2 ^ 32" and "\<not> is_input H R r" and "r \<notin> set (guest R)"
  shows "receives idx (read_resource W H idx R r) (leb_enc W 32 (length buf) @ buf) [] (VResource x)"
proof (rule receivesI)
  fix path y and w :: "'s world" and c c'
  assume "index_all idx (map ((@) path) []) c = Some c'"
  then have c: "c' = c" by simp
  obtain w1 e where 1: "with_store (on_store OutOfMemory (h_push_remote H buf)) y (w, c) = ((w1, c), Inr (e, y))"
    by (rule with_store_total [OF push_remote])
  obtain w2 z where 2: "with_store (on_store Other (h_any_remote H e)) y (w1, c) = ((w2, c), Inr (z, y))"
    by (rule with_store_total [OF any_remote])
  from assms(3,4) 1 2 read_bytes_enc [OF assms(1,2), of y]
  show "\<exists>w' v'. read_resource W H idx R r path ((leb_enc W 32 (length buf) @ buf) @ y) (w, c) = ((w', c'), Inr (v', y)) \<and>
      erase v' = erase (VResource x)"
    unfolding c by (simp add: read_resource_def is_input_def)
qed

lemma receives_memory:
  assumes "wasm_tokio_values W" and "length buf < 2 ^ 32" and "is_input H R r"
  shows "receives idx (read_resource W H idx R r) (1 # leb_enc W 32 (length buf) @ buf) [] (VResource x)"
proof (rule receivesI)
  fix path y and w :: "'s world" and c c'
  assume "index_all idx (map ((@) path) []) c = Some c'"
  then have c: "c' = c" by simp
  obtain w1 e where 1: "with_store (on_store OutOfMemory (h_push_input H (Memory buf))) y (w, c) = ((w1, c), Inr (e, y))"
    by (rule with_store_total [OF push_input])
  obtain w2 z where 2: "with_store (on_store Other (h_any_input H e)) y (w1, c) = ((w2, c), Inr (z, y))"
    by (rule with_store_total [OF any_input])
  from assms(3) 1 2 read_bytes_enc [OF assms(1,2), of y]
  show "\<exists>w' v'. read_resource W H idx R r path ((1 # leb_enc W 32 (length buf) @ buf) @ y) (w, c) = ((w', c'), Inr (v', y)) \<and>
      erase v' = erase (VResource x)"
    unfolding c by (simp add: read_resource_def is_input_def read_input_def)
qed

lemma receives_piped:
  assumes "is_input H R r"
  shows "receives idx (read_resource W H idx R r) [0] [[]] (VResource x)"
proof (rule receivesI)
  fix path y and w :: "'s world" and c c'
  assume "index_all idx (map ((@) path) [[]]) c = Some c'"
  then have "index_all idx [path] c = Some c'" by simp
  then obtain i where 0: "index_at idx path y (w, c) = ((w, c'), Inr (i, y))" by (rule index_at_Some)
  obtain w1 e where 1: "with_store (on_store OutOfMemory (h_push_input H (Piped i))) y (w, c') = ((w1, c'), Inr (e, y))"
    by (rule with_store_total [OF push_input])
  obtain w2 z where 2: "with_store (on_store Other (h_any_input H e)) y (w1, c') = ((w2, c'), Inr (z, y))"
    by (rule with_store_total [OF any_input])
  from assms 0 1 2
  show "\<exists>w' v'. read_resource W H idx R r path ([0] @ y) (w, c) = ((w', c'), Inr (v', y)) \<and> erase v' = erase (VResource x)"
    by (simp add: read_resource_def is_input_def read_input_def)
qed

lemma receives_future:
  assumes "wasm_tokio_values W"
  shows "receives idx (\<lambda>path. vbind (read_future W H idx u f path) (\<lambda>v. vret (VFuture v))) [0] [[]] (VFuture x)"
proof (rule receivesI)
  fix path y and w :: "'s world" and c c'
  assume "index_all idx (map ((@) path) [[]]) c = Some c'"
  then have "index_all idx [path] c = Some c'" by simp
  then obtain i where 0: "index_at idx path y (w, c) = ((w, c'), Inr (i, y))" by (rule index_at_Some)
  obtain w1 e where 1: "with_store (on_store Other (h_new_future H (Pending_Future i u))) y (w, c') = ((w1, c'), Inr (e, y))"
    by (rule with_store_total [OF new_future])
  from 0 1 have "read_future W H idx u f path (0 # y) (w, c) = ((w1, c'), Inr (e, y))"
    using wasm_tokio_values.option_bytes(1) [OF assms, of y] by (simp add: read_future_def vbind_def chain_def take_from_def)
  then show "\<exists>w' v'. vbind (read_future W H idx u f path) (\<lambda>v. vret (VFuture v)) ([0] @ y) (w, c) = ((w', c'), Inr (v', y)) \<and>
      erase v' = erase (VFuture x)"
    by simp
qed

lemma receives_stream:
  assumes "wasm_tokio_values W"
  shows "receives idx (\<lambda>path. vbind (read_stream W H idx f t path) (\<lambda>v. vret (VStream v))) [0] [[]] (VStream x)"
proof (rule receivesI)
  fix path y and w :: "'s world" and c c'
  assume "index_all idx (map ((@) path) [[]]) c = Some c'"
  then have "index_all idx [path] c = Some c'" by simp
  then obtain i where 0: "index_at idx path y (w, c) = ((w, c'), Inr (i, y))" by (rule index_at_Some)
  obtain w1 e where 1: "with_store (on_store Other (h_new_stream H (Pending_Stream i t))) y (w, c') = ((w1, c'), Inr (e, y))"
    by (rule with_store_total [OF new_stream])
  from 0 1 have "read_stream W H idx f t path (0 # y) (w, c) = ((w1, c'), Inr (e, y))"
    using wasm_tokio_values.option_bytes(1) [OF assms, of y] by (simp add: read_stream_def vbind_def chain_def take_from_def)
  then show "\<exists>w' v'. vbind (read_stream W H idx f t path) (\<lambda>v. vret (VStream v)) ([0] @ y) (w, c) = ((w', c'), Inr (v', y)) \<and>
      erase v' = erase (VStream x)"
    by simp
qed

lemma sends_resource:
  assumes W: "wasm_tokio_values W" and agree: "is_input H0 R0 r = is_input H R r" "is_input H R r \<or> r \<notin> set (guest R)"
  shows "sends idx (encode_resource W H0 R0 x r) (read_resource W H idx R r) (VResource x)"
proof (rule sendsI)
  fix dst w w' dst' d
  assume e: "encode_resource W H0 R0 x r dst w = (w', Inr (dst', d))"
  show "\<exists>b. dst' = dst @ b \<and> receives idx (read_resource W H idx R r) b (positions d) (VResource x)"
  proof (cases "is_input H R r")
    case True
    then have "is_input H0 R0 r" using agree(1) by simp
    with e obtain reads where "stream_encode_read W Write_Input READ_CHUNK_SIZE (input_items reads) dst = Inr (dst', d)"
      by (auto simp: encode_resource_def is_input_def encode_input_def chain_eq_Inr split: if_splits)
    then obtain ready where "dst' = dst @ [1] @ leb_enc W 32 (length ready) @ ready \<and> length ready < 2 ^ 32 \<and> d = None \<or>
        dst' = dst @ [0] \<and> positions d = [[]]"
      by (auto simp: stream_encode_read_def encode_ready_bytes_def encode_ready_bytes_header_def and_then_eq_Inr split: if_splits)
    then show ?thesis using receives_memory [OF W _ True, of ready idx x] receives_piped [OF True, of idx W x] by auto
  next
    case False
    then have "\<not> is_input H0 R0 r" "r \<notin> set (guest R)" using agree by simp_all
    moreover from this(1) e obtain buf where "vec_enc W buf = Inr (drop (length dst) dst')" "dst' = dst @ drop (length dst) dst'" "d = None"
      by (fastforce simp: encode_resource_def is_input_def encode_handle_def chain_eq_Inr split: if_splits prod.splits)
    ultimately show ?thesis using vec_enc_Inr [OF W] receives_handle [OF W _ False] by (metis positions_simps(1))
  qed
qed

lemma sends_variant:
  assumes W: "wasm_tokio_values W" and "distinct (map fst cs)" and "length cs < 2 ^ 32" and "map_of cs c = Some u"
    and v: "rel_option (\<lambda>p u. p u) (map_option val_typed v) u"
    and IH: "\<And>v' u'. v = Some v' \<Longrightarrow> u = Some u' \<Longrightarrow> sends idx (val_encode W k H0 R0 v' u') (val_read W H idx R u') v'"
  shows "sends idx (val_encode W k H0 R0 (VVariant c v) (TVariant cs)) (val_read W H idx R (TVariant cs)) (VVariant c v)"
proof (rule sendsI)
  fix dst w w' dst' d
  assume e: "val_encode W k H0 R0 (VVariant c v) (TVariant cs) dst w = (w', Inr (dst', d))"
  obtain n where n: "disc_width (length cs) = Some n" using disc_width_small [OF assms(3)] by blast
  have "c \<in> set (map fst cs)" using assms(4) by (force dest: map_of_SomeD)
  then obtain i where i: "find_index 0 (map fst cs) c = Some i" by (metis find_index_None not_Some_eq)
  from find_index_map_of [OF i] find_index_Some [OF i] assms(4) have ci: "cs ! i = (c, u)" "i < length cs"
    by (auto simp: prod_eq_iff)
  have f: "find_discriminant k n Unknown_Variant 0 cs c = Inr (i, u)"
    using find_discriminant_found [OF i] disc_width_Some [OF n] ci by simp
  have leb: "leb_read W 32 (leb_enc W n i @ r) = Inr (i, r)" for r by (rule codes_leb [OF W n ci(2)])
  have skip: "\<exists>b. dst' = dst @ b \<and> receives idx (val_read W H idx R (TVariant cs)) b (positions d) (VVariant c v)"
    if "dst' = (dst @ leb_enc W n i) @ b" "receives idx (\<lambda>path. case u of
          Some t \<Rightarrow> vbind (val_read W H idx R t path) (\<lambda>v. vret (VVariant c (Some v)))
        | None \<Rightarrow> vret (VVariant c None)) b (positions d) (VVariant c v)" for b
  proof (intro exI [of _ "leb_enc W n i @ b"] conjI)
    show "receives idx (val_read W H idx R (TVariant cs)) (leb_enc W n i @ b) (positions d) (VVariant c v)"
      unfolding val_read.simps val_read_variant_def
      by (rule receives_skip [OF that(2) leb]) (use ci in \<open>auto split: option.split\<close>)
  qed (use that in simp)
  show "\<exists>b. dst' = dst @ b \<and> receives idx (val_read W H idx R (TVariant cs)) b (positions d) (VVariant c v)"
  proof (cases v)
    case None
    with v have "u = None" by (cases u) auto
    with e None n f have "dst' = (dst @ leb_enc W n i) @ []" "d = None" by (simp_all add: val_variant_def Let_def)
    then show ?thesis using None \<open>u = None\<close> by (intro skip [of "[]"]) (auto intro!: receives_plain)
  next
    case (Some v')
    with v obtain u' where u': "u = Some u'" by (cases u) auto
    with e Some n f have "val_encode W k H0 R0 v' u' (dst @ leb_enc W n i) w = (w', Inr (dst', d))"
      by (simp add: val_variant_def Let_def)
    from sendsE [OF IH [OF Some u'] this] obtain b where b: "dst' = (dst @ leb_enc W n i) @ b"
      "receives idx (val_read W H idx R u') b (positions d) v'" .
    from receives_map [OF b(2), of "\<lambda>v. VVariant c (Some v)" "VVariant c v"] Some
    have "receives idx (\<lambda>path. vbind (val_read W H idx R u' path) (\<lambda>v. vret (VVariant c (Some v)))) b (positions d) (VVariant c v)" by simp
    then show ?thesis by (intro skip [OF b(1)]) (simp add: u')
  qed
qed

lemma sends_option:
  assumes W: "wasm_tokio_values W"
    and IH: "\<And>v'. v = Some v' \<Longrightarrow> sends idx (val_encode W k H0 R0 v' u) (val_read W H idx R u) v'"
  shows "sends idx (val_encode W k H0 R0 (VOption v) (TOption u)) (val_read W H idx R (TOption u)) (VOption v)"
proof (rule sendsI)
  fix dst w w' dst' d
  assume e: "val_encode W k H0 R0 (VOption v) (TOption u) dst w = (w', Inr (dst', d))"
  show "\<exists>b. dst' = dst @ b \<and> receives idx (val_read W H idx R (TOption u)) b (positions d) (VOption v)"
  proof (cases v)
    case None
    with e have "dst' = dst @ [0] @ []" "d = None" by (simp_all add: val_option_def)
    moreover have "receives idx (val_read W H idx R (TOption u)) ([0] @ []) [] (VOption None)"
      unfolding val_read.simps val_read_option_def
      by (rule receives_skip [where f = "\<lambda>path. vret (VOption None)" and a = False])
        (auto simp: wasm_tokio_values.option_bytes [OF W] intro!: receives_plain)
    ultimately show ?thesis using None by auto
  next
    case (Some v')
    with e have "val_encode W k H0 R0 v' u (dst @ [1]) w = (w', Inr (dst', d))" by (simp add: val_option_def)
    from sendsE [OF IH [OF Some] this] obtain b where b: "dst' = (dst @ [1]) @ b" "receives idx (val_read W H idx R u) b (positions d) v'" .
    from receives_map [OF b(2), of "\<lambda>v. VOption (Some v)" "VOption v"] Some
    have "receives idx (\<lambda>path. vbind (val_read W H idx R u path) (\<lambda>v. vret (VOption (Some v)))) b (positions d) (VOption v)" by simp
    then have "receives idx (val_read W H idx R (TOption u)) ([1] @ b) (positions d) (VOption v)"
      unfolding val_read.simps val_read_option_def
      by (rule receives_skip [where a = True]) (auto simp: wasm_tokio_values.option_bytes [OF W])
    with b(1) show ?thesis by auto
  qed
qed

lemma sends_result:
  assumes W: "wasm_tokio_values W" and v: "rel_option (\<lambda>p u. p u) (map_option val_typed v) (if ok then x else y)"
    and IH: "\<And>v' u. v = Some v' \<Longrightarrow> (if ok then x else y) = Some u \<Longrightarrow> sends idx (val_encode W k H0 R0 v' u) (val_read W H idx R u) v'"
  shows "sends idx (val_encode W k H0 R0 (VResult ok v) (TResult x y)) (val_read W H idx R (TResult x y)) (VResult ok v)"
proof (rule sendsI)
  fix dst w w' dst' d
  let ?u = "if ok then x else y" and ?s = "[if ok then 0 else 1] :: bytes"
  assume "val_encode W k H0 R0 (VResult ok v) (TResult x y) dst w = (w', Inr (dst', d))"
  then have e: "val_result ok (map_option (val_encode W k H0 R0) v) ?u dst w = (w', Inr (dst', d))" by simp
  have skip: "\<exists>b. dst' = dst @ b \<and> receives idx (val_read W H idx R (TResult x y)) b (positions d) (VResult ok v)"
    if "dst' = (dst @ ?s) @ b" "receives idx (\<lambda>path. case map_option (val_read W H idx R) ?u of
          Some h \<Rightarrow> vbind (h path) (\<lambda>v. vret (VResult ok (Some v)))
        | None \<Rightarrow> vret (VResult ok None)) b (positions d) (VResult ok v)" for b
  proof (intro exI [of _ "?s @ b"] conjI)
    show "receives idx (val_read W H idx R (TResult x y)) (?s @ b) (positions d) (VResult ok v)"
      unfolding val_read.simps val_read_result_def
      by (rule receives_skip [where a = ok, OF that(2)]) (auto simp: wasm_tokio_values.result_bytes [OF W])
  qed (use that in simp)
  from e show "\<exists>b. dst' = dst @ b \<and> receives idx (val_read W H idx R (TResult x y)) b (positions d) (VResult ok v)"
  proof (cases rule: val_result_cases)
    case 1
    then show ?thesis by (intro skip [of "[]"]) (auto intro!: receives_plain)
  next
    case (2 e u)
    then obtain v' where v': "v = Some v'" "e = val_encode W k H0 R0 v'" by auto
    from sendsE [OF IH [OF v'(1) 2(2)] 2(3) [unfolded v'(2)]]
    obtain b where b: "dst' = (dst @ ?s) @ b" "receives idx (val_read W H idx R u) b (positions d) v'" .
    from receives_map [OF b(2), of "\<lambda>v. VResult ok (Some v)" "VResult ok v"] v'(1)
    have "receives idx (\<lambda>path. vbind (val_read W H idx R u path) (\<lambda>v. vret (VResult ok (Some v)))) b (positions d) (VResult ok v)" by simp
    then show ?thesis by (intro skip [OF b(1)]) (simp add: 2(2))
  qed
qed

lemma sends_list:
  assumes W: "wasm_tokio_values W" and n: "length vs < 2 ^ 32"
    and IH: "\<And>v. v \<in> set vs \<Longrightarrow> sends idx (val_encode W k H0 R0 v u) (val_read W H idx R u) v"
  shows "sends idx (val_encode W k H0 R0 (VList vs) (TList u)) (val_read W H idx R (TList u)) (VList vs)"
proof (rule sendsI)
  fix dst w w' dst' d
  let ?g = "\<lambda>path. vbind (vread_each (map (\<lambda>i. val_read W H idx R u (path @ [i])) [0..<length vs])) (\<lambda>us. vret (VList us))"
  assume "val_encode W k H0 R0 (VList vs) (TList u) dst w = (w', Inr (dst', d))"
  then have "encode_elements (map (\<lambda>v. val_encode W k H0 R0 v u) vs) (dst @ leb_enc W 32 (length vs)) w = (w', Inr (dst', d))"
    by (rule val_encode_list) simp
  moreover have "map (\<lambda>(i, f). f (path @ [i])) (enumerate 0 (replicate (length vs) (val_read W H idx R u))) =
      map (\<lambda>i. val_read W H idx R u (path @ [i])) [0..<length vs]" for path
    by (rule nth_equalityI) (simp_all add: nth_enumerate_eq)
  ultimately obtain b where b: "dst' = (dst @ leb_enc W 32 (length vs)) @ b" "receives idx ?g b (positions d) (VList vs)"
    using sends_elements [of "map (\<lambda>v. val_encode W k H0 R0 v u) vs" "replicate (length vs) (val_read W H idx R u)" vs idx
        "dst @ leb_enc W 32 (length vs)" w w' dst' d ?g VList "VList vs"] IH by auto
  have "receives idx (val_read W H idx R (TList u)) (leb_enc W 32 (length vs) @ b) (positions d) (VList vs)"
    unfolding val_read.simps val_read_list_def
    by (rule receives_skip [where a = "length vs", OF b(2)]) (use n in \<open>simp_all add: wasm_tokio_values.read_enc [OF W]\<close>)
  with b(1) show "\<exists>b. dst' = dst @ b \<and> receives idx (val_read W H idx R (TList u)) b (positions d) (VList vs)" by auto
qed

lemma sends_tuple:
  assumes n: "length vs = length ts"
    and IH: "\<And>i. i < length ts \<Longrightarrow> sends idx (val_encode W k H0 R0 (vs ! i) (ts ! i)) (val_read W H idx R (ts ! i)) (vs ! i)"
  shows "sends idx (val_encode W k H0 R0 (VTuple vs) (TTuple ts)) (val_read W H idx R (TTuple ts)) (VTuple vs)"
proof (rule sendsI)
  fix dst w w' dst' d
  assume "val_encode W k H0 R0 (VTuple vs) (TTuple ts) dst w = (w', Inr (dst', d))"
  then have "encode_elements (map (\<lambda>(v, u). val_encode W k H0 R0 v u) (zip vs ts)) dst w = (w', Inr (dst', d))"
    by (rule val_encode_tuple) simp
  then show "\<exists>b. dst' = dst @ b \<and> receives idx (val_read W H idx R (TTuple ts)) b (positions d) (VTuple vs)"
    by (rule sends_elements [where fs = "map (val_read W H idx R) ts" and vs = vs and C = VTuple, rotated 3])
      (use n IH in \<open>simp_all add: val_read_tuple_def\<close>)
qed

lemma sends_record:
  assumes n: "map fst fs = map fst ts"
    and IH: "\<And>i. i < length ts \<Longrightarrow> sends idx (val_encode W k H0 R0 (snd (fs ! i)) (snd (ts ! i))) (val_read W H idx R (snd (ts ! i))) (snd (fs ! i))"
  shows "sends idx (val_encode W k H0 R0 (VRecord fs) (TRecord ts)) (val_read W H idx R (TRecord ts)) (VRecord fs)"
proof (rule sendsI)
  fix dst w w' dst' d
  have l: "length fs = length ts" using n by (metis length_map)
  assume "val_encode W k H0 R0 (VRecord fs) (TRecord ts) dst w = (w', Inr (dst', d))"
  then have "encode_elements (map (\<lambda>(v, u). val_encode W k H0 R0 (snd v) (snd u)) (zip fs ts)) dst w = (w', Inr (dst', d))"
    by (rule val_encode_record) simp
  moreover have "map (\<lambda>(i, (name, f)). f (path @ [i])) (enumerate 0 (map (map_prod id (val_read W H idx R)) ts)) =
      map (\<lambda>(i, f). f (path @ [i])) (enumerate 0 (map (\<lambda>t. val_read W H idx R (snd t)) ts))" for path
    by (rule nth_equalityI) (simp_all add: nth_enumerate_eq case_prod_beta)
  moreover have "erase (VRecord (zip (map fst ts) us)) = erase (VRecord fs)" if "map erase us = map erase (map snd fs)" for us
  proof -
    have "map (map_prod id erase) (zip (map fst ts) us) = zip (map fst ts) (map erase us)" by (simp add: zip_map2 map_prod_def)
    also have "\<dots> = map (map_prod id erase) fs" unfolding that n [symmetric] by (simp add: zip_map_map map_prod_def zip_same_conv_map case_prod_beta)
    finally show ?thesis by simp
  qed
  ultimately show "\<exists>b. dst' = dst @ b \<and> receives idx (val_read W H idx R (TRecord ts)) b (positions d) (VRecord fs)"
    using l IH by (intro sends_elements [where es = "map (\<lambda>(v, u). val_encode W k H0 R0 (snd v) (snd u)) (zip fs ts)"
        and fs = "map (\<lambda>t. val_read W H idx R (snd t)) ts" and vs = "map snd fs" and C = "\<lambda>us. VRecord (zip (map fst ts) us)"])
      (simp_all add: val_read_record_def comp_def)
qed

lemma val_sends:
  assumes W: "wasm_tokio_values W"
  shows "val_typed v t \<Longrightarrow> resources_agree H0 R0 H R t \<Longrightarrow> sends idx (val_encode W k H0 R0 v t) (val_read W H idx R t) v"
proof (induction v arbitrary: t)
  case (VList vs)
  then obtain u where t: "t = TList u" "length vs < 2 ^ 32" "\<And>v. v \<in> set vs \<Longrightarrow> val_typed v u"
    by (auto simp: list_all_iff split: option.splits)
  show ?case unfolding t(1)
    by (rule sends_list [OF W t(2)]) (use VList.IH t(3) resources_agree_parts(1) [OF VList.prems(2) [unfolded t(1)]] in blast)
next
  case (VRecord fs)
  then obtain ts where t: "t = TRecord ts"
    and ts: "list_all2 (\<lambda>(n, p) (m, u). n = m \<and> p u) (map (map_prod id val_typed) fs) ts"
    by (auto split: option.splits)
  from ts have l: "length fs = length ts" by (auto dest: list_all2_lengthD)
  have nth: "fst (fs ! i) = fst (ts ! i) \<and> val_typed (snd (fs ! i)) (snd (ts ! i))" if "i < length ts" for i
    using list_all2_nthD2 [OF ts that] that l by (simp add: case_prod_beta)
  show ?case unfolding t
  proof (rule sends_record)
    show "map fst fs = map fst ts" using l nth by (intro nth_equalityI) simp_all
    fix i assume i: "i < length ts"
    then have "fs ! i \<in> set fs" "snd (fs ! i) \<in> Basic_BNFs.snds (fs ! i)" using l by (simp_all add: snds.simps prod_eq_iff)
    from VRecord.IH [OF this conjunct2 [OF nth [OF i]] resources_agree_parts(4) [OF VRecord.prems(2) [unfolded t] i]]
    show "sends idx (val_encode W k H0 R0 (snd (fs ! i)) (snd (ts ! i))) (val_read W H idx R (snd (ts ! i))) (snd (fs ! i))" .
  qed
next
  case (VTuple vs)
  then obtain ts where t: "t = TTuple ts" and ts: "list_all2 (\<lambda>p u. p u) (map val_typed vs) ts"
    by (auto split: option.splits)
  from ts have l: "length vs = length ts" by (auto dest: list_all2_lengthD)
  show ?case unfolding t
  proof (rule sends_tuple [OF l])
    fix i assume i: "i < length ts"
    with l have "vs ! i \<in> set vs" "val_typed (vs ! i) (ts ! i)" using list_all2_nthD2 [OF ts i] by simp_all
    from VTuple.IH [OF this resources_agree_parts(3) [OF VTuple.prems(2) [unfolded t] i]]
    show "sends idx (val_encode W k H0 R0 (vs ! i) (ts ! i)) (val_read W H idx R (ts ! i)) (vs ! i)" .
  qed
next
  case (VVariant c v)
  then obtain cs u where t: "t = TVariant cs" and cs: "distinct (map fst cs)" "length cs < 2 ^ 32" "map_of cs c = Some u"
    and v: "rel_option (\<lambda>p u. p u) (map_option val_typed v) u"
    by (auto split: option.splits)
  show ?case unfolding t
  proof (rule sends_variant [OF W cs v])
    fix v' u' assume v': "v = Some v'" "u = Some u'"
    then have mem: "(c, Some u') \<in> set cs" using cs(3) by (simp add: map_of_SomeD)
    from VVariant.IH [OF _ _ resources_agree_parts(5) [OF VVariant.prems(2) [unfolded t] mem]] v v'
    show "sends idx (val_encode W k H0 R0 v' u') (val_read W H idx R u') v'" by simp
  qed
next
  case (VOption v)
  then obtain u where t: "t = TOption u" by (auto split: option.splits)
  show ?case unfolding t
  proof (rule sends_option [OF W])
    fix v' assume "v = Some v'"
    with VOption.IH [OF _ _ resources_agree_parts(2) [OF VOption.prems(2) [unfolded t]]] VOption.prems(1)
    show "sends idx (val_encode W k H0 R0 v' u) (val_read W H idx R u) v'" by (simp add: t)
  qed
next
  case (VResult ok v)
  then obtain x y where t: "t = TResult x y" by (auto split: option.splits)
  with VResult.prems(1) have v: "rel_option (\<lambda>p u. p u) (map_option val_typed v) (if ok then x else y)" by simp
  show ?case unfolding t
  proof (rule sends_result [OF W v])
    fix v' u assume v': "v = Some v'" "(if ok then x else y) = Some u"
    then have "x = Some u \<or> y = Some u" by (simp split: if_splits)
    from VResult.IH [OF _ _ resources_agree_parts(6) [OF VResult.prems(2) [unfolded t] this]] v v'
    show "sends idx (val_encode W k H0 R0 v' u) (val_read W H idx R u) v'" by simp
  qed
next
  case (VResource x)
  then obtain r where t: "t = TOwn r \<or> t = TBorrow r" by (cases t) auto
  with VResource.prems(2) have "is_input H0 R0 r = is_input H R r" "is_input H R r \<or> r \<notin> set (guest R)"
    by (auto simp: resources_agree_def)
  from sends_resource [OF W this, of idx x] t show ?case by auto
next
  case (VFuture x)
  then obtain u where t: "t = TFuture u" "with_payload u" by (cases t) auto
  with receives_future [OF W, of idx u "map_option (val_read W H idx R) u" x] show ?case
    by (auto simp: encode_val_future_def encode_future_def chain_eq_Inr intro!: sendsI)
next
  case (VStream x)
  then obtain u where t: "t = TStream (Some u)" "payload u" by (cases t) (auto split: option.splits)
  with receives_stream [OF W, of idx "val_read W H idx R u" u x] show ?case
    by (auto simp: encode_val_stream_def encode_stream_def chain_eq_Inr intro!: sendsI)
qed (simp_all only: val_typed.simps sends_plain [OF W])

end

text \<open>
  Exchange of values (claim C8). What the encoder of one component appended for a value of a type, the reader of another
  component reads as the same value with handles of its own store, leaving what follows. It indexes the connection at the positions
  of the deferred operations of the sender, in their order, and nowhere else: the state of the connection afterwards is that after indexing
  them. Assumed is that the two agree on which resources are sent as streams, and that the receiver takes handles only for
  resources that are not its own.
\<close>

theorem val_exchange:
  assumes "wasm_tokio_values W" and "receiving_host H'" and "val_typed v t" and "resources_agree H R H' R' t"
    and "val_encode W k H R v t dst w = (w', Inr (dst', d))" and "index_all idx (map ((@) path) (positions d)) c = Some c'"
  shows "\<exists>b. dst' = dst @ b \<and>
    (\<forall>r x. \<exists>x' v'. val_read W H' idx R' t path (b @ r) (x, c) = ((x', c'), Inr (v', r)) \<and> erase v' = erase v)"
proof -
  from sendsE [OF receiving_host.val_sends [OF assms(2,1,3,4)] assms(5)] obtain b where
    b: "dst' = dst @ b" "receives idx (val_read W H' idx R' t) b (positions d) v" .
  from receivesE [OF b(2) assms(6)]
  have "\<exists>x' v'. val_read W H' idx R' t path (b @ r) (x, c) = ((x', c'), Inr (v', r)) \<and> erase v' = erase v" for r x by metis
  with b(1) show ?thesis by blast
qed

definition log_index :: "path list index" where
  "log_index p c = (c @ [p], Inr (length c))"

theorem val_exchange_witness:
  "\<exists>b. [1, 9, 0] = [] @ b \<and>
    (\<forall>r x. \<exists>x' v'. val_read wasm_ref ref_host log_index no_resources (TTuple [TList TU8, TFuture (Some TU8)]) [4] (b @ r) (x, []) =
      ((x', [[4, 1]]), Inr (v', r)) \<and> erase v' = erase (VTuple [VList [VU8 9], VFuture 7]))"
proof (rule val_exchange [OF ref.wasm_tokio_values_axioms ref_store.receiving_host_axioms])
  show "val_typed (VTuple [VList [VU8 9], VFuture 7]) (TTuple [TList TU8, TFuture (Some TU8)])"
    by (simp add: with_payload_def payload_def)
  show "resources_agree ref_host no_resources ref_host no_resources (TTuple [TList TU8, TFuture (Some TU8)])"
    by (simp add: resources_agree_def)
  show "val_encode wasm_ref True ref_host no_resources (VTuple [VList [VU8 9], VFuture 7]) (TTuple [TList TU8, TFuture (Some TU8)]) [] no_world =
      (no_world, Inr ([1, 9, 0], Some (At [None, Some (Here (Write_Future 2 7 (Some TU8)))])))"
    by (simp add: val_tuple_def val_list_def encode_elements_def encode_val_future_def encode_future_def with_payload_def payload_def
        put_def on_store_def collect_def chain_def uleb.simps as_u8_def no_world_def)
  show "index_all log_index (map ((@) [4]) (positions (Some (At [None, Some (Here (Write_Future 2 7 (Some TU8)))])))) [] = Some [[4, 1]]"
    by (simp add: positions_def located_def log_index_def)
qed

section \<open>Resources\<close>

lemma encode_handle_16:
  assumes "wasm_tokio_values W" and "length u = 16"
  shows "encode_handle W u dst w = (w, Inr (dst @ leb_enc W 32 16 @ u, None))"
  using wasm_tokio_values.vec_enc_small [OF assms(1), of u] assms(2) by (simp add: encode_handle_def)

lemma read_handle_16:
  assumes "wasm_tokio_values W"
  shows "leb_read W 8 (leb_enc W 32 16 @ r) = Inr (16, r)"
proof -
  have "leb_enc W 32 16 = leb_enc W 8 16" by (rule wasm_tokio_values.enc_width [OF assms]) simp_all
  then show ?thesis by (simp add: wasm_tokio_values.read_enc [OF assms])
qed

context remote_table
begin

lemma handle_returns:
  assumes W: "wasm_tokio_values W" and r: "\<not> is_input H R r" "r \<notin> set (guest R)" and u: "length u < 2 ^ 32"
  shows "\<exists>w' z. val_read W H idx R (TOwn r) path ((leb_enc W 32 (length u) @ u) @ y) (w, c) = ((w', c), Inr (VResource z, y)) \<and>
    (\<forall>dst. \<exists>w''. val_encode W k H R (VResource z) (TOwn r) dst w' = (w'', Inr (dst @ leb_enc W 32 (length u) @ u, None)))"
proof -
  from push_remote obtain s1 e where 1: "h_push_remote H u (w_store w) = (s1, Inr e)" by blast
  from any_remote obtain s2 z where 2: "h_any_remote H e s1 = (s2, Inr z)" by blast
  from pushed_owned [OF 1 2] obtain s3 s4 where 3: "h_as_remote H z s2 = (s3, Inr (e, True))" "h_delete_remote H e s3 = (s4, Inr u)"
    by blast
  from pushed_type [OF 1 2] have ty: "h_type H z = h_remote_type H" .
  let ?w = "w\<lparr>w_store := s2\<rparr>"
  have "val_read W H idx R (TOwn r) path ((leb_enc W 32 (length u) @ u) @ y) (w, c) = ((?w, c), Inr (VResource z, y))"
    using r 1 2 read_bytes_enc [OF W u, of y]
    by (simp add: read_resource_def is_input_def with_store_def on_store_def vbind_def chain_def take_from_def)
  moreover have "val_encode W k H R (VResource z) (TOwn r) dst ?w =
      (?w\<lparr>w_store := s4\<rparr>, Inr (dst @ leb_enc W 32 (length u) @ u, None))" for dst
    using r(1) ty 3 wasm_tokio_values.vec_enc_small [OF W u]
    by (simp add: encode_resource_def is_input_def on_store_def encode_handle_def chain_def)
  ultimately show ?thesis by blast
qed

end

text \<open>
  Resources of a guest (claim C18). Encoding one shares it under a new UUID and appends the UUID as a handle. A component that reads the
  handle has a resource that it encodes as the same bytes. Reading these where the resource is shared gives the
  resource itself.
\<close>

theorem resource_roundtrip:
  assumes "wasm_tokio_values W" and "remote_table A" and "remote_table B"
    and "r \<in> set (guest R)" and "\<not> is_input A R r" and "h_type A x \<noteq> h_remote_type A"
    and "\<not> is_input B R' r" and "r \<notin> set (guest R')"
  shows "\<exists>u b w'. val_encode W k A R (VResource x) (TOwn r) dst w = (w', Inr (dst @ b, None)) \<and>
    w_shared w' = (w_shared w)(u \<mapsto> x) \<and>
    (\<forall>(idx :: 'c index) path y v c. \<exists>v' z. val_read W B idx R' (TOwn r) path (b @ y) (v, c) = ((v', c), Inr (VResource z, y)) \<and>
      (\<forall>dst. \<exists>v''. val_encode W k B R' (VResource z) (TOwn r) dst v' = (v'', Inr (dst @ b, None)))) \<and>
    (\<forall>(idx :: 'c index) path y v c. w_shared v u = Some x \<longrightarrow>
      val_read W A idx R (TOwn r) path (b @ y) (v, c) = ((v, c), Inr (VResource x, y)))"
proof -
  obtain s u where u: "h_uuid A (w_store w) = (s, u)" by (cases "h_uuid A (w_store w)")
  with remote_table.uuid_length [OF assms(2), of "w_store w"] have l: "length u = 16" by simp
  let ?b = "leb_enc W 32 16 @ u" and ?w = "w\<lparr>w_store := s, w_shared := (w_shared w)(u \<mapsto> x)\<rparr>"
  have "val_encode W k A R (VResource x) (TOwn r) dst w = (?w, Inr (dst @ ?b, None))"
    using assms(4-6) u by (simp add: encode_resource_def is_input_def new_uuid_def share_def chain_def encode_handle_16 [OF assms(1) l])
  moreover have "\<exists>v' z. val_read W B idx R' (TOwn r) path (?b @ y) (v, c) = ((v', c), Inr (VResource z, y)) \<and>
      (\<forall>dst. \<exists>v''. val_encode W k B R' (VResource z) (TOwn r) dst v' = (v'', Inr (dst @ ?b, None)))"
    for idx :: "'c index" and path y v c
    using remote_table.handle_returns [OF assms(3,1,7,8), of u idx path y v c k] l by simp
  moreover have "val_read W A idx R (TOwn r) path (?b @ y) (v, c) = ((v, c), Inr (VResource x, y))" if "w_shared v u = Some x"
    for idx :: "'c index" and path y v c
    using assms(4,5) that read_handle_16 [OF assms(1), of "u @ y"] l
    by (simp add: read_resource_def is_input_def vbind_def chain_def take_from_def with_store_def lookup_shared_def)
  ultimately show ?thesis by - (rule exI [of _ u], rule exI [of _ ?b], rule exI [of _ ?w], simp)
qed

theorem resource_roundtrip_witness:
  "\<exists>b w'. val_encode wasm_ref True ref_host \<lparr>guest = [2], io_streams = []\<rparr> (VResource 5) (TOwn 2) [] no_world = (w', Inr (b, None)) \<and>
    (\<exists>v' z. val_read wasm_ref ref_host no_index no_resources (TOwn 2) [0] b (no_world, ()) = ((v', ()), Inr (VResource z, [])) \<and>
      (\<exists>v''. val_encode wasm_ref True ref_host no_resources (VResource z) (TOwn 2) [] v' = (v'', Inr (b, None)))) \<and>
    val_read wasm_ref ref_host no_index \<lparr>guest = [2], io_streams = []\<rparr> (TOwn 2) [0] b (w', ()) = ((w', ()), Inr (VResource 5, []))"
proof -
  let ?R = "\<lparr>guest = [2], io_streams = []\<rparr>"
  have r: "2 \<in> set (guest ?R)" "\<not> is_input ref_host ?R 2" "h_type ref_host 5 \<noteq> h_remote_type ref_host"
    "\<not> is_input ref_host no_resources 2" "2 \<notin> set (guest no_resources)"
    by (simp_all add: is_input_def no_resources_def)
  from resource_roundtrip [OF ref.wasm_tokio_values_axioms ref_store.remote_table_axioms ref_store.remote_table_axioms r,
      where 'c = unit and k = True and dst = "[]" and w = no_world]
  obtain u b w' where e: "val_encode wasm_ref True ref_host ?R (VResource 5) (TOwn 2) [] no_world = (w', Inr ([] @ b, None))"
    and s: "w_shared w' = (w_shared no_world)(u \<mapsto> 5)"
    and h: "\<And>(idx :: unit index) path y v c. \<exists>v' z. val_read wasm_ref ref_host idx no_resources (TOwn 2) path (b @ y) (v, c) = ((v', c), Inr (VResource z, y)) \<and>
      (\<forall>dst. \<exists>v''. val_encode wasm_ref True ref_host no_resources (VResource z) (TOwn 2) dst v' = (v'', Inr (dst @ b, None)))"
    and g: "\<And>(idx :: unit index) path y v c. w_shared v u = Some 5 \<Longrightarrow>
      val_read wasm_ref ref_host idx ?R (TOwn 2) path (b @ y) (v, c) = ((v, c), Inr (VResource 5, y))"
    by blast
  from h [of no_index "[0]" "[]" no_world "()"] obtain v' z where
    "val_read wasm_ref ref_host no_index no_resources (TOwn 2) [0] (b @ []) (no_world, ()) = ((v', ()), Inr (VResource z, []))"
    "\<forall>dst. \<exists>v''. val_encode wasm_ref True ref_host no_resources (VResource z) (TOwn 2) dst v' = (v'', Inr (dst @ b, None))"
    by blast
  moreover from this(2) [THEN spec, of "[]"] obtain v'' where
    "val_encode wasm_ref True ref_host no_resources (VResource z) (TOwn 2) [] v' = (v'', Inr ([] @ b, None))" by blast
  moreover have "val_read wasm_ref ref_host no_index ?R (TOwn 2) [0] (b @ []) (w', ()) = ((w', ()), Inr (VResource 5, []))"
    by (rule g) (simp add: s)
  ultimately show ?thesis using e unfolding append_Nil append_Nil2 by blast
qed

end
