(* ===== verification/Calls.thy ===== *)
theory Calls
  imports Val_Exchange Conn
begin

text \<open>
  Functions of components that are called over a connection: the import of one component is the export of another.

  \<^item> \<open>invoke\<close> and \<open>call\<close> of \<open>crates/wasmtime/src/polyfill.rs\<close>: the import. The parameters are encoded, the function is invoked by the transport, the
    results are read.
  \<^item> \<open>call\<close> of \<open>crates/wasmtime/src/lib.rs\<close>: the export. The parameters are read, the function is run, the results are encoded and
    transmitted; \<open>rpc_result_type\<close> says whether the error of the result is that of the invocation itself.
  \<^item> \<open>write_deferred\<close>: the deferred operations, each on the sub-stream at its position.

  The store and the function are arguments, and so is the table of RPC errors. A run of the import and the export is put together by the
  theorem on them; the bytes between them are the subject of \<open>Multiplex\<close>.
\<close>

section \<open>Names and types\<close>

definition strip_prefix :: "string \<Rightarrow> string \<Rightarrow> string option" where
  "strip_prefix p s = (if take (length p) s = p then Some (drop (length p) s) else None)"

definition rpc_func_name :: "string \<Rightarrow> string" where
  "rpc_func_name name =
    (case strip_prefix ''[constructor]'' name of
       Some name \<Rightarrow> name
     | None \<Rightarrow>
         (case strip_prefix ''[static]'' name of
            Some name \<Rightarrow> name
          | None \<Rightarrow> (case strip_prefix ''[method]'' name of Some name \<Rightarrow> name | None \<Rightarrow> name)))"

type_synonym host_resources = "string \<rightharpoonup> string \<rightharpoonup> resource_type \<times> resource_type"

text \<open>The table of RPC errors: the host type of the resource, and the operations of the store on it.\<close>

record ('s, 'e) rpc_errors =
  re_type :: resource_type
  re_as :: "nat \<Rightarrow> ('s, unit, nat) exec"
  re_delete :: "nat \<Rightarrow> ('s, unit, 'e) exec"
  re_push :: "'e \<Rightarrow> ('s, unit, nat) exec"
  re_any :: "nat \<Rightarrow> ('s, unit, nat) exec"

definition rpc_result_type :: "('s, 'e) rpc_errors \<Rightarrow> host_resources \<Rightarrow> ty list \<Rightarrow> ty option option" where
  "rpc_result_type E host_resources results_ty =
    (let rpc_err_ty = Option.bind (host_resources ''wrpc:rpc/error@0.2.0'') (\<lambda>instance. instance ''error'') in
     case (rpc_err_ty, results_ty) of
       (Some (guest_rpc_err_ty, host_rpc_err_ty), [TResult ok err]) \<Rightarrow>
         if host_rpc_err_ty = re_type E \<and> err = Some (TOwn guest_rpc_err_ty) then Some ok else None
     | _ \<Rightarrow> None)"

section \<open>Values of a signature\<close>

text \<open>The loops over the values of a parameter or result list.\<close>

definition encode_values ::
  "wasm_tokio \<Rightarrow> bool \<Rightarrow> 's host \<Rightarrow> resource_types \<Rightarrow> val list \<Rightarrow> ty list \<Rightarrow> bytes \<Rightarrow>
   ('s world, val_error, bytes \<times> leaf deferred option list) exec" where
  "encode_values W checked H R vs tys = encode_each (map (\<lambda>(v, t). val_encode W checked H R v t) (zip vs tys))"

definition read_values :: "wasm_tokio \<Rightarrow> 's host \<Rightarrow> 'c index \<Rightarrow> resource_types \<Rightarrow> ty list \<Rightarrow> ('s, 'c, val list) reading" where
  "read_values W H idx R tys = vread_each (map (\<lambda>(i, t). val_read W H idx R t [i]) (enumerate 0 tys))"

section \<open>The export\<close>

datatype 'e call_error =
    Decode io_error | Encode val_error | Table | Call | Type_Mismatch | Write io_error | Flush io_error | Deferred io_error |
    Post_Return | Guest 'e

definition map_error :: "('x \<Rightarrow> 'e) \<Rightarrow> ('s, 'x, 'a) exec \<Rightarrow> ('s, 'e, 'a) exec" where
  "map_error g m s = (case m s of (s, Inl x) \<Rightarrow> (s, Inl (g x)) | (s, Inr a) \<Rightarrow> (s, Inr a))"

definition encode_results ::
  "wasm_tokio \<Rightarrow> bool \<Rightarrow> 's host \<Rightarrow> resource_types \<Rightarrow> ('s, 'e) rpc_errors \<Rightarrow> ty option option \<Rightarrow> val list \<Rightarrow> ty list \<Rightarrow>
   ('s world, 'e call_error, bytes \<times> leaf deferred option list) exec" where
  "encode_results W checked H R E rpc results results_ty =
    (case (rpc, results) of
       (None, results) \<Rightarrow> map_error Encode (encode_values W checked H R results results_ty [])
     | (Some None, [VResult True None]) \<Rightarrow> yield ([], [])
     | (Some (Some ty), [VResult True (Some v)]) \<Rightarrow>
         chain (map_error Encode (val_encode W checked H R v ty [])) (\<lambda>(buf, d). yield (buf, [d]))
     | (Some _, [VResult False (Some (VResource err))]) \<Rightarrow>
         chain (on_store Type_Mismatch (re_as E err)) (\<lambda>e. chain (on_store Table (re_delete E e)) (\<lambda>e. raise (Guest e)))
     | (Some _, _) \<Rightarrow> raise Type_Mismatch)"

definition call ::
  "wasm_tokio \<Rightarrow> bool \<Rightarrow> 's host \<Rightarrow> 'c index \<Rightarrow> resource_types \<Rightarrow> ('s, 'e) rpc_errors \<Rightarrow> host_resources \<Rightarrow> ty list \<Rightarrow> ty list \<Rightarrow>
   (val list \<Rightarrow> ('s world, unit, val list) exec) \<Rightarrow> bytes \<Rightarrow>
   ('s world \<times> 'c, 'e call_error, bytes \<times> leaf deferred option list) exec" where
  "call W checked H idx R E host_resources params_ty results_ty func input s =
    (case read_values W H idx R params_ty input s of
       (s, Inl e) \<Rightarrow> (s, Inl (Decode e))
     | (s, Inr (params, _)) \<Rightarrow>
         (case func params (fst s) of
            (w, Inl _) \<Rightarrow> ((w, snd s), Inl Call)
          | (w, Inr results) \<Rightarrow>
              (case encode_results W checked H R E (rpc_result_type E host_resources results_ty) results results_ty w of
                 (w, r) \<Rightarrow> ((w, snd s), r))))"

text \<open>
  The results on the outgoing stream, and the deferred operations: \<open>zip(0.., deferred)\<close> with \<open>tx.index(&[i])\<close>, here and in \<open>write_deferred\<close>, which
  runs the operations of a compound value.
\<close>

definition transmit :: "outgoing \<Rightarrow> bytes \<Rightarrow> egress_queue \<Rightarrow> egress_queue \<times> ('e call_error + unit)" where
  "transmit w buf q = (case write_bytes w buf q of (q, Inl e) \<Rightarrow> (q, Inl (Write e)) | (q, Inr _) \<Rightarrow> (q, Inr ()))"

definition index_each :: "wasm_tokio \<Rightarrow> outgoing \<Rightarrow> 'a option list \<Rightarrow> ((io_error + outgoing) \<times> 'a) list" where
  "index_each W w ds = map (\<lambda>(i, d). (outgoing_index W w [i], the d)) (filter (\<lambda>(i, d). d \<noteq> None) (enumerate 0 ds))"

primrec run_deferred :: "wasm_tokio \<Rightarrow> 'l deferred \<Rightarrow> io_error + outgoing \<Rightarrow> (io_error + outgoing \<times> 'l) list" where
  "run_deferred W (Here l) = (\<lambda>w. [and_then w (\<lambda>w. Inr (w, l))])"
| "run_deferred W (At ds) =
    (\<lambda>w. case w of
       Inl e \<Rightarrow> [Inl e]
     | Inr w \<Rightarrow> concat (map (\<lambda>(w, f). f w) (index_each W w (map (map_option (run_deferred W)) ds))))"

definition run_each :: "wasm_tokio \<Rightarrow> outgoing \<Rightarrow> 'l deferred option list \<Rightarrow> (io_error + outgoing \<times> 'l) list" where
  "run_each W w deferred = concat (map (\<lambda>(w, f). run_deferred W f w) (index_each W w deferred))"

section \<open>The import\<close>

text \<open>
  \<open>invoke\<close>: \<open>net\<close> is the transport, which gives the bytes of the incoming stream for the name, the parameters, their deferred operations and the
  paths of the results, or an
  error of invoking the function or of transmitting the operations. The result is an error of the store, or what the invocation gave.
  \<open>polyfill_call\<close> turns an error of the invocation into a resource if the result has a place for it.
\<close>

datatype 'n invoke_error = Invoke 'n | Receive io_error

datatype import_error = Param_Encode val_error | Result_Count | Push_Error | Lower_Error | Invoke_Failed

definition on_world :: "('s world, 'e, 'a) exec \<Rightarrow> ('s world \<times> 'c, 'e, 'a) exec" where
  "on_world f s = (case f (fst s) of (w, r) \<Rightarrow> ((w, snd s), r))"

definition invoke ::
  "wasm_tokio \<Rightarrow> bool \<Rightarrow> 's host \<Rightarrow> 'c index \<Rightarrow> resource_types \<Rightarrow> val list \<Rightarrow> ty list \<Rightarrow>
   (string \<Rightarrow> bytes \<Rightarrow> leaf deferred option list \<Rightarrow> pattern list \<Rightarrow> 'n + bytes) \<Rightarrow> string \<Rightarrow> ty list \<Rightarrow>
   ('s world \<times> 'c, import_error, 'n invoke_error + val list) exec" where
  "invoke W checked H idx R params params_ty net name results_ty =
    chain (on_world (map_error Param_Encode (encode_values W checked H R params params_ty []))) (\<lambda>(buf, deferred).
      case net (rpc_func_name name) buf deferred (params_async_paths (io_streams R) results_ty) of
        Inl err \<Rightarrow> yield (Inl (Invoke err))
      | Inr incoming \<Rightarrow>
          (\<lambda>s. case read_values W H idx R results_ty incoming s of
             (s, Inl e) \<Rightarrow> (s, Inr (Inl (Receive e)))
           | (s, Inr (results, _)) \<Rightarrow> (s, Inr (Inr results))))"

definition polyfill_call ::
  "('s, 'i) rpc_errors \<Rightarrow> ty option option \<Rightarrow> ty list \<Rightarrow> (ty list \<Rightarrow> ('s world \<times> 'c, import_error, 'i + val list) exec) \<Rightarrow>
   ('s world \<times> 'c, import_error, val list) exec" where
  "polyfill_call E result_ty results_ty send =
    (case result_ty of
       None \<Rightarrow> chain (send results_ty) (\<lambda>r. case r of Inl _ \<Rightarrow> raise Invoke_Failed | Inr vs \<Rightarrow> yield vs)
     | Some u \<Rightarrow>
         if length results_ty \<noteq> 1 then raise Result_Count
         else
           chain (send (case u of None \<Rightarrow> [] | Some t \<Rightarrow> [t])) (\<lambda>r.
             case r of
               Inr vs \<Rightarrow> yield [VResult True (case u of None \<Rightarrow> None | Some _ \<Rightarrow> Some (hd vs))]
             | Inl err \<Rightarrow>
                 chain (on_world (on_store Push_Error (re_push E err))) (\<lambda>e.
                   chain (on_world (on_store Lower_Error (re_any E e))) (\<lambda>e. yield [VResult False (Some (VResource e))]))))"

section \<open>Deferred operations\<close>

lemma outgoing_index_path: "outgoing_index W w [i] = Inr w' \<Longrightarrow> o_path w' = o_path w @ [i]"
  by (auto simp: outgoing_index_def Let_def and_then_eq_Inr)

lemma run_deferred_Inl: "run_deferred W d (Inl e) = [Inl e]"
  by (cases d) simp_all

definition located_at :: "io_error + outgoing \<times> 'l \<Rightarrow> (path \<times> 'l) option" where
  "located_at r = (case r of Inl _ \<Rightarrow> None | Inr (w, l) \<Rightarrow> Some (o_path w, l))"

lemma run_deferred_each:
  assumes IH: "\<And>d w. Some d \<in> set ds \<Longrightarrow> \<forall>r \<in> set (run_deferred W d (Inr w)). located_at r \<noteq> None \<Longrightarrow>
      map located_at (run_deferred W d (Inr w)) = map (\<lambda>(p, l). Some (o_path w @ p, l)) (locate d)"
    and ok: "\<forall>r \<in> set (concat (map (\<lambda>(i, d). case d of None \<Rightarrow> [] | Some f \<Rightarrow> f (outgoing_index W w [i]))
      (enumerate m (map (map_option (run_deferred W)) ds)))). located_at r \<noteq> None"
  shows "map located_at (concat (map (\<lambda>(i, d). case d of None \<Rightarrow> [] | Some f \<Rightarrow> f (outgoing_index W w [i]))
      (enumerate m (map (map_option (run_deferred W)) ds)))) =
    map (\<lambda>(p, l). Some (o_path w @ p, l)) (concat (map (\<lambda>(i, d). case d of None \<Rightarrow> [] | Some ls \<Rightarrow> map (\<lambda>(p, l). (i # p, l)) ls)
      (enumerate m (map (map_option locate) ds))))"
  using assms
proof (induction ds arbitrary: m)
  case (Cons d ds)
  have rest: "map located_at (concat (map (\<lambda>(i, d). case d of None \<Rightarrow> [] | Some f \<Rightarrow> f (outgoing_index W w [i]))
      (enumerate (Suc m) (map (map_option (run_deferred W)) ds)))) =
    map (\<lambda>(p, l). Some (o_path w @ p, l)) (concat (map (\<lambda>(i, d). case d of None \<Rightarrow> [] | Some ls \<Rightarrow> map (\<lambda>(p, l). (i # p, l)) ls)
      (enumerate (Suc m) (map (map_option locate) ds))))"
    by (rule Cons.IH) (use Cons.prems in simp_all)
  show ?case
  proof (cases d)
    case None
    with rest show ?thesis by simp
  next
    case (Some f)
    with Cons.prems(2) have ok: "\<forall>r \<in> set (run_deferred W f (outgoing_index W w [m])). located_at r \<noteq> None" by simp
    then obtain w' where w': "outgoing_index W w [m] = Inr w'"
      by (cases "outgoing_index W w [m]") (auto simp: run_deferred_Inl located_at_def)
    from Cons.prems(1) [of f w'] Some ok w'
    have "map located_at (run_deferred W f (Inr w')) = map (\<lambda>(p, l). Some (o_path w' @ p, l)) (locate f)" by simp
    with rest Some w' outgoing_index_path [OF w'] show ?thesis by (simp, auto)
  qed
qed simp

lemma index_each_concat:
  "concat (map (\<lambda>(w, f). f w) (index_each W w ds)) =
    concat (map (\<lambda>(i, d). case d of None \<Rightarrow> [] | Some f \<Rightarrow> f (outgoing_index W w [i])) (enumerate 0 ds))"
proof -
  have "concat (map (\<lambda>(w, f). f w) (map (\<lambda>(i, d). (outgoing_index W w [i], the d)) (filter (\<lambda>(i, d). d \<noteq> None) (enumerate m ds)))) =
    concat (map (\<lambda>(i, d). case d of None \<Rightarrow> [] | Some f \<Rightarrow> f (outgoing_index W w [i])) (enumerate m ds))" for m
    by (induction ds arbitrary: m) (auto split: option.split)
  then show ?thesis by (simp add: index_each_def)
qed

text \<open>Without errors, every operation runs on the outgoing stream at its position.\<close>

lemma run_deferred_located:
  "\<forall>r \<in> set (run_deferred W d (Inr w)). located_at r \<noteq> None \<Longrightarrow>
   map located_at (run_deferred W d (Inr w)) = map (\<lambda>(p, l). Some (o_path w @ p, l)) (locate d)"
proof (induction d arbitrary: w)
  case (At ds)
  have IH: "map located_at (run_deferred W d (Inr w)) = map (\<lambda>(p, l). Some (o_path w @ p, l)) (locate d)"
    if "Some d \<in> set ds" "\<forall>r \<in> set (run_deferred W d (Inr w)). located_at r \<noteq> None" for d w
    using At.IH [OF that(1) _ that(2)] by simp
  have "\<forall>r \<in> set (concat (map (\<lambda>(i, d). case d of None \<Rightarrow> [] | Some f \<Rightarrow> f (outgoing_index W w [i]))
      (enumerate 0 (map (map_option (run_deferred W)) ds)))). located_at r \<noteq> None"
    using At.prems by (simp add: index_each_concat)
  from run_deferred_each [OF IH this] show ?case by (simp add: index_each_concat)
qed (simp add: located_at_def)

lemma run_each_At: "run_each W w ds = run_deferred W (At ds) (Inr w)"
proof -
  have "concat (map (\<lambda>(w, f). f w) (map (\<lambda>(i, d). (outgoing_index W w [i], the d))
      (filter (\<lambda>(i, d). d \<noteq> None) (enumerate m (map (map_option (run_deferred W)) ds))))) =
    concat (map (\<lambda>(w, f). run_deferred W f w) (map (\<lambda>(i, d). (outgoing_index W w [i], the d))
      (filter (\<lambda>(i, d). d \<noteq> None) (enumerate m ds))))" for m
    by (induction ds arbitrary: m) auto
  then show ?thesis by (simp add: run_each_def index_each_def)
qed

text \<open>
  Transmission of deferred operations (claim C27). Unless indexing failed, the operations of a list of encoded values run one for one on
  the outgoing streams at the positions that the values have them at, below the path of the stream: the positions that the
  reader of the values indexes.
\<close>

theorem deferred_positions:
  assumes "\<forall>r \<in> set (run_each W w ds). located_at r \<noteq> None"
  shows "map located_at (run_each W w ds) = map (\<lambda>(p, l). Some (o_path w @ p, l)) (locate (At ds)) \<and>
    map fst (locate (At ds)) = element_positions 0 ds"
proof
  show "map located_at (run_each W w ds) = map (\<lambda>(p, l). Some (o_path w @ p, l)) (locate (At ds))"
    using assms unfolding run_each_At by (rule run_deferred_located)
  show "map fst (locate (At ds)) = element_positions 0 ds" using locate_At [of 0 ds] by simp
qed

theorem deferred_positions_witness:
  "map located_at (run_each wasm_ref \<lparr>o_path = [4], o_path_buf = [1, 4]\<rparr> [None, Some (At [Some (Here CHR ''a''), Some (Here CHR ''b'')])]) =
     [Some ([4, 1, 0], CHR ''a''), Some ([4, 1, 1], CHR ''b'')] \<and>
   element_positions 0 [None, Some (At [Some (Here CHR ''a''), Some (Here CHR ''b'')])] = [[1, 0], [1, 1]]"
proof -
  let ?w = "\<lparr>o_path = [4], o_path_buf = [1, 4]\<rparr>" and ?ds = "[None, Some (At [Some (Here CHR ''a''), Some (Here CHR ''b'')])]"
  have "\<forall>r \<in> set (run_each wasm_ref ?w ?ds). located_at r \<noteq> None"
    by (simp add: run_each_def index_each_def outgoing_index_def located_at_def u32_try_from_def)
  from deferred_positions [OF this] show ?thesis by simp
qed

section \<open>Calls\<close>

text \<open>The types of the values that are transmitted for a result list, and the values.\<close>

definition wire_types :: "ty option option \<Rightarrow> ty list \<Rightarrow> ty list" where
  "wire_types rpc tys = (case rpc of None \<Rightarrow> tys | Some None \<Rightarrow> [] | Some (Some t) \<Rightarrow> [t])"

fun wire_values :: "ty option option \<Rightarrow> val list \<Rightarrow> val list" where
  "wire_values (Some _) [VResult True (Some v)] = [v]"
| "wire_values (Some _) vs = []"
| "wire_values None vs = vs"

lemma values_received:
  assumes "wasm_tokio_values W" and "receiving_host H'" and "list_all2 val_typed vs tys"
    and "\<And>t. t \<in> set tys \<Longrightarrow> resources_agree H R H' R' t"
    and "encode_values W k H R vs tys dst w = (w', Inr (dst', ds))" and "index_all idx (element_positions 0 ds) c = Some c'"
  shows "\<exists>b. dst' = dst @ b \<and>
    (\<forall>r x. \<exists>x' us. read_values W H' idx R' tys (b @ r) (x, c) = ((x', c'), Inr (us, r)) \<and> map erase us = map erase vs)"
proof -
  let ?es = "map (\<lambda>(v, t). val_encode W k H R v t) (zip vs tys)" and ?fs = "map (\<lambda>t. val_read W H' idx R' t) tys"
  have len: "length vs = length tys" using assms(3) by (rule list_all2_lengthD)
  have sends: "sends idx (?es ! i) (?fs ! i) (vs ! i)" if "i < length ?fs" for i
    using receiving_host.val_sends [OF assms(2,1) list_all2_nthD2 [OF assms(3)] assms(4)] that len by simp
  have reads: "map (\<lambda>(i, t). val_read W H' idx R' t [i]) (enumerate m tys) = map (\<lambda>(i, f). f ([] @ [i])) (enumerate m ?fs)" for m
    by (induction tys arbitrary: m) simp_all
  have "length ?es = length ?fs" "length vs = length ?fs" using len by simp_all
  from sends_each [OF this sends assms(5) [unfolded encode_values_def], of 0] obtain b where b: "dst' = dst @ b"
    and read: "\<And>path r x c c'. index_all idx (map ((@) path) (element_positions 0 ds)) c = Some c' \<Longrightarrow>
      \<exists>x' us. vread_each (map (\<lambda>(i, f). f (path @ [i])) (enumerate 0 ?fs)) (b @ r) (x, c) = ((x', c'), Inr (us, r)) \<and>
        map erase us = map erase vs"
    by blast
  have "map ((@) []) (element_positions 0 ds) = element_positions 0 ds" by (simp add: map_idI)
  with assms(6) have "index_all idx (map ((@) []) (element_positions 0 ds)) c = Some c'" by (simp only:)
  moreover have "read_values W H' idx R' tys = vread_each (map (\<lambda>(i, f). f ([] @ [i])) (enumerate 0 ?fs))"
    by (simp only: read_values_def reads)
  ultimately show ?thesis using read [of "[]" c c'] b by auto
qed

lemma call_Inr:
  assumes "call W k H idx R E hr params_ty results_ty func input s = (s', Inr out)"
  obtains params r s1 w results w' where "read_values W H idx R params_ty input s = (s1, Inr (params, r))"
    and "func params (fst s1) = (w, Inr results)"
    and "encode_results W k H R E (rpc_result_type E hr results_ty) results results_ty w = (w', Inr out)" and "snd s' = snd s1"
proof (cases "read_values W H idx R params_ty input s")
  case (Pair s1 x)
  with assms obtain params r where x: "x = Inr (params, r)" by (cases x) (auto simp: call_def)
  obtain w y where y: "func params (fst s1) = (w, y)" by (cases "func params (fst s1)")
  with assms Pair x obtain results where z: "y = Inr results" by (cases y) (auto simp: call_def)
  obtain w' v where v: "encode_results W k H R E (rpc_result_type E hr results_ty) results results_ty w = (w', v)"
    by (cases "encode_results W k H R E (rpc_result_type E hr results_ty) results results_ty w")
  with assms Pair x y z have "v = Inr out" "snd s' = snd s1" by (auto simp: call_def)
  with Pair x y z v that show ?thesis by blast
qed

lemma rpc_result_type_Some: "rpc_result_type E hr tys = Some u \<Longrightarrow> \<exists>g. tys = [TResult u (Some (TOwn g))]"
  by (auto simp: rpc_result_type_def split: option.splits list.splits ty.splits prod.splits if_splits)

text \<open>Encoded are the values that are transmitted; an error of the invocation is none of them.\<close>

lemma encode_results_wire:
  assumes "encode_results W k H R E rpc rs tys w = (w', Inr (out, ds))" and "rpc = rpc_result_type E hr tys"
    and "list_all2 val_typed rs tys"
  shows "encode_values W k H R (wire_values rpc rs) (wire_types rpc tys) [] w = (w', Inr (out, ds)) \<and>
    list_all2 val_typed (wire_values rpc rs) (wire_types rpc tys)"
proof (cases rpc)
  case None
  with assms show ?thesis by (auto simp: encode_results_def map_error_def wire_types_def split: prod.splits sum.splits)
next
  case (Some u)
  with assms(2) rpc_result_type_Some [of E hr tys u] obtain g where tys: "tys = [TResult u (Some (TOwn g))]" by auto
  with assms(3) obtain r where rs: "rs = [r]" "val_typed r (TResult u (Some (TOwn g)))" by (auto simp: list_all2_Cons2)
  from assms(1) Some rs obtain v where v: "r = VResult True v" "v = None \<longleftrightarrow> u = None"
    by (cases u; cases r; auto simp: encode_results_def raise_def chain_def split: option.splits bool.splits val.splits prod.splits sum.splits)
  show ?thesis
  proof (cases u)
    case None
    with assms(1) Some rs v show ?thesis by (simp add: encode_results_def encode_values_def wire_types_def yield_def)
  next
    case (Some t)
    with v obtain x where x: "v = Some x" by auto
    from assms(1) \<open>rpc = Some u\<close> Some rs(1) v x obtain d
      where "val_encode W k H R x t [] w = (w', Inr (out, d))" "ds = [d]"
      by (auto simp: encode_results_def chain_def map_error_def yield_def split: prod.splits sum.splits)
    moreover from rs(2) v x Some have "val_typed x t" by simp
    ultimately show ?thesis using \<open>rpc = Some u\<close> Some rs(1) v x by (simp add: encode_values_def wire_types_def chain_def yield_def)
  qed
qed

text \<open>The import on a transport that brings the results of an export.\<close>

lemma polyfill_results:
  assumes W: "wasm_tokio_values W" and H: "receiving_host H" and tys: "rpc = rpc_result_type E hr tys"
    and vs: "list_all2 val_typed vs (wire_types rpc tys)"
    and agree: "\<And>t. t \<in> set (wire_types rpc tys) \<Longrightarrow> resources_agree H' R' H R t"
    and out: "encode_values W k' H' R' vs (wire_types rpc tys) [] v = (v', Inr (out, ds'))"
    and idx: "index_all idx (element_positions 0 ds') c = Some c'"
    and params: "encode_values W k H R params params_ty [] w = (w', Inr (buf, ds))"
    and net: "net (rpc_func_name name) buf ds (params_async_paths (io_streams R) (wire_types rpc tys)) = Inr out"
  shows "\<exists>x rs. polyfill_call E rpc tys (invoke W k H idx R params params_ty net name) (w, c) = ((x, c'), Inr rs) \<and>
    map erase (wire_values rpc rs) = map erase vs"
proof -
  from values_received [OF W H vs agree out idx] obtain x us where
    read: "read_values W H idx R (wire_types rpc tys) out (w', c) = ((x, c'), Inr (us, []))" "map erase us = map erase vs"
    by (metis append_Nil append_Nil2)
  have inv: "invoke W k H idx R params params_ty net name (wire_types rpc tys) (w, c) = ((x, c'), Inr (Inr us))"
    using params net read(1) by (simp add: invoke_def chain_def on_world_def map_error_def)
  show ?thesis
  proof (cases rpc)
    case None
    with inv read(2) show ?thesis by (simp add: polyfill_call_def chain_def yield_def wire_types_def)
  next
    case (Some u)
    with tys rpc_result_type_Some [of E hr tys u] have "length tys = 1" by auto
    moreover have "length us = length (wire_types rpc tys)"
      using read(2) list_all2_lengthD [OF vs] by (metis length_map)
    ultimately show ?thesis using inv read(2) Some
      by (cases u) (auto simp: polyfill_call_def chain_def yield_def wire_types_def length_Suc_conv)
  qed
qed


definition ref_errors :: "(tables, 'e) rpc_errors" where
  "ref_errors = \<lparr>re_type = 5, re_as = yield, re_delete = (\<lambda>_. raise ()), re_push = (\<lambda>_. yield 0), re_any = yield\<rparr>"

definition ref_rpc_resources :: host_resources where
  "ref_rpc_resources = [''wrpc:rpc/error@0.2.0'' \<mapsto> [''error'' \<mapsto> (3, 5)]]"

definition first_param :: "val list \<Rightarrow> (tables world, unit, val list) exec" where
  "first_param vs w = (case vs of VU8 n # _ \<Rightarrow> (w, Inr [VU8 (n mod 256)]) | _ \<Rightarrow> (w, Inl ()))"

definition call_example :: "(tables world \<times> path list) \<times> (unit call_error + bytes \<times> leaf deferred option list)" where
  "call_example = call wasm_ref True ref_host log_index no_resources ref_errors (\<lambda>_. None) [TU8, TFuture (Some TU8)] [TU8] first_param [7, 0] (no_world, [])"


end
