(* ===== verification/Keyvalue.thy ===== *)
theory Keyvalue
  imports Prelude
begin

text \<open>
  The key-value store in memory, \<open>crates/wasi-keyvalue-mem/src/lib.rs\<close>.

  A bucket is shared: the table of the handler has a reference (\<open>Arc\<close>) to it, and a request holds the reference while it waits for the lock of the
  bucket. \<open>kv_step\<close> is one request going from one lock to the next, so that requests interleave between the sections that a lock
  protects. \<open>spec_run\<close> is a store without references and locks, that answers a request at once. The theorem is that the
  handler looks like it in the order of the answers.

  The order in which a hash map lists its keys is a parameter \<open>order\<close>.
\<close>

section \<open>The handler\<close>

datatype store_error = No_Such_Store | Access_Denied | Other_Error string

text \<open>
  An answer: an error of the invocation on the outside, the result of the function inside, whose error is that of the store or, for \<open>swap\<close>, wraps it.
\<close>

datatype result_error = Store_Error store_error | Cas_Store_Error store_error

type_synonym 'a answer = "store_error + (result_error + 'a)"

type_synonym bucket = "string \<rightharpoonup> bytes"

record handler =
  h_buckets :: "bytes \<rightharpoonup> nat"
  h_heap :: "nat \<Rightarrow> bucket"
  h_next :: nat

definition handler_default :: handler where
  "handler_default = \<lparr>h_buckets = (\<lambda>_. None), h_heap = (\<lambda>_ _. None), h_next = 0\<rparr>"

definition handler_bucket :: "handler \<Rightarrow> bytes \<Rightarrow> store_error + nat" where
  "handler_bucket self bucket = (case h_buckets self bucket of None \<Rightarrow> Inl No_Such_Store | Some r \<Rightarrow> Inr r)"

text \<open>\<open>usize::from_str\<close>: digits after an optional plus sign, in range.\<close>

definition digit :: "char \<Rightarrow> nat option" where
  "digit c = (let n = of_char c in if 48 \<le> n \<and> n < 58 then Some (n - 48) else None)"

fun parse_digits :: "nat \<Rightarrow> string \<Rightarrow> nat option" where
  "parse_digits n [] = Some n"
| "parse_digits n (c # cs) =
    (case digit c of
       None \<Rightarrow> None
     | Some d \<Rightarrow> if 10 * n + d \<le> usize_max then parse_digits (10 * n + d) cs else None)"

definition parse_usize :: "string \<Rightarrow> nat option" where
  "parse_usize s =
    (let s = (case s of c # cs \<Rightarrow> if c = CHR ''+'' then cs else s | [] \<Rightarrow> s) in
     if s = [] then None else parse_digits 0 s)"

record key_response =
  kr_keys :: "string list"
  kr_cursor :: "string option"

datatype response = Bucket bytes | Value "bytes option" | Unit | Exists bool | Keys key_response

datatype request =
    Open bytes
  | Get bytes string
  | Set bytes string bytes
  | Delete bytes string
  | Exists_Key bytes string
  | List_Keys bytes "string option"
  | Increment bytes string int
  | Swap bytes bytes
  | Cas_New bytes string
  | Cas_Current bytes
  | Get_Many bytes "string list"
  | Set_Many bytes "(string \<times> bytes) list"
  | Delete_Many bytes "string list"

definition not_supported :: "request \<Rightarrow> response answer" where
  "not_supported r = Inr (Inl ((case r of Swap _ _ \<Rightarrow> Cas_Store_Error | _ \<Rightarrow> Store_Error) (Other_Error ''not supported'')))"

text \<open>What a request does once it has the lock of its bucket; \<open>msg\<close> is the text of a parse error.\<close>

definition list_keys :: "(bucket \<Rightarrow> string list) \<Rightarrow> string \<Rightarrow> string option \<Rightarrow> bucket \<Rightarrow> response answer" where
  "list_keys order msg cursor bucket =
    (case cursor of
       None \<Rightarrow> Inr (Inr (Keys \<lparr>kr_keys = order bucket, kr_cursor = None\<rparr>))
     | Some c \<Rightarrow>
         (case parse_usize c of
            None \<Rightarrow> Inl (Other_Error msg)
          | Some n \<Rightarrow> Inr (Inr (Keys \<lparr>kr_keys = drop n (order bucket), kr_cursor = None\<rparr>))))"

fun on_bucket :: "(bucket \<Rightarrow> string list) \<Rightarrow> string \<Rightarrow> request \<Rightarrow> bucket \<Rightarrow> bucket \<times> response answer" where
  "on_bucket order msg (Get _ key) bucket = (bucket, Inr (Inr (Value (bucket key))))"
| "on_bucket order msg (Set _ key v) bucket = (bucket(key \<mapsto> v), Inr (Inr Unit))"
| "on_bucket order msg (Delete _ key) bucket = (bucket(key := None), Inr (Inr Unit))"
| "on_bucket order msg (Exists_Key _ key) bucket = (bucket, Inr (Inr (Exists (bucket key \<noteq> None))))"
| "on_bucket order msg (List_Keys _ cursor) bucket = (bucket, list_keys order msg cursor bucket)"
| "on_bucket order msg r bucket = (bucket, not_supported r)"

fun bucket_of :: "request \<Rightarrow> bytes option" where
  "bucket_of (Get b _) = Some b"
| "bucket_of (Set b _ _) = Some b"
| "bucket_of (Delete b _) = Some b"
| "bucket_of (Exists_Key b _) = Some b"
| "bucket_of (List_Keys b _) = Some b"
| "bucket_of _ = None"

text \<open>The sections of a request. The first looks its bucket up, and answers at once if there is nothing to wait for.\<close>

datatype lock_wait = Reading | Writing | Holding nat

fun first_section :: "handler \<Rightarrow> request \<Rightarrow> lock_wait + response answer" where
  "first_section self (Open identifier) =
    (if h_buckets self identifier \<noteq> None then Inr (Inr (Inr (Bucket identifier))) else Inl Writing)"
| "first_section self r =
    (case bucket_of r of
       None \<Rightarrow> Inr (not_supported r)
     | Some bucket \<Rightarrow> (case handler_bucket self bucket of Inl e \<Rightarrow> Inr (Inl e) | Inr b \<Rightarrow> Inl (Holding b)))"

text \<open>\<open>store.entry(identifier).or_default()\<close>.\<close>

definition or_default :: "bytes \<Rightarrow> handler \<Rightarrow> handler" where
  "or_default identifier self =
    (case h_buckets self identifier of
       Some _ \<Rightarrow> self
     | None \<Rightarrow>
         self\<lparr>h_buckets := (h_buckets self)(identifier \<mapsto> h_next self), h_heap := (h_heap self)(h_next self := (\<lambda>_. None)),
           h_next := Suc (h_next self)\<rparr>)"

definition open_section :: "bytes \<Rightarrow> handler \<Rightarrow> handler \<times> response answer" where
  "open_section identifier self = (or_default identifier self, Inr (Inr (Bucket identifier)))"

definition bucket_section :: "(bucket \<Rightarrow> string list) \<Rightarrow> string \<Rightarrow> request \<Rightarrow> nat \<Rightarrow> handler \<Rightarrow> handler \<times> response answer" where
  "bucket_section order msg r b self =
    (case on_bucket order msg r (h_heap self b) of (bucket, a) \<Rightarrow> (self\<lparr>h_heap := (h_heap self)(b := bucket)\<rparr>, a))"

section \<open>Interleaving\<close>

text \<open>The requests that are being served, by a number, and the event of a step: the answer to a request, if there is one.\<close>

type_synonym tasks = "nat \<rightharpoonup> request \<times> lock_wait"

inductive kv_step :: "(bucket \<Rightarrow> string list) \<Rightarrow> string \<Rightarrow> handler \<times> tasks \<Rightarrow> (request \<times> response answer) option \<Rightarrow> handler \<times> tasks \<Rightarrow> bool"
  for order msg where
  arrive: "ts i = None \<Longrightarrow> kv_step order msg (h, ts) None (h, ts(i \<mapsto> (r, Reading)))"
| wait: "ts i = Some (r, Reading) \<Longrightarrow> first_section h r = Inl s \<Longrightarrow> kv_step order msg (h, ts) None (h, ts(i \<mapsto> (r, s)))"
| at_once: "ts i = Some (r, Reading) \<Longrightarrow> first_section h r = Inr a \<Longrightarrow> kv_step order msg (h, ts) (Some (r, a)) (h, ts(i := None))"
| written: "ts i = Some (Open b, Writing) \<Longrightarrow> open_section b h = (h', a) \<Longrightarrow>
    kv_step order msg (h, ts) (Some (Open b, a)) (h', ts(i := None))"
| locked: "ts i = Some (r, Holding b) \<Longrightarrow> bucket_section order msg r b h = (h', a) \<Longrightarrow>
    kv_step order msg (h, ts) (Some (r, a)) (h', ts(i := None))"

inductive kv_run :: "(bucket \<Rightarrow> string list) \<Rightarrow> string \<Rightarrow> handler \<times> tasks \<Rightarrow> (request \<times> response answer) list \<Rightarrow> handler \<times> tasks \<Rightarrow> bool"
  for order msg where
  stop: "kv_run order msg s [] s"
| step: "kv_run order msg s es t \<Longrightarrow> kv_step order msg t e u \<Longrightarrow> kv_run order msg s (es @ (case e of None \<Rightarrow> [] | Some x \<Rightarrow> [x])) u"

section \<open>The specification\<close>

type_synonym stores = "bytes \<rightharpoonup> bucket"

definition spec_answer :: "(bucket \<Rightarrow> string list) \<Rightarrow> string \<Rightarrow> request \<Rightarrow> stores \<Rightarrow> stores \<times> response answer" where
  "spec_answer order msg r s =
    (case r of
       Open b \<Rightarrow> (s(b \<mapsto> (case s b of None \<Rightarrow> Map.empty | Some m \<Rightarrow> m)), Inr (Inr (Bucket b)))
     | _ \<Rightarrow>
         (case bucket_of r of
            None \<Rightarrow> (s, not_supported r)
          | Some b \<Rightarrow>
              (case s b of
                 None \<Rightarrow> (s, Inl No_Such_Store)
               | Some m \<Rightarrow> (case on_bucket order msg r m of (m, a) \<Rightarrow> (s(b \<mapsto> m), a)))))"

fun spec_run :: "(bucket \<Rightarrow> string list) \<Rightarrow> string \<Rightarrow> request list \<Rightarrow> stores \<Rightarrow> stores \<times> response answer list" where
  "spec_run order msg [] s = (s, [])"
| "spec_run order msg (r # rs) s =
    (case spec_answer order msg r s of (s, a) \<Rightarrow> (case spec_run order msg rs s of (s, as) \<Rightarrow> (s, a # as)))"

definition abs_stores :: "handler \<Rightarrow> stores" where
  "abs_stores h b = map_option (h_heap h) (h_buckets h b)"

section \<open>References\<close>

text \<open>A reference belongs to one bucket for good, and a request that holds one looked it up under the name of its bucket.\<close>

definition kv_inv :: "handler \<times> tasks \<Rightarrow> bool" where
  "kv_inv s \<longleftrightarrow> (case s of (h, ts) \<Rightarrow>
    inj_on (h_buckets h) (dom (h_buckets h)) \<and> (\<forall>r \<in> ran (h_buckets h). r < h_next h) \<and>
    (\<forall>i r b. ts i = Some (r, Holding b) \<longrightarrow> (\<exists>n. bucket_of r = Some n \<and> h_buckets h n = Some b)))"

lemma kv_inv_unique: "kv_inv (h, ts) \<Longrightarrow> h_buckets h m = Some b \<Longrightarrow> h_buckets h n = Some b \<Longrightarrow> m = n"
  using inj_onD [of "h_buckets h" "dom (h_buckets h)" m n] by (auto simp: kv_inv_def)

lemma kv_inv_less: "kv_inv (h, ts) \<Longrightarrow> h_buckets h n = Some b \<Longrightarrow> b < h_next h"
  by (auto simp: kv_inv_def intro: ranI)

lemma kv_inv_Holding: "kv_inv (h, ts) \<Longrightarrow> ts i = Some (r, Holding b) \<Longrightarrow> \<exists>n. bucket_of r = Some n \<and> h_buckets h n = Some b"
  by (simp add: kv_inv_def)

lemma kv_invI:
  assumes "\<And>m n b. h_buckets h m = Some b \<Longrightarrow> h_buckets h n = Some b \<Longrightarrow> m = n" and "\<And>n b. h_buckets h n = Some b \<Longrightarrow> b < h_next h"
    and "\<And>i r b. ts i = Some (r, Holding b) \<Longrightarrow> \<exists>n. bucket_of r = Some n \<and> h_buckets h n = Some b"
  shows "kv_inv (h, ts)"
  using assms by (auto simp: kv_inv_def inj_on_def ran_def dom_def)

lemma first_section_Holding:
  "first_section h r = Inl (Holding b) \<Longrightarrow> \<exists>n. bucket_of r = Some n \<and> h_buckets h n = Some b"
  by (cases r) (auto simp: handler_bucket_def split: option.splits if_splits)

lemma kv_inv_default: "kv_inv (handler_default, \<lambda>_. None)"
  by (simp add: kv_inv_def handler_default_def)

lemma or_default_inv:
  assumes inv: "kv_inv (h, ts)"
  shows "kv_inv (or_default b h, ts)"
proof (cases "h_buckets h b")
  case None
  note less = kv_inv_less [OF inv] and Holding = kv_inv_Holding [OF inv] and unique = kv_inv_unique [OF inv]
  show ?thesis
  proof (rule kv_invI)
    show "m = n" if "h_buckets (or_default b h) m = Some c" "h_buckets (or_default b h) n = Some c" for m n c
      using that unique [of m c n] less [of m] less [of n] None by (auto simp: or_default_def split: if_splits)
    show "c < h_next (or_default b h)" if "h_buckets (or_default b h) n = Some c" for n c
      using that less [of n c] None by (auto simp: or_default_def split: if_splits)
    show "\<exists>n. bucket_of r = Some n \<and> h_buckets (or_default b h) n = Some c" if "ts i = Some (r, Holding c)" for i r c
    proof -
      from Holding [OF that] obtain n where n: "bucket_of r = Some n" "h_buckets h n = Some c" by blast
      with None have "n \<noteq> b" by auto
      with n None show ?thesis by (intro exI [of _ n]) (simp add: or_default_def)
    qed
  qed
qed (use inv in \<open>simp add: or_default_def\<close>)

lemma kv_inv_tasks:
  assumes "kv_inv (h, ts)" and "h_buckets h' = h_buckets h" and "h_next h' = h_next h"
    and "\<And>i r b. ts' i = Some (r, Holding b) \<Longrightarrow> ts i = Some (r, Holding b) \<or> first_section h r = Inl (Holding b)"
  shows "kv_inv (h', ts')"
proof (rule kv_invI)
  show "m = n" if "h_buckets h' m = Some b" "h_buckets h' n = Some b" for m n b
    using kv_inv_unique [OF assms(1), of m b n] that by (simp add: assms(2))
  show "b < h_next h'" if "h_buckets h' n = Some b" for n b using kv_inv_less [OF assms(1)] that by (simp add: assms(2,3))
  show "\<exists>n. bucket_of r = Some n \<and> h_buckets h' n = Some b" if "ts' i = Some (r, Holding b)" for i r b
    using assms(4) [OF that] kv_inv_Holding [OF assms(1)] first_section_Holding [of h r b] by (auto simp: assms(2))
qed

lemma kv_inv_step:
  assumes "kv_step order msg s e t" and "kv_inv s"
  shows "kv_inv t"
  using assms(1)
proof cases
  case (arrive ts i h r)
  with assms(2) show ?thesis by (auto intro: kv_inv_tasks split: if_splits)
next
  case (wait ts i r h s')
  with assms(2) show ?thesis by (auto intro: kv_inv_tasks split: if_splits)
next
  case (at_once ts i r h a)
  with assms(2) show ?thesis by (auto intro: kv_inv_tasks split: if_splits)
next
  case (written ts i b h h' a)
  with or_default_inv [of h ts b] assms(2) have "kv_inv (h', ts)" by (simp add: open_section_def)
  with written show ?thesis by (auto intro: kv_inv_tasks split: if_splits)
next
  case (locked ts i r b h h' a)
  then have "h_buckets h' = h_buckets h" "h_next h' = h_next h" by (auto simp: bucket_section_def split: prod.splits)
  with locked assms(2) show ?thesis by (auto intro: kv_inv_tasks split: if_splits)
qed

text \<open>A step that answers a request does to the buckets what the specification does; the other steps leave them alone.\<close>

lemma open_abs:
  assumes "open_section b h = (h', a)" and "kv_inv (h, ts)"
  shows "spec_answer order msg (Open b) (abs_stores h) = (abs_stores h', a)"
proof (cases "h_buckets h b")
  case None
  with assms(1) have h': "h' = h\<lparr>h_buckets := (h_buckets h)(b \<mapsto> h_next h), h_heap := (h_heap h)(h_next h := (\<lambda>_. None)), h_next := Suc (h_next h)\<rparr>"
    and a: "a = Inr (Inr (Bucket b))" by (auto simp: open_section_def or_default_def)
  have "abs_stores h' n = ((abs_stores h)(b \<mapsto> Map.empty)) n" for n
    using kv_inv_less [OF assms(2), of n] by (cases "h_buckets h n") (auto simp: abs_stores_def h')
  then have "abs_stores h' = (abs_stores h)(b \<mapsto> Map.empty)" by (rule ext)
  with None a show ?thesis by (simp add: spec_answer_def abs_stores_def)
next
  case (Some r)
  with assms(1) have "h' = h" "a = Inr (Inr (Bucket b))" by (auto simp: open_section_def or_default_def)
  with Some show ?thesis by (auto simp: spec_answer_def abs_stores_def fun_eq_iff)
qed

lemma bucket_abs:
  assumes "bucket_section order msg r b h = (h', a)" and "kv_inv (h, ts)" and "bucket_of r = Some n" and "h_buckets h n = Some b"
  shows "spec_answer order msg r (abs_stores h) = (abs_stores h', a)"
proof -
  have other: "h_buckets h m = Some b \<Longrightarrow> m = n" for m by (rule kv_inv_unique [OF assms(2) _ assms(4)])
  obtain m where m: "on_bucket order msg r (h_heap h b) = (m, a)" "h' = h\<lparr>h_heap := (h_heap h)(b := m)\<rparr>"
    using assms(1) by (auto simp: bucket_section_def split: prod.splits)
  have "((abs_stores h)(n \<mapsto> m)) x = abs_stores h' x" for x
    using other [of x] assms(4) by (cases "h_buckets h x") (auto simp: abs_stores_def m(2))
  then have "(abs_stores h)(n \<mapsto> m) = abs_stores h'" by (rule ext)
  moreover have "abs_stores h n = Some (h_heap h b)" by (simp add: abs_stores_def assms(4))
  moreover have "spec_answer order msg r (abs_stores h) =
      (case abs_stores h n of None \<Rightarrow> (abs_stores h, Inl No_Such_Store)
       | Some m \<Rightarrow> (case on_bucket order msg r m of (m, a) \<Rightarrow> ((abs_stores h)(n \<mapsto> m), a)))"
    using assms(3) by (cases r) (auto simp: spec_answer_def split: option.split)
  ultimately show ?thesis by (simp add: m(1))
qed

lemma at_once_abs:
  "first_section h r = Inr a \<Longrightarrow> spec_answer order msg r (abs_stores h) = (abs_stores h, a)"
  by (cases r) (auto simp: spec_answer_def abs_stores_def handler_bucket_def fun_eq_iff split: option.splits if_splits)

lemma kv_step_abs:
  assumes "kv_step order msg (h, ts) e (h', ts')" and "kv_inv (h, ts)"
  shows "case e of None \<Rightarrow> abs_stores h' = abs_stores h
    | Some (r, a) \<Rightarrow> spec_answer order msg r (abs_stores h) = (abs_stores h', a)"
  using assms
proof cases
  case (locked i r b a)
  with kv_inv_Holding [OF assms(2)] obtain n where "bucket_of r = Some n" "h_buckets h n = Some b" by blast
  with locked bucket_abs [OF _ assms(2)] show ?thesis by simp
qed (use open_abs [OF _ assms(2)] at_once_abs in auto)

lemma spec_run_append:
  "spec_run order msg (rs @ qs) s =
    (case spec_run order msg rs s of (s, as) \<Rightarrow> (case spec_run order msg qs s of (s, bs) \<Rightarrow> (s, as @ bs)))"
  by (induction rs arbitrary: s) (auto split: prod.splits)

lemma kv_run_abs:
  assumes "kv_run order msg s es t" and "kv_inv s"
  shows "kv_inv t \<and> spec_run order msg (map fst es) (abs_stores (fst s)) = (abs_stores (fst t), map snd es)"
  using assms
proof induction
  case (step s es t e u)
  obtain h ts where t: "t = (h, ts)" by (cases t)
  obtain h' ts' where u: "u = (h', ts')" by (cases u)
  from step.IH [OF step.prems] have inv: "kv_inv t"
    and run: "spec_run order msg (map fst es) (abs_stores (fst s)) = (abs_stores h, map snd es)" by (simp_all add: t)
  from kv_step_abs [OF step.hyps(2) [unfolded t u] inv [unfolded t]] kv_inv_step [OF step.hyps(2) inv] run
  show ?case by (cases e) (auto simp: spec_run_append t u split: prod.splits)
qed simp

text \<open>
  The store in memory (claim C26). However the requests to a handler interleave, in the order in which they are answered the
  answers are those of a store that serves one request at a time, and so are the contents of the buckets: a read sees every write that was answered
  before it, a bucket that two requests open at the same time is one bucket, and no write to it is lost.
\<close>

theorem linearizable:
  assumes "kv_run order msg (handler_default, \<lambda>_. None) es (h, ts)"
  shows "spec_run order msg (map fst es) Map.empty = (abs_stores h, map snd es)"
proof -
  have "abs_stores handler_default = Map.empty" by (rule ext) (simp add: abs_stores_def handler_default_def)
  with kv_run_abs [OF assms kv_inv_default] show ?thesis by simp
qed

text \<open>Two requests that open a bucket at the same time, with a write between their answers.\<close>

theorem linearizable_witness:
  "snd (spec_run (\<lambda>_. []) [] [Open [7], Set [7] ''k'' [1], Open [7], Get [7] ''k''] Map.empty) =
    [Inr (Inr (Bucket [7])), Inr (Inr Unit), Inr (Inr (Bucket [7])), Inr (Inr (Value (Some [1])))]"
proof -
  let ?h = handler_default and ?run = "kv_run (\<lambda>_. []) [] (handler_default, \<lambda>_. None)"
  let ?h1 = "or_default [7] handler_default"
  let ?h2 = "?h1\<lparr>h_heap := (h_heap ?h1)(0 := [''k'' \<mapsto> [1]])\<rparr>"
  note step = kv_run.step [where order = "\<lambda>_. []" and msg = "[]"] and simps = handler_default_def or_default_def handler_bucket_def
  have "?run [] (?h, [0 \<mapsto> (Open [7], Reading)])"
    using step [OF kv_run.stop kv_step.arrive [of "\<lambda>_. None" 0]] by simp
  from step [OF this kv_step.arrive [of _ 1]] have "?run [] (?h, [0 \<mapsto> (Open [7], Reading), 1 \<mapsto> (Open [7], Reading)])" by simp
  from step [OF this kv_step.wait [of _ 0]] have "?run [] (?h, [0 \<mapsto> (Open [7], Writing), 1 \<mapsto> (Open [7], Reading)])"
    by (simp add: simps fun_upd_twist)
  from step [OF this kv_step.wait [of _ 1]] have "?run [] (?h, [0 \<mapsto> (Open [7], Writing), 1 \<mapsto> (Open [7], Writing)])"
    by (simp add: simps)
  from step [OF this kv_step.written [of _ 0 "[7]"]]
  have "?run [(Open [7], Inr (Inr (Bucket [7])))] (?h1, [1 \<mapsto> (Open [7], Writing)])"
    by (simp add: open_section_def fun_upd_twist)
  from step [OF this kv_step.arrive [of _ 2]]
  have "?run [(Open [7], Inr (Inr (Bucket [7])))] (?h1, [1 \<mapsto> (Open [7], Writing), 2 \<mapsto> (Set [7] ''k'' [1], Reading)])" by simp
  from step [OF this kv_step.wait [of _ 2 "Set [7] ''k'' [1]" _ "Holding 0"]]
  have "?run [(Open [7], Inr (Inr (Bucket [7])))] (?h1, [1 \<mapsto> (Open [7], Writing), 2 \<mapsto> (Set [7] ''k'' [1], Holding 0)])"
    by (simp add: simps)
  from step [OF this kv_step.locked [of _ 2 "Set [7] ''k'' [1]" 0]]
  have "?run [(Open [7], Inr (Inr (Bucket [7]))), (Set [7] ''k'' [1], Inr (Inr Unit))] (?h2, [1 \<mapsto> (Open [7], Writing)])"
    by (simp add: simps bucket_section_def)
  from step [OF this kv_step.written [of _ 1 "[7]"]]
  have "?run [(Open [7], Inr (Inr (Bucket [7]))), (Set [7] ''k'' [1], Inr (Inr Unit)), (Open [7], Inr (Inr (Bucket [7])))] (?h2, \<lambda>_. None)"
    by (simp add: simps open_section_def)
  from step [OF this kv_step.arrive [of _ 3]]
  have "?run [(Open [7], Inr (Inr (Bucket [7]))), (Set [7] ''k'' [1], Inr (Inr Unit)), (Open [7], Inr (Inr (Bucket [7])))]
      (?h2, [3 \<mapsto> (Get [7] ''k'', Reading)])" by simp
  from step [OF this kv_step.wait [of _ 3 "Get [7] ''k''" _ "Holding 0"]]
  have "?run [(Open [7], Inr (Inr (Bucket [7]))), (Set [7] ''k'' [1], Inr (Inr Unit)), (Open [7], Inr (Inr (Bucket [7])))]
      (?h2, [3 \<mapsto> (Get [7] ''k'', Holding 0)])" by (simp add: simps)
  from step [OF this kv_step.locked [of _ 3 "Get [7] ''k''" 0 "\<lambda>_. []" "[]" ?h2 ?h2 "Inr (Inr (Value (Some [1])))"]]
  have "?run [(Open [7], Inr (Inr (Bucket [7]))), (Set [7] ''k'' [1], Inr (Inr Unit)), (Open [7], Inr (Inr (Bucket [7]))),
      (Get [7] ''k'', Inr (Inr (Value (Some [1]))))] (?h2, \<lambda>_. None)"
    by (simp add: simps bucket_section_def)
  from linearizable [OF this] show ?thesis by simp
qed

section \<open>Errors\<close>

lemma on_bucket_typed: "bucket_of r = Some b \<Longrightarrow> on_bucket order msg r m = (m', a) \<Longrightarrow> a \<noteq> Inr (Inl e)"
  by (cases r) (auto simp: list_keys_def split: option.splits)

lemma spec_answer_unknown:
  assumes "spec_answer order msg r s = (s', a)" and "s b = None"
  shows "bucket_of r = Some b \<Longrightarrow> a = Inl No_Such_Store" and "r \<noteq> Open b \<Longrightarrow> s' b = None"
  using assms by (cases r; auto simp: spec_answer_def split: option.splits prod.splits)+

lemma spec_answer_typed:
  assumes "spec_answer order msg r s = (s', Inr (Inl e))"
  shows "Inr (Inl e) = not_supported r \<and> bucket_of r = None"
proof (cases "bucket_of r")
  case None
  with assms show ?thesis by (cases r) (auto simp: spec_answer_def)
next
  case (Some b)
  from on_bucket_typed [OF Some] have "on_bucket order msg r m \<noteq> (m', Inr (Inl e))" for m m' by blast
  with assms Some show ?thesis by (cases r) (auto simp: spec_answer_def simp del: on_bucket.simps split: option.splits prod.splits)
qed

lemma spec_run_errors:
  assumes "spec_run order msg rs s = (s', as)" and "(r, a) \<in> set (zip rs as)"
  shows "(\<forall>b. bucket_of r = Some b \<and> s b = None \<and> Open b \<notin> set rs \<longrightarrow> a = Inl No_Such_Store) \<and>
    (\<forall>e. a = Inr (Inl e) \<longrightarrow> a = not_supported r \<and> bucket_of r = None)"
  using assms
proof (induction rs arbitrary: s as)
  case (Cons q rs)
  obtain s1 c where q: "spec_answer order msg q s = (s1, c)" by (cases "spec_answer order msg q s")
  with Cons.prems(1) obtain bs where bs: "spec_run order msg rs s1 = (s', bs)" "as = c # bs" by (auto split: prod.splits)
  show ?case
  proof (cases "(r, a) = (q, c)")
    case True
    with spec_answer_unknown(1) [OF q] spec_answer_typed [of order msg q s s1] q show ?thesis by auto
  next
    case False
    with Cons.prems(2) bs(2) have "(r, a) \<in> set (zip rs bs)" by auto
    from Cons.IH [OF bs(1) this] spec_answer_unknown(2) [OF q] show ?thesis by auto
  qed
qed simp



end
