(* ===== verification/Spec2Isabelle.thy ===== *)
theory Spec2Isabelle
  imports Frame_Codec Subscriptions Wave_Codec Streams Multiplex Calls Keyvalue
begin

text \<open>
  A verification library for wRPC, remote procedure calls between WebAssembly components. A value of the component model is
  encoded by a value codec, its futures and streams are sent apart from it on sub-streams of one connection, a
  framing layer multiplexes the sub-streams on a transport, and the wasmtime integration turns the imports and exports of components
  into invocations. File names below are relative to \<open>src/crates\<close>.

  \<^bold>\<open>The parts and the theories\<close>

  \<^item> \<^bold>\<open>Shared\<close>. \<open>Prelude\<close>: bytes, paths, I/O errors (\<open>io_error + 'a\<close>, with \<open>and_then\<close> for the question mark operator), UTF-8 validation, and the locale
    \<open>stream_decoder\<close> for incremental decoders. \<open>Wasm_Tokio\<close>: the primitive encodings of the external crate \<open>wasm-tokio\<close> as a record of functions that every
    definition takes as its argument \<open>W\<close>; the locales \<open>leb128\<close> and \<open>wasm_tokio_values\<close> state its documented behaviour, and \<open>wasm_ref\<close>, the encodings of
    the WebAssembly specification, satisfies them.
  \<^item> \<^bold>\<open>Framing\<close>. \<open>Frame_Codec\<close>: \<open>transport/src/frame/codec.rs\<close> (\<open>Encoder\<close>, \<open>Decoder\<close> with its limits), the invocation header of \<open>frame/mod.rs\<close> and of
    \<open>frame/conn/client.rs\<close>. The decoder is an incremental state machine. Shown: round trips however the bytes are cut, an invariant of the
    decoder on any input, the limits and the errors.
  \<^item> \<^bold>\<open>Subscription paths\<close>. \<open>Paths\<close>: \<open>introspect/src/lib.rs\<close> and \<open>wasmtime/src/paths.rs\<close>, from types to the paths at which futures and streams may occur.
    \<open>Subscriptions\<close>: the index of \<open>frame/conn/mod.rs\<close> from paths to channels, with wildcards, permits and releases, as a transition system. Shown: what
    a path resolves to, the bound on unclaimed elements, that released elements stay released.
  \<^item> \<^bold>\<open>Connection\<close>. \<open>Conn\<close>: \<open>frame/conn/mod.rs\<close>, the handles \<open>Outgoing\<close> and \<open>Incoming\<close>, the tasks \<open>ingress\<close> and \<open>egress\<close>, as a
    step relation \<open>conn_step\<close> in which they interleave. \<open>Channels\<close>: how every step treats the channels of the index. \<open>Delivery\<close>: the invariant of
    the receiving side, in-order delivery, clean ends, memory bounds. \<open>Multiplex\<close>: the sending side refines an abstract multiplexer, and the two
    sides together deliver each sub-stream under every interleaving and every fault of the transport.
  \<^item> \<^bold>\<open>Values\<close>. \<open>Values\<close>: values and types of the component model, and encodings shared by the codecs. \<open>Wave_Codec\<close>: \<open>wave/src/encode.rs\<close>
    and \<open>decode.rs\<close>. \<open>Value_Codec\<close>: \<open>transport/src/value.rs\<close>, encoders and decoders of Rust values, with deferred operations and their positions. \<open>Streams\<close>:
    transmission of pending streams of the same file, as a sender and a receiver that interleave: safety, delivery, termination.
  \<^item> \<^bold>\<open>Component values\<close>. \<open>Val_Codec\<close>: \<open>wasmtime/src/codec.rs\<close>, every value and type including resources, futures and streams. The store of
    wasmtime is the record \<open>host\<close> (\<open>Val_Store\<close>: what is relied on, and a store that satisfies it). \<open>Val_Typing\<close>: types of what is read, agreement with the
    codec of the wave crate. \<open>Val_Transfer\<close>: positions read were subscribed to. \<open>Val_Exchange\<close>: a value sent by a component is read by
    another up to handles, and handles come back as the resources.
  \<^item> \<^bold>\<open>Calls\<close>. \<open>Calls\<close>: \<open>call\<close> of \<open>wasmtime/src/lib.rs\<close> and \<open>invoke\<close>, \<open>call\<close> of \<open>polyfill.rs\<close>: a call through an import and an export runs the function on the
    parameters and returns its results.
  \<^item> \<^bold>\<open>Key-value store\<close>. \<open>Keyvalue\<close>: \<open>wasi-keyvalue-mem/src/lib.rs\<close>, requests that interleave at the locks. Shown: the answers are those of a store that
    serves one request at a time.

  \<^bold>\<open>Conventions\<close>

  \<^item> Structs are records, enums datatypes, fallible functions return a sum with the error on the left. Stateful code passes its
    state; the codec of component values runs in \<open>exec\<close>, a state and error monad over the store and the connection.
  \<^item> A \<open>usize\<close> is a \<open>nat\<close> of a 64-bit target; the bounds of \<open>u32\<close> and the saturating additions are written out.
  \<^item> An operation of a handle, and an iteration of a task between two await points, is one atomic step. Interleavings of such steps are what
    \<open>conn_step\<close> and the relation of \<open>Streams\<close> range over.
  \<^item> No definition has fuel: recursion is over types, values or input; runs are relations, and that the runs of a stream end is a theorem.
  \<^item> The capacity that a decoder reserves at first is a parameter \<open>cap\<close>; that builds with overflow checks panic is the flag \<open>checked\<close>.
  \<^item> What is assumed of code outside the repository is a named locale or a hypothesis of the theorem, and witnesses discharge it on
    concrete functions. The paths of an index are distinct, as they come out of a sorted set.

  \<^bold>\<open>Not modelled\<close>

  \<^item> Back pressure of the bounded queue between handles and egress; time (a timeout is an error of the transport); logging.
  \<^item> Transports that only open sockets and hand the streams to the framing layer: \<open>frame/tcp\<close>, \<open>frame/unix.rs\<close>, \<open>quic\<close>, \<open>webtransport\<close>, \<open>http\<close>. A transport is
    a byte stream that may fail at any point.
  \<^item> The code generators \<open>wit-bindgen*\<close>, whose output is source text; the command line tools; the test helpers, benchmarks and examples.
  \<^item> The linker of \<open>wasmtime/src/polyfill.rs\<close>, \<open>wasmtime/src/serve.rs\<close> and \<open>wasmtime/src/rpc\<close>, which register host functions with wasmtime.
  \<^item> \<open>wave/src/typed.rs\<close>, which mirrors \<open>Wave_Codec\<close> over the types of the external crate \<open>wasm-wave\<close>.
  \<^item> \<open>transport/src/pack.rs\<close>, \<open>invoke.rs\<close>, \<open>serve.rs\<close> and \<open>frame/conn/server.rs\<close>: plumbing of asynchronous traits around the codecs.
  \<^item> The key-value store on redis, which sends commands to an external server; the runtimes of other languages, under \<open>src/go\<close> and \<open>src/js\<close>.
\<close>

end
